(* ===== verification/Prelude.thy ===== *)
theory Prelude
  imports Main "HOL-Library.Word"
begin

unbundle bit_operations_syntax

text \<open>
  Shared vocabulary of the development: the machine types of the Go sources, the outcome of a
  call that may panic, slice expressions, the big-endian accessors of
  \<^verbatim>\<open>encoding/binary\<close> and the text conversions of \<^verbatim>\<open>fmt\<close> the sources use.
  Go byte slices and strings are lists; a nil slice and an empty slice are both the empty list,
  because no function of the sources tells them apart.

  Rule collections: \<open>wire_simps\<close> holds the codec laws of the byte order functions,
  \<open>go_defs\<close> the unfoldings of small helper definitions.
\<close>

section \<open>Machine types\<close>

type_synonym byte = "8 word"
type_synonym bytes = "byte list"
type_synonym uint16 = "16 word"
type_synonym uint32 = "32 word"

named_theorems wire_simps \<open>laws of the byte order functions\<close>
named_theorems go_defs \<open>unfoldings of small helper definitions\<close>

section \<open>Calls that may panic\<close>

text \<open>
  A Go call either returns a value or panics. A function with an \<^verbatim>\<open>error\<close> result returns
  a sum, \<open>Inl\<close> for the error, inside \<open>Ret\<close>.
\<close>

datatype panic =
    SliceBounds
  | NilCall
  | BadKeyLength
  | ClosedChannel
  | NonPositiveTicker
  | NegativeWaitGroup
  | WaitGroupMisuse

datatype 'a go = Ret 'a | Panic panic

primrec returns :: "'a go \<Rightarrow> bool" where
  "returns (Ret x) = True"
| "returns (Panic p) = False"

section \<open>Slices\<close>

text \<open>The elements \<open>i\<close> up to but not including \<open>j\<close>, for bounds that are in range.\<close>

definition slice :: "nat \<Rightarrow> nat \<Rightarrow> 'a list \<Rightarrow> 'a list" where
  "slice i j xs = take (j - i) (drop i xs)"

text \<open>
  A slice expression \<^verbatim>\<open>xs[i:j]\<close> with its run-time check, on a slice whose capacity is
  its length.
\<close>

definition go_slice :: "nat \<Rightarrow> nat \<Rightarrow> 'a list \<Rightarrow> 'a list go" where
  "go_slice i j xs = (if i \<le> j \<and> j \<le> length xs then Ret (slice i j xs) else Panic SliceBounds)"

section \<open>Byte order\<close>

text \<open>
  \<^verbatim>\<open>binary.BigEndian\<close>. The readers look at the front of the slice; every call in the
  sources passes a slice of exactly the width read.
\<close>

fun Uint16 :: "bytes \<Rightarrow> uint16" where
  "Uint16 (b0 # b1 # _) = push_bit 8 (ucast b0) OR ucast b1"
| "Uint16 _ = 0"

definition PutUint16 :: "uint16 \<Rightarrow> bytes" where
  "PutUint16 v = [ucast (drop_bit 8 v), ucast v]"

fun Uint32 :: "bytes \<Rightarrow> uint32" where
  "Uint32 (b0 # b1 # b2 # b3 # _) =
     push_bit 24 (ucast b0) OR push_bit 16 (ucast b1) OR push_bit 8 (ucast b2) OR ucast b3"
| "Uint32 _ = 0"

definition PutUint32 :: "uint32 \<Rightarrow> bytes" where
  "PutUint32 v = [ucast (drop_bit 24 v), ucast (drop_bit 16 v), ucast (drop_bit 8 v), ucast v]"

section \<open>Text\<close>

text \<open>\<^verbatim>\<open>[]byte(s)\<close> and \<^verbatim>\<open>string(b)\<close>.\<close>

definition str_bytes :: "string \<Rightarrow> bytes" where
  "str_bytes s = map of_char s"

definition bytes_str :: "bytes \<Rightarrow> string" where
  "bytes_str bs = map (\<lambda>b. char_of (unat b)) bs"

text \<open>The verb \<^verbatim>\<open>%d\<close> on an unsigned value.\<close>

fun show_nat :: "nat \<Rightarrow> string" where
  "show_nat n = (if n < 10 then [char_of (48 + n)] else show_nat (n div 10) @ [char_of (48 + n mod 10)])"

declare show_nat.simps [simp del]

section \<open>Lemmas on slices\<close>

lemma length_slice [simp]: "length (slice i j xs) = min (j - i) (length xs - i)"
  by (simp add: slice_def)

lemma slice_0 [simp]: "slice 0 j xs = take j xs"
  by (simp add: slice_def)

lemma slice_to_end: "length xs \<le> j \<Longrightarrow> slice i j xs = drop i xs"
  by (simp add: slice_def)

lemma slice_append_mid:
  "i = length xs \<Longrightarrow> j = length xs + length ys \<Longrightarrow> slice i j (xs @ ys @ zs) = ys"
  by (simp add: slice_def)

lemma slice_append_right:
  "length xs \<le> i \<Longrightarrow> slice i j (xs @ ys) = slice (i - length xs) (j - length xs) ys"
  by (simp add: slice_def)

lemma take_slice_drop:
  "i \<le> j \<Longrightarrow> take i xs @ slice i j xs @ drop j xs = xs"
  unfolding slice_def
  by (metis append_take_drop_id drop_drop le_add_diff_inverse2)

lemma go_slice_ok [simp]: "i \<le> j \<Longrightarrow> j \<le> length xs \<Longrightarrow> go_slice i j xs = Ret (slice i j xs)"
  by (simp add: go_slice_def)

lemma go_slice_panic_iff: "go_slice i j xs = Panic p \<longleftrightarrow> p = SliceBounds \<and> \<not> (i \<le> j \<and> j \<le> length xs)"
  by (auto simp: go_slice_def)

section \<open>Lemmas on list updates\<close>

lemma nth_update_if: "xs[p := y] ! q = (if p = q \<and> p < length xs then y else xs ! q)"
  by (cases "p < length xs") (auto simp: list_update_beyond)

section \<open>Laws of the byte order functions\<close>

lemma length_PutUint16 [simp]: "length (PutUint16 v) = 2"
  by (simp add: PutUint16_def)

lemma length_PutUint32 [simp]: "length (PutUint32 v) = 4"
  by (simp add: PutUint32_def)

lemma PutUint16_neq_Nil [simp]: "PutUint16 v \<noteq> []"
  by (simp add: PutUint16_def)

lemma bit_byte_high: "8 \<le> n \<Longrightarrow> \<not> bit (b :: byte) n"
  using bit_imp_le_length [of b n] by auto

lemma Uint16_PutUint16 [simp, wire_simps]: "Uint16 (PutUint16 v @ r) = v"
  by (simp add: PutUint16_def, rule bit_word_eqI) (auto simp: bit_simps)

lemma Uint16_PutUint16' [simp, wire_simps]: "Uint16 (PutUint16 v) = v"
  using Uint16_PutUint16 [of v "[]"] by simp

lemma PutUint16_Uint16: "PutUint16 (Uint16 [a, b]) = [a, b]"
  by (auto simp: PutUint16_def bit_simps bit_byte_high intro!: bit_word_eqI)

lemma Uint16_take [simp]: "Uint16 (take 2 bs) = Uint16 bs"
  by (cases bs rule: Uint16.cases) (auto simp: numeral_2_eq_2)

lemma PutUint16_Uint16_take: "2 \<le> length bs \<Longrightarrow> PutUint16 (Uint16 bs) = take 2 bs"
proof (cases bs rule: Uint16.cases)
  case (1 a b r)
  have "Uint16 (a # b # r) = Uint16 [a, b]" by simp
  with 1 show ?thesis by (simp only: PutUint16_Uint16) (simp add: numeral_2_eq_2)
qed simp_all

lemma Uint32_PutUint32 [simp, wire_simps]: "Uint32 (PutUint32 v @ r) = v"
proof (rule bit_word_eqI)
  fix n
  assume n: "n < LENGTH(32)"
  then consider "n < 8" | "8 \<le> n" "n < 16" | "16 \<le> n" "n < 24" | "24 \<le> n"
    by linarith
  then show "bit (Uint32 (PutUint32 v @ r)) n = bit v n"
    using n by cases (auto simp: PutUint32_def bit_simps)
qed

lemma Uint32_PutUint32' [simp, wire_simps]: "Uint32 (PutUint32 v) = v"
  using Uint32_PutUint32 [of v "[]"] by simp

lemma PutUint32_Uint32: "PutUint32 (Uint32 [a, b, c, d]) = [a, b, c, d]"
  by (auto simp: PutUint32_def bit_simps bit_byte_high intro!: bit_word_eqI)

lemma unat_byte_less: "unat (v :: byte) < 256"
  using unsigned_less [of v, where 'a = nat] by simp

lemma byte_of_nat_eqI: "n mod 256 = unat b \<Longrightarrow> (of_nat n :: byte) = b"
  by (simp add: word_unat_eq_iff unat_of_nat)

lemma unat_uint16_less: "unat (v :: uint16) < 65536"
  using unsigned_less [of v] by simp

lemma unat_uint32_less: "unat (v :: uint32) < 4294967296"
  using unsigned_less [of v] by simp

lemma PutUint16_inject [simp]: "PutUint16 v = PutUint16 w \<longleftrightarrow> v = w"
  by (metis Uint16_PutUint16')

lemma take_2_PutUint16 [simp, wire_simps]: "take 2 (PutUint16 v @ r) = PutUint16 v"
  by simp

lemma drop_2_PutUint16 [simp, wire_simps]: "drop 2 (PutUint16 v @ r) = r"
  by simp

section \<open>Laws of the text conversions\<close>

lemma length_str_bytes [simp]: "length (str_bytes s) = length s"
  by (simp add: str_bytes_def)

lemma bytes_str_str_bytes [simp]: "bytes_str (str_bytes s) = s"
proof -
  have "unat (of_char c :: byte) = of_char c" for c
    by (subst of_nat_of_char [symmetric]) (simp add: unat_of_nat)
  then show ?thesis by (simp add: bytes_str_def str_bytes_def comp_def)
qed

lemma str_bytes_inject [simp]: "str_bytes s = str_bytes t \<longleftrightarrow> s = t"
  by (metis bytes_str_str_bytes)

end
