(* ===== verification/Interfaces.thy ===== *)
theory Interfaces
  imports Prelude
begin

text \<open>
  The types of \<^verbatim>\<open>src/interfaces\<close> that other packages exchange: dispatch ids, network
  addresses, the handshake session and the two failure errors. The interfaces themselves
  (\<^verbatim>\<open>IEgress\<close>, \<^verbatim>\<open>IKeyGenerator\<close>, \<^verbatim>\<open>IUdpPortListener\<close>, \dots) have no code of
  their own; where a component calls one, the operations it calls are arguments of the component's
  definitions or the \<open>fixes\<close> of a locale.
\<close>

section \<open>Dispatch ids and addresses\<close>

text \<open>\<^verbatim>\<open>type DID uint32\<close>.\<close>

type_synonym DID = uint32

text \<open>\<^verbatim>\<open>net.UDPAddr\<close>: the IP bytes, the port as a Go \<^verbatim>\<open>int\<close> and the zone.\<close>

record UDPAddr =
  addr_IP :: bytes
  addr_Port :: int
  addr_Zone :: string

section \<open>The packet port interface\<close>

text \<open>
  What a client of \<^verbatim>\<open>IUdpPortListener\<close> relies on: a subscription is entered in the table under
  the id it returns and nothing else is; removing an id removes exactly its entry, and reports an
  error if there is none; sending leaves the table alone.
\<close>

locale packet_port =
  fixes table :: "'w \<Rightarrow> uint32 \<Rightarrow> 's option"
    and subscribe :: "'f \<Rightarrow> 'c \<Rightarrow> 'w \<Rightarrow> ('e + uint32) \<times> 'w"
    and unsubscribe :: "uint32 \<Rightarrow> 'w \<Rightarrow> 'e option \<times> 'w"
    and send :: "('a \<Rightarrow> 'b \<Rightarrow> bool) \<Rightarrow> 'a \<Rightarrow> 'b \<Rightarrow> 'w \<Rightarrow> 'e option \<times> 'w"
    and entry :: "'f \<Rightarrow> 'c \<Rightarrow> 's"
  assumes subscribe_table: "subscribe f c w = (Inr sid, w') \<Longrightarrow> table w' = (table w)(sid \<mapsto> entry f c)"
    and unsubscribe_table: "unsubscribe sid w = (e, w') \<Longrightarrow> table w' = (table w)(sid := None) \<and> (e = None \<longleftrightarrow> table w sid \<noteq> None)"
    and send_table: "send accepts a b w = (e, w') \<Longrightarrow> table w' = table w"
begin

text \<open>A subscription, a send and the removal of the subscription leave the table without the id and
  otherwise as it was, and the removal succeeds.\<close>

lemma subscribe_send_unsubscribe:
  assumes "subscribe f c w = (Inr sid, w1)" "send accepts a b w1 = (e, w2)" "unsubscribe sid w2 = (e', w3)"
  shows "table w3 = (table w)(sid := None) \<and> e' = None"
  using subscribe_table [OF assms(1)] send_table [OF assms(2)] unsubscribe_table [OF assms(3)] by simp

lemma subscribe_entry:
  "subscribe f c w = (Inr sid, w') \<Longrightarrow> table w' k = Some s \<Longrightarrow> table w k = Some s \<or> k = sid \<and> s = entry f c"
  by (auto dest!: subscribe_table split: if_splits)

lemma unsubscribe_entry: "unsubscribe sid w = (e, w') \<Longrightarrow> table w' k = Some s \<Longrightarrow> k \<noteq> sid \<and> table w k = Some s"
  by (auto dest!: unsubscribe_table split: if_splits)

end

section \<open>Handshake session and failure errors\<close>

record HandshakeSession =
  TargetAddr :: "UDPAddr option"
  PeerIdentity :: bytes
  CipherSuite :: string
  InboundKey :: bytes
  OutboundKey :: bytes

record handshakeFailError =
  hs_reason :: string

record natPunchFailError =
  np_reason :: string

definition NewHandshakeFailErr :: "string \<Rightarrow> handshakeFailError" where
  "NewHandshakeFailErr reason = \<lparr>hs_reason = reason\<rparr>"

definition handshakeFailError_Error :: "handshakeFailError \<Rightarrow> string" where
  "handshakeFailError_Error e = hs_reason e"

definition NewNatPunchFailErr :: "string \<Rightarrow> natPunchFailError" where
  "NewNatPunchFailErr reason = \<lparr>np_reason = reason\<rparr>"

definition natPunchFailError_Error :: "natPunchFailError \<Rightarrow> string" where
  "natPunchFailError_Error e = np_reason e"

text \<open>The text of a failure error is the reason it was made with.\<close>

lemma fail_error_text [simp]:
  "handshakeFailError_Error (NewHandshakeFailErr r) = r"
  "natPunchFailError_Error (NewNatPunchFailErr r) = r"
  by (simp_all add: handshakeFailError_Error_def NewHandshakeFailErr_def
      natPunchFailError_Error_def NewNatPunchFailErr_def)

end
