(* ===== verification/IpcFrame.thy ===== *)
theory IpcFrame
  imports Interfaces "HOL-Library.Sublist"
begin

text \<open>
  The framing of \<^verbatim>\<open>src/ipc/session_manager.go\<close>: \<^verbatim>\<open>readPacket\<close> on the byte
  stream of a connection and \<^verbatim>\<open>writePacket\<close> on its sending side. A stream is the bytes that
  have arrived and are not read yet, with a flag for the end of the stream; a read that needs more
  bytes than have arrived blocks. The sending side records the bytes it took and how many more it
  takes before a write fails (write deadline or closed peer).
\<close>

section \<open>Reading\<close>

datatype read_error = EOF | ErrUnexpectedEOF

datatype 'a read_result = Done 'a | Blocked | Failed read_error

record stream =
  pending :: bytes
  eof :: bool

text \<open>\<^verbatim>\<open>io.ReadFull\<close> for \<open>n\<close> bytes.\<close>

definition ReadFull :: "nat \<Rightarrow> stream \<Rightarrow> bytes read_result \<times> stream" where
  "ReadFull n st =
     (if n \<le> length (pending st) then (Done (take n (pending st)), st\<lparr>pending := drop n (pending st)\<rparr>)
      else if eof st
      then (Failed (if pending st = [] then EOF else ErrUnexpectedEOF), st\<lparr>pending := []\<rparr>)
      else (Blocked, st))"

definition readPacket :: "stream \<Rightarrow> (uint16 \<times> bytes) read_result \<times> stream" where
  "readPacket st =
     (case ReadFull 4 st of
        (Done header, st1) \<Rightarrow>
          (let opcode = Uint16 (slice 0 2 header); len = unat (Uint16 (slice 2 4 header))
           in case ReadFull len st1 of
                (Done buf, st2) \<Rightarrow> (Done (opcode, buf), st2)
              | (Blocked, _) \<Rightarrow> (Blocked, st)
              | (Failed e, st2) \<Rightarrow> (Failed e, st2))
      | (Blocked, _) \<Rightarrow> (Blocked, st)
      | (Failed e, st1) \<Rightarrow> (Failed e, st1))"

section \<open>Writing\<close>

definition maxPacketSize :: nat where
  "maxPacketSize = 65535"

datatype write_error = PacketTooLong nat | WriteFailed

record sink =
  taken :: bytes
  room :: "nat option"

definition conn_Write :: "bytes \<Rightarrow> sink \<Rightarrow> write_error option \<times> sink" where
  "conn_Write bs w =
     (case room w of
        None \<Rightarrow> (None, w\<lparr>taken := taken w @ bs\<rparr>)
      | Some n \<Rightarrow>
          if length bs \<le> n then (None, w\<lparr>taken := taken w @ bs, room := Some (n - length bs)\<rparr>)
          else (Some WriteFailed, w\<lparr>taken := taken w @ take n bs, room := Some 0\<rparr>))"

definition response_header :: "uint16 \<Rightarrow> uint16 \<Rightarrow> bytes \<Rightarrow> bytes" where
  "response_header opcode statusCode data =
     PutUint16 opcode @ PutUint16 statusCode @ PutUint16 (of_nat (length data))"

definition writePacket :: "uint16 \<Rightarrow> uint16 \<Rightarrow> bytes \<Rightarrow> sink \<Rightarrow> write_error option \<times> sink" where
  "writePacket opcode statusCode data w =
     (if length data > maxPacketSize then (Some (PacketTooLong (length data)), w)
      else (case conn_Write (response_header opcode statusCode data) w of
              (Some e, w1) \<Rightarrow> (Some e, w1)
            | (None, w1) \<Rightarrow> if length data > 0 then conn_Write data w1 else (None, w1)))"

section \<open>Wire formats\<close>

text \<open>The request and response frames of the package documentation of the control center.\<close>

definition request_frame :: "uint16 \<times> bytes \<Rightarrow> bytes" where
  "request_frame q = PutUint16 (fst q) @ PutUint16 (of_nat (length (snd q))) @ snd q"

definition response_frame :: "uint16 \<times> uint16 \<times> bytes \<Rightarrow> bytes" where
  "response_frame q = (case q of (op, status, data) \<Rightarrow> response_header op status data @ data)"

text \<open>A client's reader of response frames: the first complete frame and the bytes after it.\<close>

definition parse_response :: "bytes \<Rightarrow> ((uint16 \<times> uint16 \<times> bytes) \<times> bytes) option" where
  "parse_response bs =
     (if length bs < 6 then None
      else let len = unat (Uint16 (slice 4 6 bs))
           in if length bs < 6 + len then None
              else Some ((Uint16 (slice 0 2 bs), Uint16 (slice 2 4 bs), slice 6 (6 + len) bs), drop (6 + len) bs))"

text \<open>The daemon's reader as a function of the bytes that have arrived.\<close>

definition parse_request :: "bytes \<Rightarrow> ((uint16 \<times> bytes) \<times> bytes) option" where
  "parse_request bs =
     (case readPacket \<lparr>pending = bs, eof = False\<rparr> of
        (Done q, st) \<Rightarrow> Some (q, pending st)
      | _ \<Rightarrow> None)"

text \<open>At most \<open>n\<close> frames from the front of a byte string, and what is left.\<close>

fun parse_frames :: "nat \<Rightarrow> (bytes \<Rightarrow> ('a \<times> bytes) option) \<Rightarrow> bytes \<Rightarrow> 'a list \<times> bytes" where
  "parse_frames 0 p bs = ([], bs)"
| "parse_frames (Suc n) p bs =
     (case p bs of
        None \<Rightarrow> ([], bs)
      | Some (x, r) \<Rightarrow> (case parse_frames n p r of (xs, r') \<Rightarrow> (x # xs, r')))"

section \<open>The frame codec interface\<close>

locale frame_codec =
  fixes wf :: "'a \<Rightarrow> bool"
    and enc :: "'a \<Rightarrow> bytes"
    and parse :: "bytes \<Rightarrow> ('a \<times> bytes) option"
  assumes parse_enc: "wf x \<Longrightarrow> parse (enc x @ r) = Some (x, r)"
    and parse_short: "wf x \<Longrightarrow> strict_prefix bs (enc x) \<Longrightarrow> parse bs = None"
begin

lemma enc_inject: "wf x \<Longrightarrow> wf y \<Longrightarrow> enc x @ r = enc y @ s \<Longrightarrow> x = y \<and> r = s"
  by (metis parse_enc option.inject prod.inject)

text \<open>A concatenation of frames is read back as the sequence of messages.\<close>

lemma parse_frames_concat:
  "list_all wf xs \<Longrightarrow> length xs \<le> n \<Longrightarrow> parse r = None \<Longrightarrow>
   parse_frames n parse (concat (map enc xs) @ r) = (xs, r)"
proof (induction xs arbitrary: n)
  case Nil
  then show ?case by (cases n) simp_all
next
  case (Cons x xs)
  then show ?case by (cases n) (simp_all add: parse_enc)
qed

text \<open>From a prefix of such a concatenation a reader gets a prefix of the messages.\<close>

lemma parse_frames_prefix:
  "list_all wf xs \<Longrightarrow> prefix bs (concat (map enc xs)) \<Longrightarrow> parse [] = None \<Longrightarrow>
   prefix (fst (parse_frames n parse bs)) xs"
proof (induction xs arbitrary: n bs)
  case Nil
  then show ?case by (cases n) simp_all
next
  case (Cons x xs)
  have enc: "prefix (enc x) (concat (map enc (x # xs)))" by simp
  have wf: "wf x" "list_all wf xs" using Cons.prems(1) by simp_all
  show ?case
  proof (cases "length (enc x) \<le> length bs")
    case True
    from prefix_length_prefix [OF enc Cons.prems(2) True] obtain r where r: "bs = enc x @ r"
      by (auto simp: prefix_def)
    with Cons.prems(2) have pr: "prefix r (concat (map enc xs))" by simp
    show ?thesis
    proof (cases n)
      case (Suc k)
      have "prefix (fst (parse_frames k parse r)) xs"
        using Cons.IH [OF wf(2) pr Cons.prems(3)] .
      with Suc r wf(1) show ?thesis
        by (cases "parse_frames k parse r") (simp add: parse_enc)
    qed simp
  next
    case False
    with prefix_length_prefix [OF Cons.prems(2) enc] have "prefix bs (enc x)" by simp
    with False have "strict_prefix bs (enc x)" by (auto simp: strict_prefix_def)
    then have "parse bs = None" using wf(1) parse_short by blast
    then show ?thesis by (cases n) simp_all
  qed
qed

end

section \<open>Requests\<close>

lemma parse_request_eq:
  "parse_request bs =
     (if length bs < 4 then None
      else let n = unat (Uint16 (drop 2 bs))
           in if length bs < 4 + n then None
              else Some ((Uint16 bs, slice 4 (4 + n) bs), drop (4 + n) bs))"
proof (cases "length bs < 4")
  case True
  then show ?thesis by (simp add: parse_request_def readPacket_def ReadFull_def)
next
  case False
  have "Uint16 (slice 2 4 (take 4 bs)) = Uint16 (drop 2 bs)"
    using Uint16_take [of "drop 2 bs"] by (simp add: slice_def drop_take)
  moreover have "Uint16 (slice 0 2 (take 4 bs)) = Uint16 bs"
    using Uint16_take [of bs] by (simp add: min_def)
  ultimately show ?thesis
    using False
    by (auto simp: parse_request_def readPacket_def ReadFull_def Let_def slice_def not_less add.commute)
qed

lemma unat_len: "length data < 65536 \<Longrightarrow> unat (of_nat (length data) :: uint16) = length data"
  by (simp add: unat_of_nat)

lemma length_request_frame [simp]: "length (request_frame q) = 4 + length (snd q)"
  by (simp add: request_frame_def)

lemma parse_request_frame:
  "length (snd q) < 65536 \<Longrightarrow> parse_request (request_frame q @ r) = Some (q, r)"
  by (cases q) (simp add: parse_request_eq request_frame_def unat_len slice_def Let_def)

lemma parse_request_short:
  assumes "length (snd q) < 65536" "strict_prefix bs (request_frame q)"
  shows "parse_request bs = None"
proof (cases "length bs < 4")
  case True
  then show ?thesis by (simp add: parse_request_eq)
next
  case False
  have len: "length bs < 4 + length (snd q)"
    using prefix_length_less [OF assms(2)] by simp
  obtain r where r: "request_frame q = bs @ r" using assms(2) by (auto simp: strict_prefix_def prefix_def)
  have "Uint16 (drop 2 bs) = Uint16 (take 2 (drop 2 (bs @ r)))" using False by simp
  also have "\<dots> = of_nat (length (snd q))" by (simp add: r [symmetric] request_frame_def)
  finally have "unat (Uint16 (drop 2 bs)) = length (snd q)" using assms(1) by (simp add: unat_len)
  with len show ?thesis by (simp add: parse_request_eq)
qed

interpretation request: frame_codec "\<lambda>q. length (snd q) < 65536" request_frame parse_request
  by unfold_locales (auto intro: parse_request_frame parse_request_short)

text \<open>What a successful read took from the stream is the frame of its result.\<close>

lemma readPacket_Done:
  assumes "readPacket st = (Done q, st')"
  shows "pending st = request_frame q @ pending st' \<and> length (snd q) < 65536"
proof -
  let ?b = "pending st" let ?h = "take 4 ?b" let ?n = "unat (Uint16 (slice 2 4 ?h))"
  have len: "4 \<le> length ?b" "?n \<le> length ?b - 4"
    and q: "q = (Uint16 (slice 0 2 ?h), take ?n (drop 4 ?b))" and st': "pending st' = drop ?n (drop 4 ?b)"
    using assms by (auto simp: readPacket_def ReadFull_def Let_def split: if_splits)
  have n: "?n < 65536" using unsigned_less [of "Uint16 (slice 2 4 ?h)", where ?'a = nat] by simp
  have "PutUint16 (Uint16 (slice 0 2 ?h)) @ PutUint16 (Uint16 (slice 2 4 ?h)) = slice 0 2 ?h @ slice 2 4 ?h"
    using len by (simp add: PutUint16_Uint16_take slice_def)
  also have "\<dots> = ?h" using append_take_drop_id [of 2 ?h] by (simp add: slice_def)
  finally have "request_frame q = ?h @ take ?n (drop 4 ?b)"
    using len by (simp add: q request_frame_def)
  then show ?thesis using n len by (simp add: st' q del: drop_drop)
qed

section \<open>Responses\<close>

lemma length_response_header [simp]: "length (response_header op status data) = 6"
  by (simp add: response_header_def)

lemma length_response_frame [simp]: "length (response_frame (op, status, data)) = 6 + length data"
  by (simp add: response_frame_def)

lemma parse_response_frame:
  "length (snd (snd q)) < 65536 \<Longrightarrow> parse_response (response_frame q @ r) = Some (q, r)"
  by (cases q)
    (simp add: parse_response_def response_frame_def response_header_def unat_len slice_def Let_def)

lemma parse_response_short:
  assumes "length (snd (snd q)) < 65536" "strict_prefix bs (response_frame q)"
  shows "parse_response bs = None"
proof (cases "length bs < 6")
  case True
  then show ?thesis by (simp add: parse_response_def)
next
  case False
  obtain op status data where q: "q = (op, status, data)" by (cases q)
  have len: "length bs < 6 + length data"
    using prefix_length_less [OF assms(2)] by (simp add: q)
  obtain r where r: "response_frame q = bs @ r" using assms(2) by (auto simp: strict_prefix_def prefix_def)
  have "slice 4 6 bs = slice 4 6 (bs @ r)" using False by (simp add: slice_def)
  also have "\<dots> = PutUint16 (of_nat (length data))"
    by (simp add: r [symmetric] q response_frame_def response_header_def slice_def)
  finally have "unat (Uint16 (slice 4 6 bs)) = length data" using assms(1) by (simp add: q unat_len)
  with len show ?thesis by (simp add: parse_response_def)
qed

interpretation response: frame_codec "\<lambda>q. length (snd (snd q)) < 65536" response_frame parse_response
  by unfold_locales (auto intro: parse_response_frame parse_response_short)

lemma parse_response_Nil [simp]: "parse_response [] = None"
  by (simp add: parse_response_def)

lemma parse_request_Nil [simp]: "parse_request [] = None"
  by (simp add: parse_request_eq)

section \<open>What a write puts on the wire\<close>

lemma conn_Write_cases:
  "conn_Write bs w = (err, w') \<Longrightarrow>
   \<exists>out. taken w' = taken w @ out \<and> prefix out bs \<and> (err = None \<longrightarrow> out = bs)"
  by (auto simp: conn_Write_def take_is_prefix split: option.splits if_splits)

lemma writePacket_cases:
  assumes "writePacket op status data w = (err, w')"
  shows "\<exists>out. taken w' = taken w @ out \<and> prefix out (response_frame (op, status, data))
    \<and> (err = None \<longrightarrow> out = response_frame (op, status, data) \<and> length data < 65536)"
proof (cases "length data > maxPacketSize")
  case True
  with assms show ?thesis by (auto simp: writePacket_def)
next
  case False
  then have small: "length data < 65536" by (simp add: maxPacketSize_def)
  obtain e1 w1 where w1: "conn_Write (response_header op status data) w = (e1, w1)" by fastforce
  from conn_Write_cases [OF w1] obtain o1 where
    o1: "taken w1 = taken w @ o1" "prefix o1 (response_header op status data)"
    "e1 = None \<longrightarrow> o1 = response_header op status data" by blast
  show ?thesis
  proof (cases e1)
    case (Some e)
    with assms w1 False have "err = Some e" "w' = w1" by (simp_all add: writePacket_def)
    with o1 show ?thesis by (auto simp: response_frame_def intro: prefix_order.trans)
  next
    case None
    show ?thesis
    proof (cases "data = []")
      case True
      with assms w1 False None o1 small show ?thesis by (auto simp: writePacket_def response_frame_def)
    next
      case nonempty: False
      with assms w1 False None have "conn_Write data w1 = (err, w')" by (simp add: writePacket_def)
      from conn_Write_cases [OF this] o1 None small show ?thesis
        by (auto simp: response_frame_def)
    qed
  qed
qed

text \<open>
  C36: what the daemon writes for a response is always a prefix of the documented response frame; if
  the write succeeds it is the whole frame, which a client's reader parses back to the opcode, the
  status and the payload; if the payload is over 65535 bytes nothing is written.
\<close>

theorem write_packet_wire_format:
  "case writePacket op status data w of
     (err, w') \<Rightarrow> \<exists>out. taken w' = taken w @ out \<and> prefix out (response_frame (op, status, data))
       \<and> (if err = None then parse_response out = Some ((op, status, data), []) else True)
       \<and> (if length data > 65535 then err = Some (PacketTooLong (length data)) \<and> out = [] else True)"
proof (cases "writePacket op status data w")
  case (Pair err w')
  from writePacket_cases [OF this] obtain out where
    out: "taken w' = taken w @ out" "prefix out (response_frame (op, status, data))"
    "err = None \<longrightarrow> out = response_frame (op, status, data) \<and> length data < 65536" by blast
  have "err = None \<Longrightarrow> parse_response out = Some ((op, status, data), [])"
    using out(3) response.parse_enc [of "(op, status, data)" "[]"] by auto
  moreover have "length data > 65535 \<Longrightarrow> err = Some (PacketTooLong (length data)) \<and> w' = w"
    using Pair by (simp add: writePacket_def maxPacketSize_def)
  ultimately show ?thesis using Pair out(1,2) by auto
qed

text \<open>
  C35: the daemon's reader inverts the request format on streams: from the concatenation of the
  frames of any requests it reads exactly those requests, in order, and leaves the bytes of an
  incomplete frame alone.
\<close>

theorem request_stream_round_trip:
  assumes "list_all (\<lambda>q. length (snd q) < 65536) qs" "parse_request rest = None"
  shows "parse_frames (length qs) parse_request (concat (map request_frame qs) @ rest) = (qs, rest)"
  using assms by (simp add: request.parse_frames_concat)

theorem request_stream_round_trip_witness:
  "parse_frames (length [(1 :: uint16, [7, 8 :: byte]), (513, [])]) parse_request
     (concat (map request_frame [(1, [7, 8]), (513, [])]) @ [0, 1, 0]) = ([(1, [7, 8]), (513, [])], [0, 1, 0])"
  by (rule request_stream_round_trip) (simp_all add: parse_request_eq)

end
