(* ===== verification/GoChan.thy ===== *)
theory GoChan
  imports Prelude
begin

text \<open>
  Buffered Go channels as the session manager and the UDP listener use them: a send inside a
  \<^verbatim>\<open>select\<close> with a default branch, a receive and a close, with the panics of the language
  (sending on or closing a closed channel). The locale \<open>bounded_fifo\<close> is what the two clients
  rely on.
\<close>

section \<open>Channels\<close>

record 'a chan =
  chan_buf :: "'a list"
  chan_cap :: nat
  chan_closed :: bool

definition make_chan :: "nat \<Rightarrow> 'a chan" where
  "make_chan n = \<lparr>chan_buf = [], chan_cap = n, chan_closed = False\<rparr>"

text \<open>\<^verbatim>\<open>select { case c <- x: ... default: ... }\<close>: whether the send was taken.\<close>

definition try_send :: "'a \<Rightarrow> 'a chan \<Rightarrow> (bool \<times> 'a chan) go" where
  "try_send x c =
     (if chan_closed c then Panic ClosedChannel
      else if length (chan_buf c) < chan_cap c then Ret (True, c\<lparr>chan_buf := chan_buf c @ [x]\<rparr>)
      else Ret (False, c))"

text \<open>
  \<^verbatim>\<open>x, ok := <-c\<close>: \<open>None\<close> when the receive would block; otherwise the element, or
  \<open>None\<close> for a closed and drained channel.
\<close>

definition chan_recv :: "'a chan \<Rightarrow> ('a option \<times> 'a chan) option" where
  "chan_recv c =
     (case chan_buf c of
        x # xs \<Rightarrow> Some (Some x, c\<lparr>chan_buf := xs\<rparr>)
      | [] \<Rightarrow> if chan_closed c then Some (None, c) else None)"

definition close_chan :: "'a chan \<Rightarrow> 'a chan go" where
  "close_chan c = (if chan_closed c then Panic ClosedChannel else Ret (c\<lparr>chan_closed := True\<rparr>))"

section \<open>The bounded queue interface\<close>

locale bounded_fifo =
  fixes queue :: "'c \<Rightarrow> 'a list"
    and bound :: "'c \<Rightarrow> nat"
    and send :: "'a \<Rightarrow> 'c \<Rightarrow> (bool \<times> 'c) go"
    and recv :: "'c \<Rightarrow> ('a option \<times> 'c) option"
  assumes send_taken: "send x c = Ret (True, c') \<Longrightarrow>
      queue c' = queue c @ [x] \<and> bound c' = bound c \<and> length (queue c) < bound c"
    and send_refused: "send x c = Ret (False, c') \<Longrightarrow> c' = c \<and> bound c \<le> length (queue c)"
    and recv_some: "recv c = Some (Some x, c') \<Longrightarrow> queue c = x # queue c' \<and> bound c' = bound c"
    and recv_none: "recv c = Some (None, c') \<Longrightarrow> c' = c \<and> queue c = []"
begin

lemma send_keeps_bound:
  "length (queue c) \<le> bound c \<Longrightarrow> send x c = Ret (b, c') \<Longrightarrow> length (queue c') \<le> bound c'"
  by (cases b) (auto dest: send_taken send_refused)

lemma recv_keeps_bound:
  "length (queue c) \<le> bound c \<Longrightarrow> recv c = Some (r, c') \<Longrightarrow> length (queue c') \<le> bound c'"
  by (cases r) (auto dest!: recv_some recv_none)

end

interpretation gochan: bounded_fifo chan_buf chan_cap try_send chan_recv
  by unfold_locales (auto simp: try_send_def chan_recv_def split: if_splits list.splits)

lemma try_send_open:
  "\<not> chan_closed c \<Longrightarrow> \<exists>b c'. try_send x c = Ret (b, c') \<and> chan_closed c' = chan_closed c \<and> chan_cap c' = chan_cap c"
  by (auto simp: try_send_def)

lemma close_chan_open [simp]: "\<not> chan_closed c \<Longrightarrow> close_chan c = Ret (c\<lparr>chan_closed := True\<rparr>)"
  by (simp add: close_chan_def)

lemma chan_recv_keeps: "chan_recv c = Some (r, c') \<Longrightarrow> chan_closed c' = chan_closed c \<and> chan_cap c' = chan_cap c"
  by (auto simp: chan_recv_def split: list.splits if_splits)

end
