(* ===== verification/GoSync.thy ===== *)
theory GoSync
  imports Prelude "HOL-Library.Multiset"
begin

text \<open>
  \<^verbatim>\<open>sync.WaitGroup\<close> as the goroutines of the daemon use it, at the granularity of its atomic
  operations: the counter, the callers blocked in \<^verbatim>\<open>Wait\<close> and the wake-ups handed out to
  them, with the three misuse panics of the standard library.
\<close>

section \<open>Wait groups\<close>

record WaitGroup =
  wg_count :: nat
  wg_waiters :: nat
  wg_sema :: nat

definition new_wg :: WaitGroup where
  "new_wg = \<lparr>wg_count = 0, wg_waiters = 0, wg_sema = 0\<rparr>"

text \<open>\<^verbatim>\<open>Add\<close> of a positive number: it must not start from zero while a caller waits.\<close>

definition wg_Add :: "nat \<Rightarrow> WaitGroup \<Rightarrow> WaitGroup go" where
  "wg_Add n g =
     (if wg_waiters g \<noteq> 0 \<and> wg_count g = 0 then Panic WaitGroupMisuse
      else Ret (g\<lparr>wg_count := wg_count g + n\<rparr>))"

text \<open>\<^verbatim>\<open>Done\<close>: the flag says that the counter reached zero with callers waiting, so that the
  caller goes on to \<open>wg_release\<close>.\<close>

definition wg_Done :: "WaitGroup \<Rightarrow> (bool \<times> WaitGroup) go" where
  "wg_Done g =
     (if wg_count g = 0 then Panic NegativeWaitGroup
      else Ret (wg_count g = 1 \<and> wg_waiters g \<noteq> 0, g\<lparr>wg_count := wg_count g - 1\<rparr>))"

definition wg_release :: "WaitGroup \<Rightarrow> WaitGroup go" where
  "wg_release g =
     (if wg_count g \<noteq> 0 then Panic WaitGroupMisuse
      else Ret (g\<lparr>wg_waiters := 0, wg_sema := wg_sema g + wg_waiters g\<rparr>))"

text \<open>\<^verbatim>\<open>Wait\<close>: it returns at once on a zero counter (the flag), otherwise it blocks; once it
  is woken the group must still be at rest.\<close>

definition wg_Wait :: "WaitGroup \<Rightarrow> bool \<times> WaitGroup" where
  "wg_Wait g = (if wg_count g = 0 then (True, g) else (False, g\<lparr>wg_waiters := wg_waiters g + 1\<rparr>))"

definition wg_woken :: "WaitGroup \<Rightarrow> WaitGroup go option" where
  "wg_woken g =
     (if wg_sema g = 0 then None
      else Some (if wg_count g \<noteq> 0 \<or> wg_waiters g \<noteq> 0 then Panic WaitGroupMisuse
                 else Ret (g\<lparr>wg_sema := wg_sema g - 1\<rparr>)))"

text \<open>What the users of a wait group rely on, over the goroutines they count (\<open>k\<close>), the
  callers blocked in \<^verbatim>\<open>Wait\<close> (\<open>b\<close>) and the goroutines about to release them
  (\<open>r\<close>).\<close>

definition wg_agrees :: "WaitGroup \<Rightarrow> nat \<Rightarrow> nat \<Rightarrow> nat \<Rightarrow> bool" where
  "wg_agrees g k b r \<longleftrightarrow> wg_count g = k \<and> wg_waiters g + wg_sema g = b
     \<and> r \<le> 1 \<and> (r = 1 \<longleftrightarrow> wg_count g = 0 \<and> wg_waiters g \<noteq> 0)"

lemma wg_agrees_new [simp]: "wg_agrees new_wg 0 0 0"
  by (simp add: wg_agrees_def new_wg_def)

lemma wg_agrees_Add: "wg_Add n g = Ret g' \<Longrightarrow> wg_agrees g k b r \<Longrightarrow> wg_agrees g' (k + n) b r"
  by (auto simp: wg_agrees_def wg_Add_def split: if_splits)

lemma wg_agrees_Done:
  "wg_Done g = Ret (False, g') \<Longrightarrow> wg_agrees g (Suc k) b r \<Longrightarrow> wg_agrees g' k b r"
  "wg_Done g = Ret (True, g') \<Longrightarrow> wg_agrees g (Suc k) b r \<Longrightarrow> wg_agrees g' k b (Suc r)"
  by (auto simp: wg_agrees_def wg_Done_def split: if_splits)

lemma wg_agrees_release: "wg_release g = Ret g' \<Longrightarrow> wg_agrees g k b (Suc r) \<Longrightarrow> wg_agrees g' k b r"
  by (auto simp: wg_agrees_def wg_release_def split: if_splits)

lemma wg_agrees_Wait:
  "wg_Wait g = (True, g') \<Longrightarrow> wg_agrees g k b r \<Longrightarrow> wg_agrees g' k b r"
  "wg_Wait g = (False, g') \<Longrightarrow> wg_agrees g k b r \<Longrightarrow> wg_agrees g' k (Suc b) r"
  by (auto simp: wg_agrees_def wg_Wait_def split: if_splits)

lemma wg_agrees_woken: "wg_woken g = Some (Ret g') \<Longrightarrow> wg_agrees g k (Suc b) r \<Longrightarrow> wg_agrees g' k b r"
  by (auto simp: wg_agrees_def wg_woken_def split: if_splits)

lemma wg_agrees_Add1: "wg_Add (Suc 0) g = Ret g' \<Longrightarrow> wg_agrees g k b r \<Longrightarrow> wg_agrees g' (Suc k) b r"
  using wg_agrees_Add [of "Suc 0"] by simp

lemmas wg_agrees_intros = wg_agrees_Add1 wg_agrees_Done wg_agrees_release wg_agrees_Wait wg_agrees_woken

text \<open>No panic: \<^verbatim>\<open>Done\<close> for a counted goroutine, the release by the goroutine that took the
  counter to zero; a group whose wake-ups are handed out is at rest until it is added to.\<close>

lemma wg_Done_counted: "wg_agrees g (Suc k) b r \<Longrightarrow> wg_Done g \<noteq> Panic x"
  by (simp add: wg_agrees_def wg_Done_def)

lemma wg_release_due: "wg_agrees g k b (Suc r) \<Longrightarrow> wg_release g \<noteq> Panic x"
  by (auto simp: wg_agrees_def wg_release_def)

text \<open>A caller of \<^verbatim>\<open>Wait\<close> blocks only while a goroutine is counted or about to release.\<close>

lemma wg_waiting_for: "wg_agrees g 0 (Suc b) 0 \<Longrightarrow> wg_woken g \<noteq> None"
  by (auto simp: wg_agrees_def wg_woken_def)

section \<open>Counting threads\<close>

lemma count_mset_0: "x \<notin> set xs \<Longrightarrow> count (mset xs) x = 0"
  by simp

lemma filter_mset_mset: "size (filter_mset P (mset xs)) = length (filter P xs)"
  by (simp flip: mset_filter)

text \<open>Goroutines cannot all be blocked in \<^verbatim>\<open>Wait\<close>: the group agrees with the threads
  \<open>M\<close>, of which those in \<open>P\<close> are counted, those at \<open>b\<close> wait and those at
  \<open>r\<close> release.\<close>

lemma wg_no_deadlock:
  assumes agrees: "wg_agrees g (size (filter_mset P M)) (count M b) (count M r)" and "M \<noteq> {#}" "\<not> P b" "r \<noteq> b"
    and all: "\<And>t. t \<in># M \<Longrightarrow> t = b \<and> wg_woken g = None"
  shows False
proof -
  have "set_mset M \<subseteq> {b}" using all by auto
  then have "M = replicate_mset (size M) b" by (rule set_mset_subset_singletonD)
  moreover obtain n where "size M = Suc n" using assms(2) by (cases "size M") simp_all
  ultimately have M: "M = replicate_mset (Suc n) b" by simp
  have idle: "filter_mset P M = {#}" using all assms(3) by (force simp: filter_mset_eq_mempty_iff)
  have "b \<in># M" by (simp add: M)
  moreover have "wg_agrees g 0 (Suc n) 0" using agrees assms(4) unfolding idle unfolding M by simp
  ultimately show False using wg_waiting_for all by blast
qed

end
