(* ===== verification/SessionManager.thy ===== *)
theory SessionManager
  imports IpcFrame GoChan GoSync "HOL-Library.Multiset"
begin

text \<open>
  \<^verbatim>\<open>src/ipc/session_manager.go\<close>: the sessions of local applications. A pointer to a
  \<^verbatim>\<open>SessionState\<close> is an index into \<open>heap\<close>. The code runs many goroutines (a reader
  and a writer per session, callers of the exported methods); each goroutine is a \<open>thread\<close>
  and \<open>exec\<close> runs it for one critical section or one blocking operation, which is the
  granularity at which the locks, the channel and the connection let goroutines interleave. The
  relation \<open>step\<close> lets any thread move and any client or caller act; \<open>map_order\<close> is the
  unspecified order in which \<^verbatim>\<open>Close\<close> iterates over the session map.
\<close>

section \<open>Data\<close>

definition sessionQueueSize :: nat where
  "sessionQueueSize = 1024"

record outboundPacket =
  pkt_opcode :: uint16
  pkt_statusCode :: uint16
  pkt_data :: bytes

text \<open>
  A session. The last two fields are histories, read by no operation: the packets
  \<^verbatim>\<open>SendToLocal\<close> has accepted and the bytes the writer has put on the connection.
\<close>

record SessionState =
  sess_DID :: DID
  sess_Conn :: nat
  outbound :: "outboundPacket chan"
  isClosed :: bool
  closeOnce :: bool
  accepted :: "outboundPacket list"
  sent :: bytes

text \<open>A connection: what has arrived, what was sent, whether this side has closed it and whether
  closing it reports an error.\<close>

record conn =
  conn_in :: stream
  conn_out :: sink
  conn_open :: bool
  conn_close_err :: bool

text \<open>
  The manager with the heap and the connections its goroutines share. \<open>onClose\<close> and
  \<open>onControl\<close> say whether a callback is set; \<open>closeLog\<close> and \<open>ctrlLog\<close> record
  their calls, the former with the session it was for.
\<close>

record SessionManager =
  sessions :: "DID \<rightharpoonup> nat"
  nextDID :: uint32
  ctx_done :: bool
  wg :: WaitGroup
  onClose :: bool
  onControl :: bool
  heap :: "SessionState list"
  conns :: "nat \<Rightarrow> conn"
  closeLog :: "(nat \<times> DID) list"
  ctrlLog :: "(DID \<times> uint16 \<times> bytes) list"

datatype sm_error =
    NilConn
  | SessionNotFound DID
  | SessionClosed DID
  | ErrSessionBlocked
  | CloseFailed DID

definition NewSessionManager :: "bool \<Rightarrow> (nat \<Rightarrow> conn) \<Rightarrow> SessionManager" where
  "NewSessionManager parent_done cs =
     \<lparr>sessions = Map.empty, nextDID = 0, ctx_done = parent_done, wg = new_wg, onClose = False,
      onControl = False, heap = [], conns = cs, closeLog = [], ctrlLog = []\<rparr>"

definition upd_sess :: "nat \<Rightarrow> (SessionState \<Rightarrow> SessionState) \<Rightarrow> SessionManager \<Rightarrow> SessionManager" where
  "upd_sess p f m = m\<lparr>heap := (heap m)[p := f (heap m ! p)]\<rparr>"

definition upd_conn :: "nat \<Rightarrow> conn \<Rightarrow> SessionManager \<Rightarrow> SessionManager" where
  "upd_conn k cn m = m\<lparr>conns := (conns m)(k := cn)\<rparr>"

text \<open>\<^verbatim>\<open>Conn.Close\<close>: whether it reports an error, as it does on a closed connection.\<close>

definition conn_Close :: "conn \<Rightarrow> bool \<times> conn" where
  "conn_Close cn = (if conn_open cn then (conn_close_err cn, cn\<lparr>conn_open := False\<rparr>) else (True, cn))"

text \<open>The sending side as a write finds it: a closed connection takes nothing.\<close>

definition conn_sink :: "conn \<Rightarrow> sink" where
  "conn_sink cn = (if conn_open cn then conn_out cn else (conn_out cn)\<lparr>room := Some 0\<rparr>)"

section \<open>Threads\<close>

text \<open>On whose behalf a session is unregistered: the deferred call of a reader or a writer, after
  which \<^verbatim>\<open>wg.Done\<close> runs, or another caller.\<close>

datatype owner = Reader nat | Writer nat | External

datatype thread =
    RLoop nat
  | RRead nat
  | RCtrl nat uint16 bytes
  | WLoop nat
  | WWrite nat outboundPacket
  | Unreg DID owner
  | UnMark nat DID bool owner
  | UnConn nat DID bool owner
  | Finish owner
  | Release
  | Send DID outboundPacket
  | SendLocked nat DID outboundPacket
  | CloseCancel
  | CloseSwap
  | CloseConns "nat list"
  | CloseWait
  | CloseBlocked

section \<open>Exported operations\<close>

definition SetOnClose :: "bool \<Rightarrow> SessionManager \<Rightarrow> SessionManager" where
  "SetOnClose callback m = m\<lparr>onClose := callback\<rparr>"

definition SetControlCallback :: "bool \<Rightarrow> SessionManager \<Rightarrow> SessionManager" where
  "SetControlCallback cb m = m\<lparr>onControl := cb\<rparr>"

text \<open>The result, the goroutines it starts and the new state.\<close>

definition RegisterSession ::
  "nat option \<Rightarrow> SessionManager \<Rightarrow> ((sm_error + DID) \<times> thread list \<times> SessionManager) go" where
  "RegisterSession cn m =
     (case cn of
        None \<Rightarrow> Ret (Inl NilConn, [], m)
      | Some k \<Rightarrow>
          (let did = nextDID m + 1;
               sess = \<lparr>sess_DID = did, sess_Conn = k, outbound = make_chan sessionQueueSize,
                       isClosed = False, closeOnce = False, accepted = [], sent = []\<rparr>;
               p = length (heap m)
           in case wg_Add 2 (wg m) of
                Panic x \<Rightarrow> Panic x
              | Ret g \<Rightarrow>
                  Ret (Inr did, [RLoop p, WLoop p],
                    m\<lparr>nextDID := did, heap := heap m @ [sess], sessions := (sessions m)(did \<mapsto> p),
                      wg := g\<rparr>)))"

text \<open>
  \<^verbatim>\<open>UnregisterSession\<close> in its three atomic parts: taking the session out of the map, the
  section under \<^verbatim>\<open>writeMu\<close> inside \<^verbatim>\<open>closeOnce.Do\<close>, and closing the connection and
  calling back.
\<close>

definition unreg_remove :: "DID \<Rightarrow> SessionManager \<Rightarrow> (nat \<times> bool \<times> SessionManager) option" where
  "unreg_remove did m =
     (case sessions m did of
        None \<Rightarrow> None
      | Some p \<Rightarrow> Some (p, onClose m, m\<lparr>sessions := (sessions m)(did := None)\<rparr>))"

definition unreg_mark :: "nat \<Rightarrow> SessionManager \<Rightarrow> SessionManager go" where
  "unreg_mark p m =
     (let sess = heap m ! p in
      if isClosed sess then Ret (upd_sess p (\<lambda>s. s\<lparr>closeOnce := True\<rparr>) m)
      else case close_chan (outbound sess) of
             Panic x \<Rightarrow> Panic x
           | Ret ch \<Rightarrow> Ret (upd_sess p (\<lambda>s. s\<lparr>closeOnce := True, isClosed := True, outbound := ch\<rparr>) m))"

definition unreg_conn :: "nat \<Rightarrow> DID \<Rightarrow> bool \<Rightarrow> SessionManager \<Rightarrow> sm_error option \<times> SessionManager" where
  "unreg_conn p did callback m =
     (let k = sess_Conn (heap m ! p); (err, cn) = conn_Close (conns m k); m1 = upd_conn k cn m
      in (if err then Some (CloseFailed did) else None,
          if callback then m1\<lparr>closeLog := closeLog m1 @ [(p, did)]\<rparr> else m1))"

definition UnregisterSession :: "DID \<Rightarrow> SessionManager \<Rightarrow> (sm_error option \<times> SessionManager) go" where
  "UnregisterSession did m =
     (case unreg_remove did m of
        None \<Rightarrow> Ret (Some (SessionNotFound did), m)
      | Some (p, callback, m1) \<Rightarrow>
          if closeOnce (heap m1 ! p) then Ret (None, m1)
          else (case unreg_mark p m1 of
                  Panic x \<Rightarrow> Panic x
                | Ret m2 \<Rightarrow> Ret (unreg_conn p did callback m2)))"

text \<open>The part of \<^verbatim>\<open>SendToLocal\<close> under \<^verbatim>\<open>writeMu\<close>; its goroutines are those it starts.\<close>

definition send_locked ::
  "nat \<Rightarrow> DID \<Rightarrow> outboundPacket \<Rightarrow> SessionManager \<Rightarrow> (sm_error option \<times> thread list \<times> SessionManager) go" where
  "send_locked p did pkt m =
     (let sess = heap m ! p in
      if isClosed sess then Ret (Some (SessionClosed did), [], m)
      else case try_send pkt (outbound sess) of
             Panic x \<Rightarrow> Panic x
           | Ret (True, ch) \<Rightarrow>
               Ret (None, [], upd_sess p (\<lambda>s. s\<lparr>outbound := ch, accepted := accepted s @ [pkt]\<rparr>) m)
           | Ret (False, _) \<Rightarrow>
               (case close_chan (outbound sess) of
                  Panic x \<Rightarrow> Panic x
                | Ret ch \<Rightarrow>
                    Ret (Some ErrSessionBlocked, [Unreg did External],
                         upd_sess p (\<lambda>s. s\<lparr>isClosed := True, outbound := ch\<rparr>) m)))"

definition SendToLocal ::
  "DID \<Rightarrow> uint16 \<Rightarrow> uint16 \<Rightarrow> bytes \<Rightarrow> SessionManager \<Rightarrow>
   (sm_error option \<times> thread list \<times> SessionManager) go" where
  "SendToLocal did opcode statusCode data m =
     (case sessions m did of
        None \<Rightarrow> Ret (Some (SessionNotFound did), [], m)
      | Some p \<Rightarrow>
          send_locked p did \<lparr>pkt_opcode = opcode, pkt_statusCode = statusCode, pkt_data = data\<rparr> m)"

text \<open>The parts of \<^verbatim>\<open>Close\<close>: the sessions it takes over, and closing one connection.\<close>

definition active_sessions :: "SessionManager \<Rightarrow> nat list" where
  "active_sessions m = filter (\<lambda>p. sessions m (sess_DID (heap m ! p)) = Some p) [0..<length (heap m)]"

definition close_conn_of :: "nat \<Rightarrow> SessionManager \<Rightarrow> SessionManager" where
  "close_conn_of p m =
     (let k = sess_Conn (heap m ! p) in upd_conn k (snd (conn_Close (conns m k))) m)"

section \<open>Goroutines\<close>

definition after_unregister :: "owner \<Rightarrow> thread list" where
  "after_unregister ow = (if ow = External then [] else [Finish ow])"

text \<open>
  One step of a thread: \<open>None\<close> when it is blocked, otherwise the threads it becomes or starts
  and the new state. The flag resolves the choice of \<^verbatim>\<open>select\<close> when both the cancelled
  context and the queue are ready.
\<close>

fun exec :: "bool \<Rightarrow> thread \<Rightarrow> SessionManager \<Rightarrow> (thread list \<times> SessionManager) go option" where
  "exec c (RLoop p) m =
     Some (Ret ([if ctx_done m then Unreg (sess_DID (heap m ! p)) (Reader p) else RRead p], m))"
| "exec c (RRead p) m =
     (let k = sess_Conn (heap m ! p); cn = conns m k; quit = Unreg (sess_DID (heap m ! p)) (Reader p)
      in if \<not> conn_open cn then Some (Ret ([quit], m))
         else case readPacket (conn_in cn) of
                (Blocked, _) \<Rightarrow> None
              | (Failed e, st) \<Rightarrow> Some (Ret ([quit], upd_conn k (cn\<lparr>conn_in := st\<rparr>) m))
              | (Done (opcode, payload), st) \<Rightarrow>
                  Some (Ret ([RCtrl p opcode payload], upd_conn k (cn\<lparr>conn_in := st\<rparr>) m)))"
| "exec c (RCtrl p opcode payload) m =
     Some (Ret ([RLoop p],
       if onControl m then m\<lparr>ctrlLog := ctrlLog m @ [(sess_DID (heap m ! p), opcode, payload)]\<rparr> else m))"
| "exec c (WLoop p) m =
     (let quit = Some (Ret ([Unreg (sess_DID (heap m ! p)) (Writer p)], m))
      in case chan_recv (outbound (heap m ! p)) of
           None \<Rightarrow> if ctx_done m then quit else None
         | Some (None, _) \<Rightarrow> quit
         | Some (Some pkt, ch) \<Rightarrow>
             if ctx_done m \<and> c then quit
             else Some (Ret ([WWrite p pkt], upd_sess p (\<lambda>s. s\<lparr>outbound := ch\<rparr>) m)))"
| "exec c (WWrite p pkt) m =
     (let k = sess_Conn (heap m ! p); cn = conns m k; w = conn_sink cn;
          (err, w') = writePacket (pkt_opcode pkt) (pkt_statusCode pkt) (pkt_data pkt) w;
          m' = upd_conn k (cn\<lparr>conn_out := w'\<rparr>)
                 (upd_sess p (\<lambda>s. s\<lparr>sent := sent s @ drop (length (taken w)) (taken w')\<rparr>) m)
      in Some (Ret ([if err = None then WLoop p else Unreg (sess_DID (heap m ! p)) (Writer p)], m')))"
| "exec c (Unreg did ow) m =
     (case unreg_remove did m of
        None \<Rightarrow> Some (Ret (after_unregister ow, m))
      | Some (p, callback, m') \<Rightarrow> Some (Ret ([UnMark p did callback ow], m')))"
| "exec c (UnMark p did callback ow) m =
     (if closeOnce (heap m ! p) then Some (Ret (after_unregister ow, m))
      else case unreg_mark p m of
             Panic x \<Rightarrow> Some (Panic x)
           | Ret m' \<Rightarrow> Some (Ret ([UnConn p did callback ow], m')))"
| "exec c (UnConn p did callback ow) m =
     Some (Ret (after_unregister ow, snd (unreg_conn p did callback m)))"
| "exec c (Finish ow) m =
     (case wg_Done (wg m) of
        Panic x \<Rightarrow> Some (Panic x)
      | Ret (final, g) \<Rightarrow> Some (Ret (if final then [Release] else [], m\<lparr>wg := g\<rparr>)))"
| "exec c Release m =
     (case wg_release (wg m) of
        Panic x \<Rightarrow> Some (Panic x)
      | Ret g \<Rightarrow> Some (Ret ([], m\<lparr>wg := g\<rparr>)))"
| "exec c (Send did pkt) m =
     (case sessions m did of
        None \<Rightarrow> Some (Ret ([], m))
      | Some p \<Rightarrow> Some (Ret ([SendLocked p did pkt], m)))"
| "exec c (SendLocked p did pkt) m =
     (case send_locked p did pkt m of
        Panic x \<Rightarrow> Some (Panic x)
      | Ret (err, ts, m') \<Rightarrow> Some (Ret (ts, m')))"
| "exec c CloseCancel m = Some (Ret ([CloseSwap], m\<lparr>ctx_done := True\<rparr>))"
| "exec c CloseSwap m = Some (Ret ([CloseConns (active_sessions m)], m\<lparr>sessions := Map.empty\<rparr>))"
| "exec c (CloseConns []) m = Some (Ret ([CloseWait], m))"
| "exec c (CloseConns (p # ps)) m = Some (Ret ([CloseConns ps], close_conn_of p m))"
| "exec c CloseWait m =
     (case wg_Wait (wg m) of (idle, g) \<Rightarrow> Some (Ret (if idle then [] else [CloseBlocked], m\<lparr>wg := g\<rparr>)))"
| "exec c CloseBlocked m =
     (case wg_woken (wg m) of
        None \<Rightarrow> None
      | Some (Panic x) \<Rightarrow> Some (Panic x)
      | Some (Ret g) \<Rightarrow> Some (Ret ([], m\<lparr>wg := g\<rparr>)))"

section \<open>The running daemon\<close>

text \<open>The state with its goroutines; \<open>closing\<close> records that \<^verbatim>\<open>Close\<close> was called and
  \<open>crashed\<close> the panic that ended the process.\<close>

record system =
  mgr :: SessionManager
  threads :: "thread multiset"
  closing :: bool
  crashed :: "panic option"

text \<open>What the far side and the clock may do to a connection: more bytes arrive, the stream ends,
  the room for writes changes.\<close>

definition conn_env :: "conn \<Rightarrow> conn \<Rightarrow> bool" where
  "conn_env cn cn' \<longleftrightarrow> conn_open cn' = conn_open cn \<and> taken (conn_out cn') = taken (conn_out cn)
     \<and> conn_close_err cn' = conn_close_err cn
     \<and> prefix (pending (conn_in cn)) (pending (conn_in cn'))"

text \<open>
  One move of the process. The contract of a wait group wants no registration to race with
  \<^verbatim>\<open>Close\<close>: with \<open>orderly\<close> set, no session is registered once \<^verbatim>\<open>Close\<close> was
  called.
\<close>

inductive step :: "bool \<Rightarrow> system \<Rightarrow> system \<Rightarrow> bool" for orderly :: bool where
  run: "threads s = add_mset t M \<Longrightarrow> exec c t (mgr s) = Some (Ret (ts, m')) \<Longrightarrow>
     step orderly s (s\<lparr>mgr := m', threads := mset ts + M\<rparr>)"
| map_order: "threads s = add_mset (CloseConns ps) M \<Longrightarrow> mset qs = mset ps \<Longrightarrow>
     step orderly s (s\<lparr>threads := add_mset (CloseConns qs) M\<rparr>)"
| crash: "t \<in># threads s \<Longrightarrow> exec c t (mgr s) = Some (Panic x) \<Longrightarrow> step orderly s (s\<lparr>crashed := Some x\<rparr>)"
| register: "(orderly \<Longrightarrow> \<not> closing s) \<Longrightarrow> RegisterSession (Some k) (mgr s) = Ret (r, ts, m') \<Longrightarrow>
     step orderly s (s\<lparr>mgr := m', threads := mset ts + threads s\<rparr>)"
| register_crash: "(orderly \<Longrightarrow> \<not> closing s) \<Longrightarrow> RegisterSession (Some k) (mgr s) = Panic x \<Longrightarrow>
     step orderly s (s\<lparr>crashed := Some x\<rparr>)"
| call_send: "step orderly s (s\<lparr>threads := add_mset (Send did pkt) (threads s)\<rparr>)"
| call_unregister: "step orderly s (s\<lparr>threads := add_mset (Unreg did External) (threads s)\<rparr>)"
| call_close: "step orderly s (s\<lparr>threads := add_mset CloseCancel (threads s), closing := True\<rparr>)"
| call_set_on_close: "step orderly s (s\<lparr>mgr := SetOnClose b (mgr s)\<rparr>)"
| call_set_control: "step orderly s (s\<lparr>mgr := SetControlCallback b (mgr s)\<rparr>)"
| parent_cancelled: "step orderly s (s\<lparr>mgr := (mgr s)\<lparr>ctx_done := True\<rparr>\<rparr>)"
| far_side: "conn_env (conns (mgr s) k) cn \<Longrightarrow> step orderly s (s\<lparr>mgr := upd_conn k cn (mgr s)\<rparr>)"

definition start :: "bool \<Rightarrow> (nat \<Rightarrow> conn) \<Rightarrow> system" where
  "start parent_done cs =
     \<lparr>mgr = NewSessionManager parent_done cs, threads = {#}, closing = False, crashed = None\<rparr>"

text \<open>The reachable states of a process that has not panicked before.\<close>

inductive reachable :: "bool \<Rightarrow> system \<Rightarrow> bool" for orderly :: bool where
  init: "reachable orderly (start parent_done cs)"
| later: "reachable orderly s \<Longrightarrow> crashed s = None \<Longrightarrow> step orderly s s' \<Longrightarrow> reachable orderly s'"

end
