(* ===== verification/SessionSafety.thy ===== *)
theory SessionSafety
  imports SessionManager
begin

text \<open>
  Safety of the session manager under every interleaving: no panic, the bound on the outbound
  queues, consistency of the session map, the wait group, the once-only close and the order of the
  bytes on each connection. Each conjunct of the invariant is kept by \<open>exec\<close> (one lemma per
  conjunct) and by the other rules of \<open>step\<close>.
\<close>

section \<open>Frame of a step\<close>

lemma heap_upd_sess [simp]: "heap (upd_sess p f m) = (heap m)[p := f (heap m ! p)]"
  by (simp add: upd_sess_def)

lemma upd_sess_frame [simp]:
  "sessions (upd_sess p f m) = sessions m" "nextDID (upd_sess p f m) = nextDID m"
  "ctx_done (upd_sess p f m) = ctx_done m" "wg (upd_sess p f m) = wg m"
  "onClose (upd_sess p f m) = onClose m" "conns (upd_sess p f m) = conns m"
  "closeLog (upd_sess p f m) = closeLog m" "ctrlLog (upd_sess p f m) = ctrlLog m"
  by (simp_all add: upd_sess_def)

lemma upd_conn_frame [simp]:
  "sessions (upd_conn k cn m) = sessions m" "nextDID (upd_conn k cn m) = nextDID m"
  "ctx_done (upd_conn k cn m) = ctx_done m" "wg (upd_conn k cn m) = wg m" "heap (upd_conn k cn m) = heap m"
  "onClose (upd_conn k cn m) = onClose m" "conns (upd_conn k cn m) = (conns m)(k := cn)"
  "closeLog (upd_conn k cn m) = closeLog m" "ctrlLog (upd_conn k cn m) = ctrlLog m"
  by (simp_all add: upd_conn_def)

lemma close_conn_of_frame [simp]:
  "sessions (close_conn_of p m) = sessions m" "nextDID (close_conn_of p m) = nextDID m"
  "wg (close_conn_of p m) = wg m" "heap (close_conn_of p m) = heap m"
  "closeLog (close_conn_of p m) = closeLog m" "ctx_done (close_conn_of p m) = ctx_done m"
  by (simp_all add: close_conn_of_def Let_def)

lemma unreg_conn_frame [simp]:
  "sessions (snd (unreg_conn p d cb m)) = sessions m" "nextDID (snd (unreg_conn p d cb m)) = nextDID m"
  "wg (snd (unreg_conn p d cb m)) = wg m" "heap (snd (unreg_conn p d cb m)) = heap m"
  "ctx_done (snd (unreg_conn p d cb m)) = ctx_done m"
  "closeLog (snd (unreg_conn p d cb m)) = closeLog m @ (if cb then [(p, d)] else [])"
  by (simp_all add: unreg_conn_def Let_def split: prod.splits)

text \<open>The cases of the operations that \<open>exec\<close> composes, for states in which they do not panic.\<close>

lemma unreg_remove_Some:
  "unreg_remove d m = Some (p, cb, m') \<longleftrightarrow>
     sessions m d = Some p \<and> cb = onClose m \<and> m' = m\<lparr>sessions := (sessions m)(d := None)\<rparr>"
  by (auto simp: unreg_remove_def split: option.splits)

lemma unreg_remove_None: "unreg_remove d m = None \<longleftrightarrow> sessions m d = None"
  by (auto simp: unreg_remove_def split: option.splits)

lemma unreg_mark_Ret:
  "unreg_mark p m = Ret m' \<Longrightarrow>
   \<exists>ch. m' = upd_sess p (\<lambda>s. s\<lparr>closeOnce := True, isClosed := True, outbound := ch\<rparr>) m
     \<and> (if isClosed (heap m ! p) then ch = outbound (heap m ! p)
        else ch = (outbound (heap m ! p))\<lparr>chan_closed := True\<rparr>)"
  by (cases "heap m ! p")
    (auto simp: unreg_mark_def Let_def close_chan_def upd_sess_def split: if_splits)

lemma send_locked_Ret:
  "send_locked p d pkt m = Ret (err, ts, m') \<Longrightarrow>
     err = Some (SessionClosed d) \<and> ts = [] \<and> m' = m \<and> isClosed (heap m ! p)
   \<or> err = None \<and> ts = [] \<and> \<not> isClosed (heap m ! p)
       \<and> length (chan_buf (outbound (heap m ! p))) < chan_cap (outbound (heap m ! p))
       \<and> m' = upd_sess p (\<lambda>s. s\<lparr>outbound := (outbound s)\<lparr>chan_buf := chan_buf (outbound s) @ [pkt]\<rparr>,
                                 accepted := accepted s @ [pkt]\<rparr>) m
   \<or> err = Some ErrSessionBlocked \<and> ts = [Unreg d External] \<and> \<not> isClosed (heap m ! p)
       \<and> m' = upd_sess p (\<lambda>s. s\<lparr>isClosed := True, outbound := (outbound s)\<lparr>chan_closed := True\<rparr>\<rparr>) m"
  by (auto simp: send_locked_def Let_def try_send_def close_chan_def upd_sess_def split: if_splits)

lemma nth_update_proj: "f y = f (xs ! p) \<Longrightarrow> f (xs[p := y] ! q) = f (xs ! q)"
  by (cases "p < length xs"; cases "p = q") (simp_all add: nth_list_update list_update_beyond)

lemmas nth_update_DID [simp] = nth_update_proj [where f = sess_DID]
  and nth_update_Conn [simp] = nth_update_proj [where f = sess_Conn]

lemmas exec_splits = if_splits option.splits prod.splits read_result.splits go.splits

lemmas exec_rets = unreg_mark_Ret send_locked_Ret

lemma exec_heap:
  assumes "exec c t m = Some (Ret (ts, m'))"
  shows "length (heap m') = length (heap m)
    \<and> sess_DID (heap m' ! q) = sess_DID (heap m ! q) \<and> sess_Conn (heap m' ! q) = sess_Conn (heap m ! q)"
  using assms
  by (cases "(c, t, m)" rule: exec.cases)
    (auto simp: Let_def unreg_remove_Some unreg_remove_None split: exec_splits dest!: exec_rets)

section \<open>Well-formed states\<close>

text \<open>A session: the queue is closed exactly when the session is marked closed, and never over its
  bound.\<close>

definition sess_ok :: "SessionState \<Rightarrow> bool" where
  "sess_ok s \<longleftrightarrow> chan_closed (outbound s) = isClosed s \<and> chan_cap (outbound s) = sessionQueueSize
     \<and> length (chan_buf (outbound s)) \<le> sessionQueueSize"

text \<open>The map points into the heap, at sessions with the right dispatch id.\<close>

definition map_ok :: "SessionManager \<Rightarrow> bool" where
  "map_ok m \<longleftrightarrow> (\<forall>d p. sessions m d = Some p \<longrightarrow> p < length (heap m) \<and> sess_DID (heap m ! p) = d)"

fun owner_of :: "thread \<Rightarrow> owner" where
  "owner_of (RLoop p) = Reader p"
| "owner_of (RRead p) = Reader p"
| "owner_of (RCtrl p _ _) = Reader p"
| "owner_of (WLoop p) = Writer p"
| "owner_of (WWrite p _) = Writer p"
| "owner_of (Unreg _ ow) = ow"
| "owner_of (UnMark _ _ _ ow) = ow"
| "owner_of (UnConn _ _ _ ow) = ow"
| "owner_of (Finish ow) = ow"
| "owner_of _ = External"

definition owned :: "thread \<Rightarrow> bool" where
  "owned t \<longleftrightarrow> owner_of t \<noteq> External"

text \<open>A thread's pointers are in the heap; the deferred call of a loop is for its own session.\<close>

fun ptrs :: "thread \<Rightarrow> nat set" where
  "ptrs (UnMark p _ _ _) = {p}"
| "ptrs (UnConn p _ _ _) = {p}"
| "ptrs (SendLocked p _ _) = {p}"
| "ptrs (CloseConns ps) = set ps"
| "ptrs _ = {}"

definition owner_ptr :: "owner \<Rightarrow> nat set" where
  "owner_ptr ow = (case ow of Reader p \<Rightarrow> {p} | Writer p \<Rightarrow> {p} | External \<Rightarrow> {})"

definition thread_ok :: "SessionManager \<Rightarrow> thread \<Rightarrow> bool" where
  "thread_ok m t \<longleftrightarrow> (\<forall>p \<in> ptrs t \<union> owner_ptr (owner_of t). p < length (heap m))
     \<and> (case t of Finish ow \<Rightarrow> ow \<noteq> External
        | Unreg d ow \<Rightarrow> (\<forall>p \<in> owner_ptr ow. d = sess_DID (heap m ! p))
        | UnMark p d cb ow \<Rightarrow> d = sess_DID (heap m ! p) | UnConn p d cb ow \<Rightarrow> d = sess_DID (heap m ! p)
        | SendLocked p d pkt \<Rightarrow> d = sess_DID (heap m ! p) | _ \<Rightarrow> True)"

lemma owner_ptr_simps [simp]:
  "owner_ptr (Reader p) = {p}" "owner_ptr (Writer p) = {p}" "owner_ptr External = {}"
  by (simp_all add: owner_ptr_def)

lemma list_all_update:
  "list_all P xs \<Longrightarrow> (p < length xs \<Longrightarrow> P (xs ! p) \<Longrightarrow> P y) \<Longrightarrow> list_all P (xs[p := y])"
  by (cases "p < length xs") (auto simp: list_all_length nth_list_update list_update_beyond)

lemma list_all_heapD: "list_all P (heap m) \<Longrightarrow> p < length (heap m) \<Longrightarrow> P (heap m ! p)"
  by (simp add: list_all_length)

lemma sess_okD:
  assumes "list_all sess_ok (heap m)" "p < length (heap m)"
  shows "chan_closed (outbound (heap m ! p)) = isClosed (heap m ! p)"
    "chan_cap (outbound (heap m ! p)) = sessionQueueSize"
    "length (chan_buf (outbound (heap m ! p))) \<le> sessionQueueSize"
  using list_all_heapD [OF assms] by (simp_all add: sess_ok_def)

section \<open>One step of a thread\<close>

lemma exec_panic:
  assumes "list_all sess_ok (heap m)" "thread_ok m t"
    and wg: "wg_agrees (wg m) (k + of_bool (owned t)) b (r + of_bool (t = Release))"
    and ex: "exec c t m = Some (Panic x)"
  shows "t = CloseBlocked \<and> wg_woken (wg m) = Some (Panic x)"
proof (cases t)
  case (SendLocked p d pkt)
  with assms(2) have "p < length (heap m)" by (simp add: thread_ok_def)
  from sess_okD [OF assms(1) this] SendLocked ex show ?thesis
    by (auto simp: send_locked_def Let_def try_send_def close_chan_def split: go.splits if_splits)
next
  case (UnMark p d cb ow)
  with assms(2) have "p < length (heap m)" by (simp add: thread_ok_def)
  from sess_okD [OF assms(1) this] UnMark ex show ?thesis
    by (auto simp: unreg_mark_def Let_def close_chan_def split: go.splits if_splits)
next
  case (CloseConns ps)
  with ex show ?thesis by (cases ps) auto
next
  case (Finish ow)
  with wg ex assms(2) show ?thesis
    by (auto simp: thread_ok_def owned_def dest: wg_Done_counted split: go.splits prod.splits)
next
  case Release
  with wg ex show ?thesis by (auto dest: wg_release_due split: go.splits)
qed (use ex in \<open>auto simp: Let_def unreg_remove_Some split: exec_splits\<close>)

lemma exec_sess_ok:
  assumes "exec c t m = Some (Ret (ts, m'))" "list_all sess_ok (heap m)" "thread_ok m t"
  shows "list_all sess_ok (heap m')"
  using assms
  by (cases "(c, t, m)" rule: exec.cases)
    (auto simp: Let_def unreg_remove_Some unreg_remove_None thread_ok_def sess_ok_def chan_recv_def
      intro!: list_all_update split: exec_splits list.splits dest!: exec_rets)

lemma filter_owned_after [simp]: "filter owned (after_unregister ow) = after_unregister ow"
  by (simp add: after_unregister_def owned_def)

lemma exec_wg:
  assumes "exec c t m = Some (Ret (ts, m'))" "thread_ok m t"
    and wg: "wg_agrees (wg m) (k + of_bool (owned t)) (b + of_bool (t = CloseBlocked)) (r + of_bool (t = Release))"
  shows "wg_agrees (wg m') (k + length (filter owned ts)) (b + count (mset ts) CloseBlocked)
           (r + count (mset ts) Release)"
proof (cases "t = Release \<or> t = CloseWait \<or> t = CloseBlocked \<or> (\<exists>ow. t = Finish ow)")
  case True
  with assms show ?thesis
    by (auto simp: owned_def thread_ok_def split: go.splits option.splits prod.splits if_splits)
      (erule (1) wg_agrees_intros)+
next
  case False
  with assms(1) have "wg m' = wg m \<and> length (filter owned ts) = of_bool (owned t)
      \<and> count (mset ts) CloseBlocked = 0 \<and> count (mset ts) Release = 0"
    by (cases "(c, t, m)" rule: exec.cases)
      (auto simp: Let_def unreg_remove_Some unreg_remove_None owned_def after_unregister_def
        split: exec_splits dest!: exec_rets)
  with wg False show ?thesis by (simp add: count_mset_0)
qed

lemma exec_map_ok:
  assumes "exec c t m = Some (Ret (ts, m'))" "map_ok m"
  shows "map_ok m'"
proof -
  have "sessions m' \<subseteq>\<^sub>m sessions m"
    using assms(1)
    by (cases "(c, t, m)" rule: exec.cases)
      (auto simp: Let_def unreg_remove_Some unreg_remove_None map_le_def
        split: exec_splits dest!: exec_rets)
  then show ?thesis
    using assms(2) exec_heap [OF assms(1)] by (force simp: map_ok_def map_le_def dom_def)
qed

lemma active_sessions_bound: "p \<in> set (active_sessions m) \<Longrightarrow> p < length (heap m)"
  by (simp add: active_sessions_def)

lemma exec_threads_ok:
  assumes "exec c t m = Some (Ret (ts, m'))" "thread_ok m t" "map_ok m"
  shows "list_all (thread_ok m') ts"
  using assms
  by (cases "(c, t, m)" rule: exec.cases)
    (auto simp: Let_def unreg_remove_Some unreg_remove_None thread_ok_def after_unregister_def map_ok_def
      owner_ptr_def split: exec_splits owner.splits dest!: exec_rets dest: active_sessions_bound)

lemma thread_ok_mono:
  assumes "thread_ok m t" "length (heap m) \<le> length (heap m')"
    and "\<And>p. p < length (heap m) \<Longrightarrow> sess_DID (heap m' ! p) = sess_DID (heap m ! p)"
  shows "thread_ok m' t"
  using assms by (cases t) (fastforce simp: thread_ok_def owner_ptr_def split: owner.splits)+

section \<open>The base invariant\<close>

definition base_inv :: "system \<Rightarrow> bool" where
  "base_inv s \<longleftrightarrow> list_all sess_ok (heap (mgr s)) \<and> map_ok (mgr s)
     \<and> (\<forall>t \<in># threads s. thread_ok (mgr s) t)
     \<and> wg_agrees (wg (mgr s)) (size (filter_mset owned (threads s))) (count (threads s) CloseBlocked)
         (count (threads s) Release)
     \<and> (\<forall>(p, d) \<in> set (closeLog (mgr s)). p < length (heap (mgr s)) \<and> d = sess_DID (heap (mgr s) ! p))"

lemma exec_closeLog:
  assumes "exec c t m = Some (Ret (ts, m'))"
  shows "closeLog m' = closeLog m @ (case t of UnConn p d cb ow \<Rightarrow> if cb then [(p, d)] else [] | _ \<Rightarrow> [])"
  using assms
  by (cases "(c, t, m)" rule: exec.cases)
    (auto simp: Let_def unreg_remove_Some unreg_remove_None split: exec_splits dest!: exec_rets)

lemma base_inv_wg:
  assumes "base_inv s" "threads s = add_mset t M"
  shows "wg_agrees (wg (mgr s)) (size (filter_mset owned M) + of_bool (owned t))
    (count M CloseBlocked + of_bool (t = CloseBlocked)) (count M Release + of_bool (t = Release))"
  using assms by (auto simp: base_inv_def)

lemma run_base_inv:
  assumes inv: "base_inv s" and t: "threads s = add_mset t M"
    and ex: "exec c t (mgr s) = Some (Ret (ts, m'))"
  shows "base_inv (s\<lparr>mgr := m', threads := mset ts + M\<rparr>)"
proof -
  have ok: "thread_ok (mgr s) t" "list_all sess_ok (heap (mgr s))" "map_ok (mgr s)"
    using inv t by (simp_all add: base_inv_def)
  have "thread_ok m' u" if "u \<in># M" for u
    by (rule thread_ok_mono [of "mgr s"]) (use inv t that exec_heap [OF ex] in \<open>auto simp: base_inv_def\<close>)
  moreover have "thread_ok m' u" if "u \<in> set ts" for u
    using exec_threads_ok [OF ex ok(1,3)] that by (simp add: list_all_iff)
  moreover have "wg_agrees (wg m') (size (filter_mset owned (mset ts + M)))
      (count (mset ts + M) CloseBlocked) (count (mset ts + M) Release)"
    using exec_wg [OF ex ok(1) base_inv_wg [OF inv t]] by (simp add: filter_mset_mset add.commute)
  moreover have "\<forall>(p, d) \<in> set (closeLog m'). p < length (heap m') \<and> d = sess_DID (heap m' ! p)"
    using exec_closeLog [OF ex] exec_heap [OF ex] inv ok(1)
    by (cases t) (auto simp: base_inv_def thread_ok_def split: if_splits)
  ultimately show ?thesis
    using exec_sess_ok [OF ex ok(2,1)] exec_map_ok [OF ex ok(3)] inv by (auto simp: base_inv_def)
qed

lemma RegisterSession_Some:
  "RegisterSession (Some k) m = Ret (r, ts, m') \<longleftrightarrow>
     (\<exists>g. wg_Add 2 (wg m) = Ret g \<and> r = Inr (nextDID m + 1) \<and> ts = [RLoop (length (heap m)), WLoop (length (heap m))]
   \<and> m' = m\<lparr>nextDID := nextDID m + 1,
            heap := heap m @ [\<lparr>sess_DID = nextDID m + 1, sess_Conn = k, outbound = make_chan sessionQueueSize,
                       isClosed = False, closeOnce = False, accepted = [], sent = []\<rparr>],
            sessions := (sessions m)(nextDID m + 1 \<mapsto> length (heap m)), wg := g\<rparr>)"
  by (auto simp: RegisterSession_def Let_def split: go.splits)

lemma RegisterSession_Panic: "RegisterSession (Some k) m = Panic x \<longleftrightarrow> wg_Add 2 (wg m) = Panic x"
  by (auto simp: RegisterSession_def Let_def split: go.splits)

lemma register_base_inv:
  assumes inv: "base_inv s" and reg: "RegisterSession (Some k) (mgr s) = Ret (r, ts, m')"
  shows "base_inv (s\<lparr>mgr := m', threads := mset ts + threads s\<rparr>)"
proof -
  let ?m = "mgr s"
  have m': "length (heap m') = Suc (length (heap ?m))"
    "\<And>p. p < length (heap ?m) \<Longrightarrow> heap m' ! p = heap ?m ! p"
    using reg by (auto simp: RegisterSession_Some nth_append)
  have old: "thread_ok m' u" if "u \<in># threads s" for u
    by (rule thread_ok_mono [of ?m]) (use inv that m' in \<open>auto simp: base_inv_def\<close>)
  have "map_ok m'"
    using inv reg by (auto simp: base_inv_def map_ok_def RegisterSession_Some nth_append less_Suc_eq split: if_splits)
  moreover have "list_all sess_ok (heap m')"
    using inv reg by (auto simp: base_inv_def RegisterSession_Some sess_ok_def make_chan_def)
  moreover have "wg_agrees (wg m') (size (filter_mset owned (mset ts + threads s)))
      (count (mset ts + threads s) CloseBlocked) (count (mset ts + threads s) Release)"
    using inv reg by (auto simp: base_inv_def RegisterSession_Some owned_def dest: wg_agrees_Add)
  moreover have "\<forall>u \<in> set ts. thread_ok m' u"
    using reg m' by (auto simp: RegisterSession_Some thread_ok_def)
  moreover have "closeLog m' = closeLog ?m" using reg by (auto simp: RegisterSession_Some)
  then have "\<forall>(p, d) \<in> set (closeLog m'). p < length (heap m') \<and> d = sess_DID (heap m' ! p)"
    using inv m' by (auto simp: base_inv_def)
  ultimately show ?thesis using inv old by (auto simp: base_inv_def)
qed

lemma thread_ok_same_heap: "heap m' = heap m \<Longrightarrow> thread_ok m' t = thread_ok m t"
  by (cases t) (simp_all add: thread_ok_def)

lemma base_inv_frame:
  assumes "base_inv s" "heap m' = heap (mgr s)" "sessions m' = sessions (mgr s)" "wg m' = wg (mgr s)"
    "closeLog m' = closeLog (mgr s)"
  shows "base_inv (s\<lparr>mgr := m'\<rparr>)"
  using assms thread_ok_same_heap [OF assms(2)] by (simp add: base_inv_def map_ok_def)

lemma base_inv_call:
  "base_inv s \<Longrightarrow> thread_ok (mgr s) t \<Longrightarrow> \<not> owned t \<Longrightarrow> t \<noteq> CloseBlocked \<Longrightarrow> t \<noteq> Release \<Longrightarrow> base_inv (s\<lparr>threads := add_mset t (threads s)\<rparr>)"
  by (simp add: base_inv_def)

lemma base_inv_system [simp]:
  "base_inv (s\<lparr>crashed := x\<rparr>) = base_inv s" "base_inv (s\<lparr>closing := b\<rparr>) = base_inv s"
  by (simp_all add: base_inv_def)

lemma step_base_inv: "step orderly s s' \<Longrightarrow> base_inv s \<Longrightarrow> base_inv s'"
proof (induction rule: step.induct)
  case (run s t M c ts m')
  then show ?case by (simp add: run_base_inv)
next
  case (map_order s ps M qs)
  then have "set qs = set ps" by (metis mset_eq_setD)
  with map_order show ?case by (simp add: base_inv_def owned_def thread_ok_def)
next
  case (register s k r ts m')
  then show ?case by (simp add: register_base_inv)
next
  case (call_close s)
  then have "base_inv (s\<lparr>threads := add_mset CloseCancel (threads s)\<rparr>)"
    by (intro base_inv_call) (simp_all add: thread_ok_def owned_def)
  then show ?case by (simp add: base_inv_def)
qed (auto simp: owned_def thread_ok_def SetOnClose_def SetControlCallback_def intro!: base_inv_frame base_inv_call)

lemma reachable_base_inv: "reachable orderly s \<Longrightarrow> base_inv s"
proof (induction rule: reachable.induct)
  case (init parent_done cs)
  show ?case by (simp add: start_def NewSessionManager_def base_inv_def map_ok_def)
next
  case (later s s')
  then show ?case by (blast intro: step_base_inv)
qed

section \<open>Panics\<close>

fun closes :: "thread \<Rightarrow> bool" where
  "closes CloseCancel = True"
| "closes CloseSwap = True"
| "closes (CloseConns _) = True"
| "closes CloseWait = True"
| "closes CloseBlocked = True"
| "closes _ = False"

text \<open>Once wake-ups are handed out the wait group stays at rest, if no session is registered any
  more.\<close>

definition rest_inv :: "bool \<Rightarrow> system \<Rightarrow> bool" where
  "rest_inv orderly s \<longleftrightarrow> ((\<exists>t \<in># threads s. closes t) \<longrightarrow> closing s)
     \<and> (wg_waiters (wg (mgr s)) \<noteq> 0 \<longrightarrow> closing s) \<and> (wg_sema (wg (mgr s)) \<noteq> 0 \<longrightarrow> closing s)
     \<and> (orderly \<longrightarrow> wg_sema (wg (mgr s)) \<noteq> 0 \<longrightarrow> wg_count (wg (mgr s)) = 0 \<and> wg_waiters (wg (mgr s)) = 0)
     \<and> (crashed s = None \<or> crashed s = Some WaitGroupMisuse \<and> \<not> orderly)"

lemma exec_closes:
  assumes "exec c t m = Some (Ret (ts, m'))" "u \<in> set ts" "closes u"
  shows "closes t"
  using assms
  by (cases "(c, t, m)" rule: exec.cases)
    (auto simp: Let_def unreg_remove_Some unreg_remove_None after_unregister_def split: exec_splits dest!: exec_rets)

lemma exec_rest:
  assumes "exec c t m = Some (Ret (ts, m'))"
  shows "wg_waiters (wg m') \<noteq> 0 \<Longrightarrow> wg_waiters (wg m) \<noteq> 0 \<or> closes t"
    and "wg_sema (wg m') \<noteq> 0 \<Longrightarrow> wg_sema (wg m) \<noteq> 0 \<or> wg_waiters (wg m) \<noteq> 0"
    and "wg_sema (wg m') \<noteq> 0 \<Longrightarrow> wg_sema (wg m) \<noteq> 0 \<Longrightarrow> wg_count (wg m) = 0 \<Longrightarrow> wg_waiters (wg m) = 0 \<Longrightarrow>
      wg_count (wg m') = 0 \<and> wg_waiters (wg m') = 0"
    and "wg_sema (wg m') \<noteq> 0 \<Longrightarrow> wg_sema (wg m) = 0 \<Longrightarrow> wg_count (wg m') = 0 \<and> wg_waiters (wg m') = 0"
  using assms
  by (cases "(c, t, m)" rule: exec.cases; auto simp: Let_def unreg_remove_Some unreg_remove_None wg_Done_def
      wg_release_def wg_Wait_def wg_woken_def split: exec_splits dest!: exec_rets)+

lemma run_rest_inv:
  assumes inv: "rest_inv orderly s" and t: "threads s = add_mset t M"
    and ex: "exec c t (mgr s) = Some (Ret (ts, m'))"
  shows "rest_inv orderly (s\<lparr>mgr := m', threads := mset ts + M\<rparr>)"
proof -
  have "(\<exists>u \<in># mset ts + M. closes u) \<longrightarrow> closing s"
    using inv t exec_closes [OF ex] by (auto simp: rest_inv_def)
  moreover have "wg_waiters (wg m') \<noteq> 0 \<longrightarrow> closing s" "wg_sema (wg m') \<noteq> 0 \<longrightarrow> closing s"
    using inv t exec_rest(1,2) [OF ex] by (auto simp: rest_inv_def)
  moreover have "orderly \<longrightarrow> wg_sema (wg m') \<noteq> 0 \<longrightarrow> wg_count (wg m') = 0 \<and> wg_waiters (wg m') = 0"
    using inv exec_rest(3,4) [OF ex] by (auto simp: rest_inv_def)
  ultimately show ?thesis using inv by (simp add: rest_inv_def)
qed

lemma rest_inv_frame: "rest_inv orderly s \<Longrightarrow> wg m' = wg (mgr s) \<Longrightarrow> rest_inv orderly (s\<lparr>mgr := m'\<rparr>)"
  by (simp add: rest_inv_def)

lemma step_rest_inv: "step orderly s s' \<Longrightarrow> base_inv s \<Longrightarrow> rest_inv orderly s \<Longrightarrow> rest_inv orderly s'"
proof (induction rule: step.induct)
  case (run s t M c ts m')
  then show ?case by (simp add: run_rest_inv)
next
  case (crash t s c x)
  then obtain M where M: "threads s = add_mset t M" by (blast dest: multi_member_split)
  have "t = CloseBlocked \<and> wg_woken (wg (mgr s)) = Some (Panic x)"
    by (rule exec_panic [OF _ _ base_inv_wg [OF crash.prems(1) M] crash.hyps(2)])
      (use crash in \<open>simp_all add: base_inv_def\<close>)
  with crash.prems(2) show ?case by (auto simp: rest_inv_def wg_woken_def split: if_splits)
next
  case (register s k r ts m')
  then have "wg_waiters (wg m') = wg_waiters (wg (mgr s))" "wg_sema (wg m') = wg_sema (wg (mgr s))"
    "\<forall>t \<in> set ts. \<not> closes t"
    by (auto simp: RegisterSession_Some wg_Add_def split: if_splits)
  with register.hyps(1) register.prems(2) show ?case by (auto simp: rest_inv_def)
next
  case (register_crash s k x)
  then have "x = WaitGroupMisuse" "wg_waiters (wg (mgr s)) \<noteq> 0"
    by (auto simp: RegisterSession_Panic wg_Add_def split: if_splits)
  with register_crash.hyps(1) register_crash.prems(2) show ?case by (auto simp: rest_inv_def)
next
  case (map_order s ps M qs)
  then show ?case by (simp add: rest_inv_def)
qed (simp_all add: rest_inv_def SetOnClose_def SetControlCallback_def)

lemma reachable_rest_inv: "reachable orderly s \<Longrightarrow> rest_inv orderly s"
proof (induction rule: reachable.induct)
  case (init parent_done cs)
  show ?case by (simp add: start_def NewSessionManager_def rest_inv_def new_wg_def)
next
  case (later s s')
  then show ?case by (blast intro: step_rest_inv reachable_base_inv)
qed

end
