(* ===== verification/SessionOnce.thy ===== *)
theory SessionOnce
  imports SessionSafety
begin

text \<open>
  The once-only close of a session: the map entry, the threads that took it out of the map and the
  finished close are tokens of which there is at most one per session.
\<close>

section \<open>Once-only close\<close>

definition in_map :: "SessionManager \<Rightarrow> nat \<Rightarrow> bool" where
  "in_map m p \<longleftrightarrow> sessions m (sess_DID (heap m ! p)) = Some p"

fun is_mark :: "nat \<Rightarrow> thread \<Rightarrow> bool" where
  "is_mark p (UnMark q _ _ _) = (q = p)"
| "is_mark p _ = False"

fun is_unconn :: "nat \<Rightarrow> thread \<Rightarrow> bool" where
  "is_unconn p (UnConn q _ _ _) = (q = p)"
| "is_unconn p _ = False"

text \<open>
  Who may still close session \<open>p\<close>: the map entry, a thread that took it out of the map, or
  nobody because it was closed. There is never more than one such token; likewise for the call of
  the callback.
\<close>

definition close_tokens :: "SessionManager \<Rightarrow> nat \<Rightarrow> nat" where
  "close_tokens m p = of_bool (in_map m p) + of_bool (closeOnce (heap m ! p))"

definition call_tokens :: "SessionManager \<Rightarrow> nat \<Rightarrow> nat" where
  "call_tokens m p = of_bool (\<not> closeOnce (heap m ! p)) + count_list (map fst (closeLog m)) p"

definition once_inv :: "system \<Rightarrow> bool" where
  "once_inv s \<longleftrightarrow> (\<forall>p < length (heap (mgr s)).
     close_tokens (mgr s) p + size (filter_mset (is_mark p) (threads s)) \<le> 1
   \<and> call_tokens (mgr s) p + size (filter_mset (is_unconn p) (threads s)) \<le> 1)"

lemma filter_after_unregister [simp]:
  "filter (is_mark p) (after_unregister ow) = []" "filter (is_unconn p) (after_unregister ow) = []"
  by (simp_all add: after_unregister_def)

lemma exec_closeOnce:
  assumes "exec c t m = Some (Ret (ts, m'))" "p < length (heap m)"
  shows "closeOnce (heap m' ! p) = (closeOnce (heap m ! p) \<or> is_mark p t)"
  using assms
  by (cases "(c, t, m)" rule: exec.cases)
    (auto simp: Let_def unreg_remove_Some unreg_remove_None nth_update_if
      split: exec_splits dest!: exec_rets)

lemma exec_marks:
  assumes "exec c t m = Some (Ret (ts, m'))"
  shows "length (filter (is_mark p) ts) = of_bool (\<exists>d ow. t = Unreg d ow \<and> sessions m d = Some p)"
  using assms
  by (cases "(c, t, m)" rule: exec.cases)
    (auto simp: Let_def unreg_remove_Some unreg_remove_None split: exec_splits dest!: exec_rets)

lemma exec_unconns:
  assumes "exec c t m = Some (Ret (ts, m'))"
  shows "length (filter (is_unconn p) ts) = of_bool (is_mark p t \<and> \<not> closeOnce (heap m ! p))"
  using assms
  by (cases "(c, t, m)" rule: exec.cases)
    (auto simp: Let_def unreg_remove_Some unreg_remove_None split: exec_splits dest!: exec_rets)

lemma exec_sessions:
  assumes "exec c t m = Some (Ret (ts, m'))"
  shows "sessions m' = (case t of Unreg d ow \<Rightarrow> (sessions m)(d := None) | CloseSwap \<Rightarrow> Map.empty | _ \<Rightarrow> sessions m)"
  using assms
  by (cases "(c, t, m)" rule: exec.cases)
    (auto simp: Let_def unreg_remove_Some unreg_remove_None fun_upd_idem_iff split: exec_splits dest!: exec_rets)

lemma exec_in_map:
  assumes "exec c t m = Some (Ret (ts, m'))" "in_map m' p"
  shows "in_map m p \<and> \<not> (\<exists>d ow. t = Unreg d ow \<and> d = sess_DID (heap m ! p))"
  using assms(2) exec_heap [OF assms(1), of p] exec_sessions [OF assms(1)]
  by (cases t) (auto simp: in_map_def split: if_splits)

lemma exec_close_tokens:
  assumes "exec c t m = Some (Ret (ts, m'))" "map_ok m" "p < length (heap m)"
  shows "close_tokens m' p + length (filter (is_mark p) ts) \<le> close_tokens m p + of_bool (is_mark p t)"
proof (cases "\<exists>d ow. t = Unreg d ow \<and> sessions m d = Some p")
  case True
  with assms(2) have "in_map m p" "\<not> is_mark p t" "\<not> in_map m' p"
    using exec_in_map [OF assms(1)] by (auto simp: in_map_def map_ok_def)
  then show ?thesis
    using exec_closeOnce [OF assms(1,3)] exec_marks [OF assms(1), of p] True by (simp add: close_tokens_def)
next
  case False
  then show ?thesis
    using exec_closeOnce [OF assms(1,3)] exec_marks [OF assms(1), of p] exec_in_map [OF assms(1), of p]
    by (auto simp: close_tokens_def)
qed

lemma exec_call_tokens:
  assumes "exec c t m = Some (Ret (ts, m'))" "p < length (heap m)"
  shows "call_tokens m' p + length (filter (is_unconn p) ts) \<le> call_tokens m p + of_bool (is_unconn p t)"
  using exec_closeOnce [OF assms] exec_unconns [OF assms(1), of p] exec_closeLog [OF assms(1)]
  by (cases t) (auto simp: call_tokens_def)

lemma step_once_inv:
  assumes "step orderly s s'" "base_inv s" "once_inv s"
  shows "once_inv s'"
  using assms
proof (induction rule: step.induct)
  case (run s t M c ts m')
  have map: "map_ok (mgr s)" using run.prems(1) by (simp add: base_inv_def)
  have len: "length (heap m') = length (heap (mgr s))" using exec_heap [OF run.hyps(2)] by simp
  have "close_tokens m' p + size (filter_mset (is_mark p) (mset ts + M)) \<le> 1
      \<and> call_tokens m' p + size (filter_mset (is_unconn p) (mset ts + M)) \<le> 1" if p: "p < length (heap (mgr s))" for p
  proof -
    have "close_tokens (mgr s) p + of_bool (is_mark p t) + size (filter_mset (is_mark p) M) \<le> 1"
      and "call_tokens (mgr s) p + of_bool (is_unconn p t) + size (filter_mset (is_unconn p) M) \<le> 1"
      using run.prems(2) p by (auto simp: once_inv_def run.hyps(1))
    with exec_close_tokens [OF run.hyps(2) map p] exec_call_tokens [OF run.hyps(2) p]
    show ?thesis by (simp add: filter_mset_mset)
  qed
  then show ?case by (simp add: once_inv_def len)
next
  case (register s k r ts m')
  let ?n = "length (heap (mgr s))"
  have no_mark: "filter_mset (is_mark ?n) (threads s) = {#}" "filter_mset (is_unconn ?n) (threads s) = {#}"
    using register.prems(1)
    by (auto simp: base_inv_def thread_ok_def filter_mset_eq_mempty_iff elim!: is_mark.elims is_unconn.elims)
  have no_call: "count_list (map fst (closeLog (mgr s))) ?n = 0"
    using register.prems(1) by (force simp: base_inv_def count_list_0_iff)
  have old: "close_tokens m' p \<le> close_tokens (mgr s) p" "call_tokens m' p = call_tokens (mgr s) p" if "p < ?n" for p
    using register.hyps that by (auto simp: RegisterSession_Some close_tokens_def call_tokens_def in_map_def nth_append split: if_splits)
  have new: "close_tokens m' ?n \<le> 1" "call_tokens m' ?n = 1"
    using register.hyps no_call by (auto simp: RegisterSession_Some close_tokens_def call_tokens_def)
  have "length (heap m') = Suc ?n" using register.hyps by (auto simp: RegisterSession_Some)
  moreover have "ts = [RLoop ?n, WLoop ?n]" using register.hyps by (auto simp: RegisterSession_Some)
  moreover have "close_tokens m' p + size (filter_mset (is_mark p) (threads s)) \<le> 1
      \<and> call_tokens m' p + size (filter_mset (is_unconn p) (threads s)) \<le> 1" if "p < Suc ?n" for p
  proof (cases "p = ?n")
    case True
    show ?thesis unfolding True no_mark using new by simp
  next
    case False
    with that have "p < ?n" by simp
    with old [OF this] register.prems(2) show ?thesis by (auto simp: once_inv_def dest: spec [of _ p])
  qed
  ultimately show ?case by (simp add: once_inv_def)
qed (simp_all add: once_inv_def close_tokens_def call_tokens_def in_map_def SetOnClose_def SetControlCallback_def)

lemma reachable_once_inv: "reachable orderly s \<Longrightarrow> once_inv s"
proof (induction rule: reachable.induct)
  case (init parent_done cs)
  show ?case by (simp add: start_def NewSessionManager_def once_inv_def)
next
  case (later s s')
  then show ?case by (blast intro: step_once_inv reachable_base_inv)
qed

end
