(* ===== verification/SessionOrder.thy ===== *)
theory SessionOrder
  imports SessionSafety
begin

text \<open>
  Dispatch ids and the order of delivery: the ids of the sessions in order of registration, and the
  bytes a session's writer has put on the connection as a prefix of the frames of the packets
  \<^verbatim>\<open>SendToLocal\<close> accepted, in the order it accepted them.
\<close>

section \<open>Dispatch ids\<close>

definition did_inv :: "SessionManager \<Rightarrow> bool" where
  "did_inv m \<longleftrightarrow> nextDID m = of_nat (length (heap m))
     \<and> (\<forall>p < length (heap m). sess_DID (heap m ! p) = of_nat (p + 1))"

lemma exec_nextDID: "exec c t m = Some (Ret (ts, m')) \<Longrightarrow> nextDID m' = nextDID m"
  by (cases "(c, t, m)" rule: exec.cases)
    (auto simp: Let_def unreg_remove_Some unreg_remove_None split: exec_splits dest!: exec_rets)

lemma step_did_inv: "step orderly s s' \<Longrightarrow> did_inv (mgr s) \<Longrightarrow> did_inv (mgr s')"
proof (induction rule: step.induct)
  case (run s t M c ts m')
  then show ?case using exec_heap [OF run.hyps(2)] exec_nextDID [OF run.hyps(2)] by (simp add: did_inv_def)
next
  case (register s k r ts m')
  then show ?case by (auto simp: RegisterSession_Some did_inv_def nth_append less_Suc_eq)
qed (simp_all add: did_inv_def SetOnClose_def SetControlCallback_def)

lemma reachable_did_inv: "reachable orderly s \<Longrightarrow> did_inv (mgr s)"
proof (induction rule: reachable.induct)
  case (init parent_done cs)
  show ?case by (simp add: start_def NewSessionManager_def did_inv_def)
next
  case (later s s')
  then show ?case by (blast intro: step_did_inv)
qed

text \<open>Below \<open>2^32\<close> registrations the ids are distinct.\<close>

lemma did_inject:
  assumes "did_inv m" "length (heap m) < 2 ^ 32" "p < length (heap m)" "q < length (heap m)"
    "sess_DID (heap m ! p) = sess_DID (heap m ! q)"
  shows "p = q"
proof -
  have "(of_nat (p + 1) :: uint32) = of_nat (q + 1)" using assms by (simp add: did_inv_def)
  then have "unat (of_nat (p + 1) :: uint32) = unat (of_nat (q + 1) :: uint32)" by simp
  then show ?thesis using assms(2,3,4) by (simp only: unat_of_nat) simp
qed

section \<open>Delivery\<close>

definition packet_triple :: "outboundPacket \<Rightarrow> uint16 \<times> uint16 \<times> bytes" where
  "packet_triple k = (pkt_opcode k, pkt_statusCode k, pkt_data k)"

definition frames :: "outboundPacket list \<Rightarrow> bytes" where
  "frames ks = concat (map (\<lambda>k. response_frame (packet_triple k)) ks)"

text \<open>The packets before the first one that is too long to be framed, which ends the writer.\<close>

definition deliverable :: "outboundPacket list \<Rightarrow> outboundPacket list" where
  "deliverable ks = takeWhile (\<lambda>k. length (pkt_data k) < 65536) ks"

definition is_writer :: "nat \<Rightarrow> thread \<Rightarrow> bool" where
  "is_writer p t \<longleftrightarrow> t = WLoop p \<or> (\<exists>k. t = WWrite p k)"

definition delivered :: "SessionState \<Rightarrow> outboundPacket list \<Rightarrow> bool" where
  "delivered s rest \<longleftrightarrow> (\<exists>d. list_all (\<lambda>k. length (pkt_data k) < 65536) d
     \<and> accepted s = d @ rest @ chan_buf (outbound s) \<and> sent s = frames d)"

fun writer_ok :: "SessionState \<Rightarrow> thread \<Rightarrow> bool" where
  "writer_ok s (WLoop p) = delivered s []"
| "writer_ok s (WWrite p k) = delivered s [k]"
| "writer_ok s _ = True"

definition order_inv :: "system \<Rightarrow> bool" where
  "order_inv s \<longleftrightarrow> (\<forall>p < length (heap (mgr s)). size (filter_mset (is_writer p) (threads s)) \<le> 1
     \<and> (\<forall>t \<in># threads s. is_writer p t \<longrightarrow> writer_ok (heap (mgr s) ! p) t)
     \<and> prefix (sent (heap (mgr s) ! p)) (frames (deliverable (accepted (heap (mgr s) ! p)))))"

lemma is_writer_simps [simp]:
  "is_writer p (WLoop q) = (q = p)" "is_writer p (WWrite q k) = (q = p)" "\<not> is_writer p (RLoop q)"
  "\<not> is_writer p (RRead q)" "\<not> is_writer p (RCtrl q op bs)" "\<not> is_writer p (Unreg d ow)"
  "\<not> is_writer p (UnMark q d cb ow)" "\<not> is_writer p (UnConn q d cb ow)" "\<not> is_writer p (Finish ow)"
  "\<not> is_writer p Release" "\<not> is_writer p (Send d k)" "\<not> is_writer p (SendLocked q d k)"
  "\<not> is_writer p CloseCancel" "\<not> is_writer p CloseSwap" "\<not> is_writer p (CloseConns ps)"
  "\<not> is_writer p CloseWait" "\<not> is_writer p CloseBlocked"
  by (auto simp: is_writer_def)

lemma frames_append [simp]: "frames (a @ b) = frames a @ frames b"
  by (simp add: frames_def)

lemma prefix_frames_deliverable:
  "prefix s (frames (deliverable a)) \<Longrightarrow> prefix s (frames (deliverable (a @ b)))"
proof -
  have "prefix (deliverable a) (deliverable (a @ b))"
    by (induction a) (simp_all add: deliverable_def)
  then have "prefix (frames (deliverable a)) (frames (deliverable (a @ b)))" by (auto simp: prefix_def)
  then show "prefix s (frames (deliverable a)) \<Longrightarrow> ?thesis" by (rule prefix_order.trans [rotated])
qed

lemma delivered_prefix:
  assumes "delivered s rest"
  shows "prefix (sent s) (frames (deliverable (accepted s)))"
  using assms by (auto simp: delivered_def deliverable_def takeWhile_append2 list_all_iff takeWhile_append)

text \<open>A thread that is not the writer of a session leaves the connection's history alone; what it
  adds to the queue it adds to the accepted packets.\<close>

lemma exec_not_writer:
  assumes "exec c t m = Some (Ret (ts, m'))" "\<not> is_writer p t"
  shows "(\<exists>pk. accepted (heap m' ! p) = accepted (heap m ! p) @ pk
      \<and> chan_buf (outbound (heap m' ! p)) = chan_buf (outbound (heap m ! p)) @ pk)
    \<and> sent (heap m' ! p) = sent (heap m ! p)"
  using assms
  by (cases "(c, t, m)" rule: exec.cases)
    (auto simp: Let_def unreg_remove_Some unreg_remove_None nth_update_if split: exec_splits dest!: exec_rets)

lemma exec_no_new_writer:
  assumes "exec c t m = Some (Ret (ts, m'))"
  shows "length (filter (is_writer p) ts) \<le> of_bool (is_writer p t)"
  using assms
  by (cases "(c, t, m)" rule: exec.cases)
    (auto simp: Let_def unreg_remove_Some unreg_remove_None after_unregister_def split: exec_splits dest!: exec_rets)

lemma exec_WLoop:
  assumes "exec c (WLoop p) m = Some (Ret (ts, m'))" "delivered (heap m ! p) []" "p < length (heap m)"
  shows "prefix (sent (heap m' ! p)) (frames (deliverable (accepted (heap m' ! p))))
    \<and> (\<forall>u \<in> set ts. is_writer p u \<longrightarrow> writer_ok (heap m' ! p) u)"
  using assms(1,3) delivered_prefix [OF assms(2)] assms(2)
  by (auto simp: Let_def chan_recv_def delivered_def split: option.splits list.splits if_splits)

lemma exec_WWrite:
  assumes ex: "exec c (WWrite p k) m = Some (Ret (ts, m'))" and del: "delivered (heap m ! p) [k]"
    and p: "p < length (heap m)"
  shows "prefix (sent (heap m' ! p)) (frames (deliverable (accepted (heap m' ! p))))
    \<and> (\<forall>u \<in> set ts. is_writer p u \<longrightarrow> writer_ok (heap m' ! p) u)"
proof -
  let ?w = "conn_sink (conns m (sess_Conn (heap m ! p)))"
  obtain err w' where w: "writePacket (pkt_opcode k) (pkt_statusCode k) (pkt_data k) ?w = (err, w')" by fastforce
  from writePacket_cases [OF w] obtain out where
    out: "taken w' = taken ?w @ out" "prefix out (response_frame (packet_triple k))"
    "err = None \<longrightarrow> out = response_frame (packet_triple k) \<and> length (pkt_data k) < 65536"
    by (auto simp: packet_triple_def)
  have big: "out = []" if "\<not> length (pkt_data k) < 65536"
    using w out(1) that by (auto simp: writePacket_def maxPacketSize_def)
  have ts: "ts = [if err = None then WLoop p else Unreg (sess_DID (heap m ! p)) (Writer p)]"
    and new: "heap m' ! p = (heap m ! p)\<lparr>sent := sent (heap m ! p) @ out\<rparr>"
    using ex w out(1) p by (auto simp: Let_def)
  obtain d where d: "list_all (\<lambda>k. length (pkt_data k) < 65536) d" "sent (heap m ! p) = frames d"
    "accepted (heap m ! p) = d @ k # chan_buf (outbound (heap m ! p))"
    using del by (auto simp: delivered_def)
  have dl: "deliverable (d @ k # b) = d @ deliverable (k # b)" for b
    using d(1) by (simp add: deliverable_def list_all_iff)
  have "prefix (sent (heap m' ! p)) (frames (deliverable (accepted (heap m' ! p))))"
  proof (cases "length (pkt_data k) < 65536")
    case True
    then have "frames (deliverable (k # b)) = response_frame (packet_triple k) @ frames (deliverable b)" for b
      by (simp add: deliverable_def frames_def)
    then show ?thesis using out(2) by (simp add: new d dl)
  next
    case False
    then show ?thesis using big by (simp add: new d dl)
  qed
  moreover have "delivered (heap m' ! p) []" if "err = None"
    unfolding delivered_def
    by (rule exI [of _ "d @ [k]"]) (use out(3) d that in \<open>simp add: new frames_def\<close>)
  ultimately show ?thesis by (simp add: ts)
qed

lemma exec_order:
  assumes ex: "exec c t m = Some (Ret (ts, m'))" and p: "p < length (heap m)"
    and t: "is_writer p t \<Longrightarrow> writer_ok (heap m ! p) t"
    and pre: "prefix (sent (heap m ! p)) (frames (deliverable (accepted (heap m ! p))))"
  shows "prefix (sent (heap m' ! p)) (frames (deliverable (accepted (heap m' ! p))))
    \<and> (\<forall>u \<in> set ts. is_writer p u \<longrightarrow> writer_ok (heap m' ! p) u)"
proof (cases "is_writer p t")
  case True
  then consider "t = WLoop p" | k where "t = WWrite p k" by (auto simp: is_writer_def)
  then show ?thesis
    using exec_WLoop exec_WWrite ex t p by cases auto
next
  case False
  have "filter (is_writer p) ts = []" using exec_no_new_writer [OF ex, of p] False by simp
  then have "\<forall>u \<in> set ts. \<not> is_writer p u" by (simp add: filter_empty_conv)
  moreover have "prefix (sent (heap m' ! p)) (frames (deliverable (accepted (heap m' ! p))))"
    using exec_not_writer [OF ex False] pre by (auto intro: prefix_frames_deliverable)
  ultimately show ?thesis by simp
qed

lemma writer_ok_other:
  assumes ex: "exec c t m = Some (Ret (ts, m'))" "\<not> is_writer p t" and "writer_ok (heap m ! p) u"
  shows "writer_ok (heap m' ! p) u"
proof -
  from exec_not_writer [OF ex] obtain pk where
    "accepted (heap m' ! p) = accepted (heap m ! p) @ pk"
    "chan_buf (outbound (heap m' ! p)) = chan_buf (outbound (heap m ! p)) @ pk"
    "sent (heap m' ! p) = sent (heap m ! p)" by blast
  then have "delivered (heap m ! p) rest \<Longrightarrow> delivered (heap m' ! p) rest" for rest
    by (auto simp: delivered_def)
  with assms(3) show ?thesis by (cases u) auto
qed

lemma run_order_inv:
  assumes inv: "order_inv s" and t: "threads s = add_mset t M"
    and ex: "exec c t (mgr s) = Some (Ret (ts, m'))"
  shows "order_inv (s\<lparr>mgr := m', threads := mset ts + M\<rparr>)"
proof -
  have len: "length (heap m') = length (heap (mgr s))" using exec_heap [OF ex] by simp
  have "size (filter_mset (is_writer p) (mset ts + M)) \<le> 1
      \<and> (\<forall>u \<in># mset ts + M. is_writer p u \<longrightarrow> writer_ok (heap m' ! p) u)
      \<and> prefix (sent (heap m' ! p)) (frames (deliverable (accepted (heap m' ! p))))"
    if p: "p < length (heap (mgr s))" for p
  proof -
    have one: "of_bool (is_writer p t) + size (filter_mset (is_writer p) M) \<le> 1"
      and ok: "is_writer p t \<Longrightarrow> writer_ok (heap (mgr s) ! p) t"
        "\<And>u. u \<in># M \<Longrightarrow> is_writer p u \<Longrightarrow> writer_ok (heap (mgr s) ! p) u"
      and pre: "prefix (sent (heap (mgr s) ! p)) (frames (deliverable (accepted (heap (mgr s) ! p))))"
      using inv t p by (auto simp: order_inv_def)
    have "writer_ok (heap m' ! p) u" if u: "u \<in># M" "is_writer p u" for u
    proof -
      have "filter_mset (is_writer p) M \<noteq> {#}" using u by (auto simp: filter_mset_eq_mempty_iff)
      then have "\<not> is_writer p t" using one by (auto simp: nonempty_has_size)
      then show ?thesis using writer_ok_other [OF ex] ok(2) u by blast
    qed
    moreover have "size (filter_mset (is_writer p) (mset ts + M)) \<le> 1"
      using exec_no_new_writer [OF ex, of p] one by (simp add: filter_mset_mset)
    ultimately show ?thesis using exec_order [OF ex p ok(1) pre] by auto
  qed
  then show ?thesis by (simp add: order_inv_def len)
qed

lemma step_order_inv: "step orderly s s' \<Longrightarrow> base_inv s \<Longrightarrow> order_inv s \<Longrightarrow> order_inv s'"
proof (induction rule: step.induct)
  case (run s t M c ts m')
  then show ?case by (simp add: run_order_inv)
next
  case (register s k r ts m')
  let ?n = "length (heap (mgr s))"
  have none: "\<not> is_writer ?n u" if "u \<in># threads s" for u
    using register.prems(1) that by (auto simp: base_inv_def thread_ok_def is_writer_def)
  then have no: "filter_mset (is_writer ?n) (threads s) = {#}" by (simp add: filter_mset_eq_mempty_iff)
  have new: "delivered (heap m' ! ?n) []" and len: "length (heap m') = Suc ?n"
    and ts: "ts = [RLoop ?n, WLoop ?n]" and old: "\<And>p. p < ?n \<Longrightarrow> heap m' ! p = heap (mgr s) ! p"
    using register.hyps by (auto simp: RegisterSession_Some delivered_def frames_def make_chan_def nth_append)
  have "size (filter_mset (is_writer p) (mset ts + threads s)) \<le> 1
      \<and> (\<forall>u \<in># mset ts + threads s. is_writer p u \<longrightarrow> writer_ok (heap m' ! p) u)
      \<and> prefix (sent (heap m' ! p)) (frames (deliverable (accepted (heap m' ! p))))" if "p < Suc ?n" for p
  proof (cases "p = ?n")
    case True
    have "size (filter_mset (is_writer ?n) (mset ts + threads s)) \<le> 1" by (simp add: ts no del: filter_mset_eq_mempty_iff)
    with True none new delivered_prefix [OF new] show ?thesis by (auto simp: ts)
  next
    case False
    with that have "p < ?n" by simp
    with old [OF this] register.prems(2) show ?thesis by (auto simp: order_inv_def ts)
  qed
  then show ?case by (simp add: order_inv_def len)
qed (auto simp: order_inv_def SetOnClose_def SetControlCallback_def)

lemma reachable_order_inv: "reachable orderly s \<Longrightarrow> order_inv s"
proof (induction rule: reachable.induct)
  case (init parent_done cs)
  show ?case by (simp add: start_def NewSessionManager_def order_inv_def)
next
  case (later s s')
  then show ?case by (blast intro: step_order_inv reachable_base_inv)
qed

text \<open>What a client can parse of its connection are the first packets accepted for its session.\<close>

lemma parsed_accepted:
  assumes "order_inv s" "p < length (heap (mgr s))"
  shows "prefix (fst (parse_frames n parse_response (sent (heap (mgr s) ! p))))
    (map packet_triple (accepted (heap (mgr s) ! p)))"
proof -
  let ?x = "heap (mgr s) ! p" let ?ts = "map packet_triple (deliverable (accepted ?x))"
  have "list_all (\<lambda>q. length (snd (snd q)) < 65536) ?ts"
    by (auto simp: list_all_iff deliverable_def packet_triple_def dest: set_takeWhileD)
  moreover have "prefix (sent ?x) (concat (map response_frame ?ts))"
    using assms by (simp add: order_inv_def frames_def comp_def)
  ultimately have "prefix (fst (parse_frames n parse_response (sent ?x))) ?ts"
    using response.parse_frames_prefix by simp
  moreover have "prefix ?ts (map packet_triple (accepted ?x))"
    by (auto simp: deliverable_def intro: map_mono_prefix takeWhile_is_prefix)
  ultimately show ?thesis by (rule prefix_order.trans)
qed

end
