(* ===== verification/SessionShutdown.thy ===== *)
theory SessionShutdown
  imports SessionLive
begin

text \<open>
  What happens once the context is cancelled: as long as a goroutine is left, one of them can move,
  and every move takes a measure down, so that every schedule ends with all goroutines finished and
  every call of \<^verbatim>\<open>Close\<close> returned.
\<close>

section \<open>Progress\<close>

text \<open>After the cancellation only a read on an open connection and a caller of \<^verbatim>\<open>Wait\<close> can
  block.\<close>

lemma exec_blocked:
  assumes "exec c t m = None" "ctx_done m"
  shows "(\<exists>p. t = RRead p \<and> conn_open (conn_of m p)) \<or> t = CloseBlocked \<and> wg_woken (wg m) = None"
  using assms
  by (cases "(c, t, m)" rule: exec.cases)
    (auto simp: Let_def conn_of_def split: exec_splits if_splits)

lemma progress:
  assumes inv: "base_inv s" "live_inv s" and small: "length (heap (mgr s)) < 2 ^ 32"
    and ctx: "ctx_done (mgr s)" and left: "threads s \<noteq> {#}"
  shows "\<exists>t \<in># threads s. exec c t (mgr s) \<noteq> None"
proof (rule ccontr)
  assume "\<not> ?thesis"
  then have stuck: "exec c t (mgr s) = None" if "t \<in># threads s" for t using that by blast
  note kinds = exec_blocked [OF stuck ctx]
  have none: "t \<noteq> RRead p" if t: "t \<in># threads s" for t p
  proof
    assume "t = RRead p"
    then have p: "p < length (heap (mgr s))" "conn_open (conn_of (mgr s) p)"
      using inv(1) kinds [OF t] t by (auto simp: base_inv_def thread_ok_def)
    then have "served (mgr s) (threads s) p" using inv(2) small by (simp add: live_inv_def)
    with p(2) obtain u where "u \<in># threads s" "alive_writer p u \<or> closer p u" by (auto simp: served_def)
    then show False using kinds [of u] by auto
  qed
  have all: "t = CloseBlocked" "wg_woken (wg (mgr s)) = None" if "t \<in># threads s" for t
    using kinds [OF that] none [OF that] by auto
  have "wg_agrees (wg (mgr s)) (size (filter_mset owned (threads s))) (count (threads s) CloseBlocked)
      (count (threads s) Release)" using inv(1) by (simp add: base_inv_def)
  from wg_no_deadlock [OF this left] all show False by (auto simp: owned_def)
qed

section \<open>Termination\<close>

text \<open>The moves a goroutine has left after the cancellation, at most; \<open>n\<close> is the number of
  sessions and every queued packet is worth two moves of its writer.\<close>

fun weight :: "nat \<Rightarrow> thread \<Rightarrow> nat" where
  "weight n (RLoop _) = 6"
| "weight n (RRead _) = 8"
| "weight n (RCtrl _ _ _) = 7"
| "weight n (WLoop _) = 6"
| "weight n (WWrite _ _) = 7"
| "weight n (Unreg _ _) = 5"
| "weight n (UnMark _ _ _ _) = 4"
| "weight n (UnConn _ _ _ _) = 3"
| "weight n (Finish _) = 2"
| "weight n Release = 1"
| "weight n (Send _ _) = 7"
| "weight n (SendLocked _ _ _) = 6"
| "weight n CloseCancel = n + 5"
| "weight n CloseSwap = n + 4"
| "weight n (CloseConns ps) = length ps + 3"
| "weight n CloseWait = 2"
| "weight n CloseBlocked = 1"

definition queued :: "SessionManager \<Rightarrow> nat" where
  "queued m = (\<Sum>x\<leftarrow>heap m. length (chan_buf (outbound x)))"

definition shutdown_bound :: "system \<Rightarrow> nat" where
  "shutdown_bound s = (\<Sum>t\<in>#threads s. weight (length (heap (mgr s))) t) + 2 * queued (mgr s)"

lemma queued_upd:
  "p < length (heap m) \<Longrightarrow> queued (upd_sess p f m) + length (chan_buf (outbound (heap m ! p)))
     = queued m + length (chan_buf (outbound (f (heap m ! p))))"
proof -
  assume p: "p < length (heap m)"
  let ?q = "\<lambda>x. length (chan_buf (outbound x))"
  have "?q (heap m ! p) \<le> queued m"
    using elem_le_sum_list [of p "map ?q (heap m)"] p by (simp add: queued_def)
  moreover have "queued (upd_sess p f m) = queued m + ?q (f (heap m ! p)) - ?q (heap m ! p)"
    using sum_list_update [of p "map ?q (heap m)"] p by (simp add: queued_def map_update)
  ultimately show ?thesis by simp
qed

lemma queued_same:
  "length (chan_buf (outbound (f (heap m ! p)))) = length (chan_buf (outbound (heap m ! p))) \<Longrightarrow>
   queued (upd_sess p f m) = queued m"
  using queued_upd [of p m f] by (cases "p < length (heap m)") (simp_all add: queued_def list_update_beyond)

lemma queued_more:
  "p < length (heap m) \<Longrightarrow> length (chan_buf (outbound (f (heap m ! p)))) = Suc (length (chan_buf (outbound (heap m ! p)))) \<Longrightarrow>
   queued (upd_sess p f m) = Suc (queued m)"
  using queued_upd [of p m f] by simp

lemma queued_frame: "heap m' = heap m \<Longrightarrow> queued m' = queued m"
  by (simp add: queued_def)

lemma weight_after: "sum_list (map (weight n) (after_unregister ow)) \<le> 2"
  by (simp add: after_unregister_def)

lemma active_sessions_length: "length (active_sessions m) \<le> length (heap m)"
  unfolding active_sessions_def using length_filter_le [of _ "[0..<length (heap m)]"] by simp

lemma chan_recv_Some: "chan_recv ch = Some (Some k, ch') \<Longrightarrow> length (chan_buf ch) = Suc (length (chan_buf ch'))"
  by (auto simp: chan_recv_def split: list.splits if_splits)

lemma exec_weight_WLoop:
  assumes "exec c (WLoop p) m = Some (Ret (ts, m'))" "p < length (heap m)"
  shows "sum_list (map (weight n) ts) + 2 * queued m' < 6 + 2 * queued m"
  using assms(1)
proof (cases "\<exists>k ch. chan_recv (outbound (heap m ! p)) = Some (Some k, ch) \<and> \<not> (ctx_done m \<and> c)")
  case True
  then obtain k ch where k: "chan_recv (outbound (heap m ! p)) = Some (Some k, ch)" "\<not> (ctx_done m \<and> c)" by blast
  have "queued m' + Suc (length (chan_buf ch)) = queued m + length (chan_buf ch)" "ts = [WWrite p k]"
    using assms(1) k queued_upd [OF assms(2), of "\<lambda>s. s\<lparr>outbound := ch\<rparr>"] chan_recv_Some [OF k(1)] by auto
  then show ?thesis by simp
next
  case False
  with assms(1) have "ts = [Unreg (sess_DID (heap m ! p)) (Writer p)]" "m' = m"
    by (auto simp: Let_def split: option.splits if_splits)
  then show ?thesis by simp
qed

lemma exec_weight_SendLocked:
  assumes "exec c (SendLocked p d k) m = Some (Ret (ts, m'))" "p < length (heap m)"
  shows "sum_list (map (weight n) ts) + 2 * queued m' < 6 + 2 * queued m"
  using assms
  by (auto simp: queued_same queued_more split: go.splits prod.splits dest!: send_locked_Ret)

lemma exec_weight:
  assumes "exec c t m = Some (Ret (ts, m'))" "thread_ok m t" "ctx_done m"
  shows "sum_list (map (weight (length (heap m))) ts) + 2 * queued m' < weight (length (heap m)) t + 2 * queued m"
proof (cases t)
  case (WLoop p)
  with assms exec_weight_WLoop show ?thesis by (simp add: thread_ok_def)
next
  case (SendLocked p d k)
  with assms exec_weight_SendLocked show ?thesis by (simp add: thread_ok_def)
next
  case (UnMark p d cb ow)
  with assms(1) weight_after [of "length (heap m)" ow] show ?thesis
    by (auto simp: queued_same split: go.splits if_splits dest!: unreg_mark_Ret)
next
  case (CloseConns ps)
  with assms(1) show ?thesis by (cases ps) (auto simp: queued_def)
next
  case CloseSwap
  with assms(1) active_sessions_length [of m] show ?thesis by (auto simp: queued_def)
next
  case (Unreg d ow)
  with assms(1) weight_after [of "length (heap m)" ow] show ?thesis
    by (auto simp: unreg_remove_Some queued_def split: option.splits)
next
  case (UnConn p d cb ow)
  with assms(1) weight_after [of "length (heap m)" ow] show ?thesis by (auto simp: queued_def)
next
  case (WWrite p k)
  obtain err w' where w: "writePacket (pkt_opcode k) (pkt_statusCode k) (pkt_data k) (conn_sink (conns m (sess_Conn (heap m ! p)))) = (err, w')"
    by fastforce
  with WWrite assms(1) show ?thesis
    by (auto simp: Let_def queued_same queued_frame [OF upd_conn_frame(5)] split: if_splits)
qed (use assms(1,3) in \<open>auto simp: Let_def queued_def split: exec_splits if_splits\<close>)

section \<open>Schedules\<close>

text \<open>\<open>schedule s n s'\<close>: \<open>n\<close> moves of goroutines, in any order, lead from \<open>s\<close>
  to \<open>s'\<close>.\<close>

inductive schedule :: "system \<Rightarrow> nat \<Rightarrow> system \<Rightarrow> bool" for s where
  schedule_0: "schedule s 0 s"
| schedule_Suc: "schedule s n s' \<Longrightarrow> threads s' = add_mset t M \<Longrightarrow> exec c t (mgr s') = Some (Ret (ts, m')) \<Longrightarrow>
     schedule s (Suc n) (s'\<lparr>mgr := m', threads := mset ts + M\<rparr>)"

lemma exec_ctx_done: "exec c t m = Some (Ret (ts, m')) \<Longrightarrow> ctx_done m \<Longrightarrow> ctx_done m'"
  by (cases "(c, t, m)" rule: exec.cases)
    (auto simp: Let_def unreg_remove_Some unreg_remove_None split: exec_splits dest!: exec_rets)

lemma run_bound:
  assumes "base_inv s" "ctx_done (mgr s)" "threads s = add_mset t M" "exec c t (mgr s) = Some (Ret (ts, m'))"
  shows "shutdown_bound (s\<lparr>mgr := m', threads := mset ts + M\<rparr>) < shutdown_bound s"
proof -
  have "thread_ok (mgr s) t" using assms(1,3) by (simp add: base_inv_def)
  with exec_weight [OF assms(4) _ assms(2)] show ?thesis
    using exec_heap [OF assms(4)]
    by (simp add: shutdown_bound_def assms(3) sum_mset_sum_list flip: mset_map)
qed

lemma schedule_keeps:
  assumes "schedule s n s'" "reachable orderly s" "crashed s = None" "ctx_done (mgr s)"
  shows "reachable orderly s' \<and> crashed s' = None \<and> ctx_done (mgr s') \<and> n + shutdown_bound s' \<le> shutdown_bound s
    \<and> length (heap (mgr s')) = length (heap (mgr s))"
  using assms
proof (induction rule: schedule.induct)
  case (schedule_Suc n s' t M c ts m')
  then have IH: "reachable orderly s'" "crashed s' = None" "ctx_done (mgr s')"
    "n + shutdown_bound s' \<le> shutdown_bound s" "length (heap (mgr s')) = length (heap (mgr s))" by simp_all
  have "step orderly s' (s'\<lparr>mgr := m', threads := mset ts + M\<rparr>)" by (rule step.run) fact+
  then show ?case
    using IH reachable.later [OF IH(1,2)] run_bound [OF reachable_base_inv [OF IH(1)] IH(3) schedule_Suc.hyps(2,3)]
      exec_ctx_done [OF schedule_Suc.hyps(3)] exec_heap [OF schedule_Suc.hyps(3)] by simp
qed simp

end
