(* ===== verification/SessionRuns.thy ===== *)
theory SessionRuns
  imports SessionShutdown
begin

text \<open>
  Concrete runs of the session manager: an executable driver that follows a list of moves, every
  state it ends in being reachable, and the runs that the properties refer to.
\<close>

section \<open>A driver\<close>

type_synonym config = "SessionManager \<times> thread list \<times> bool"

datatype move =
    Go nat bool
  | Register nat
  | CallSend DID outboundPacket
  | CallUnregister DID
  | CallClose
  | OnClose bool

fun move1 :: "bool \<Rightarrow> move \<Rightarrow> config \<Rightarrow> config option" where
  "move1 orderly (Go i c) (m, ts, cl) =
     (if i < length ts
      then case exec c (ts ! i) m of
             Some (Ret (us, m')) \<Rightarrow> Some (m', take i ts @ us @ drop (Suc i) ts, cl)
           | _ \<Rightarrow> None
      else None)"
| "move1 orderly (Register k) (m, ts, cl) =
     (if orderly \<and> cl then None
      else case RegisterSession (Some k) m of
             Ret (r, us, m') \<Rightarrow> Some (m', ts @ us, cl)
           | Panic x \<Rightarrow> None)"
| "move1 orderly (CallSend d k) (m, ts, cl) = Some (m, ts @ [Send d k], cl)"
| "move1 orderly (CallUnregister d) (m, ts, cl) = Some (m, ts @ [Unreg d External], cl)"
| "move1 orderly CallClose (m, ts, cl) = Some (m, ts @ [CloseCancel], True)"
| "move1 orderly (OnClose b) (m, ts, cl) = Some (SetOnClose b m, ts, cl)"

fun drive :: "bool \<Rightarrow> move list \<Rightarrow> config \<Rightarrow> config option" where
  "drive orderly [] cfg = Some cfg"
| "drive orderly (x # xs) cfg =
     (case move1 orderly x cfg of None \<Rightarrow> None | Some cfg' \<Rightarrow> drive orderly xs cfg')"

fun system_of :: "config \<Rightarrow> system" where
  "system_of (m, ts, cl) = \<lparr>mgr = m, threads = mset ts, closing = cl, crashed = None\<rparr>"

lemma move1_step:
  assumes "move1 orderly x (m, ts, cl) = Some cfg'"
  shows "step orderly (system_of (m, ts, cl)) (system_of cfg')"
proof -
  let ?s = "system_of (m, ts, cl)"
  show ?thesis
  proof (cases x)
    case (Go i c)
    with assms obtain us m' where i: "i < length ts" and ex: "exec c (ts ! i) m = Some (Ret (us, m'))"
      and cfg': "cfg' = (m', take i ts @ us @ drop (Suc i) ts, cl)"
      by (auto split: if_splits option.splits go.splits)
    have "mset ts = mset (take i ts @ ts ! i # drop (Suc i) ts)" using i by (simp add: id_take_nth_drop [symmetric])
    then have "threads ?s = add_mset (ts ! i) (mset (take i ts) + mset (drop (Suc i) ts))" by simp
    from step.run [OF this, of c us m'] ex show ?thesis by (simp add: cfg' ac_simps)
  next
    case (Register k)
    with assms obtain r us m' where reg: "RegisterSession (Some k) m = Ret (r, us, m')" "\<not> (orderly \<and> cl)"
      and cfg': "cfg' = (m', ts @ us, cl)"
      by (auto split: if_splits go.splits)
    from reg(2) have "orderly \<Longrightarrow> \<not> closing ?s" by simp
    from step.register [OF this, where k = k and r = r and ts = us and m' = m'] reg(1) show ?thesis by (simp add: cfg' ac_simps)
  next
    case (CallSend d k)
    with assms step.call_send [of orderly ?s d k] show ?thesis by auto
  next
    case (CallUnregister d)
    with assms step.call_unregister [of orderly ?s d] show ?thesis by auto
  next
    case CallClose
    with assms step.call_close [of orderly ?s] show ?thesis by auto
  next
    case (OnClose b)
    with assms step.call_set_on_close [of orderly ?s b] show ?thesis by auto
  qed
qed

lemma drive_reachable:
  "reachable orderly (system_of cfg) \<Longrightarrow> drive orderly xs cfg = Some cfg' \<Longrightarrow> reachable orderly (system_of cfg')"
proof (induction xs arbitrary: cfg)
  case (Cons x xs)
  from Cons.prems(2) obtain c1 where c1: "move1 orderly x cfg = Some c1" "drive orderly xs c1 = Some cfg'"
    by (auto split: option.splits)
  obtain m ts cl where cfg: "cfg = (m, ts, cl)" by (cases cfg)
  have "reachable orderly (system_of c1)"
    by (rule reachable.later [OF Cons.prems(1) _ move1_step [OF c1(1) [unfolded cfg], folded cfg]]) (simp add: cfg)
  with Cons.IH c1(2) show ?case by blast
qed simp

section \<open>Runs\<close>

text \<open>Connections on which nothing arrives and every write succeeds.\<close>

definition silent :: "nat \<Rightarrow> conn" where
  "silent k = \<lparr>conn_in = \<lparr>pending = [], eof = False\<rparr>, conn_out = \<lparr>taken = [], room = None\<rparr>,
     conn_open = True, conn_close_err = False\<rparr>"

definition fresh :: config where
  "fresh = (NewSessionManager False silent, [], False)"

definition hello :: outboundPacket where
  "hello = \<lparr>pkt_opcode = 1, pkt_statusCode = 0, pkt_data = [7, 8]\<rparr>"

lemma fresh_reachable: "reachable orderly (system_of fresh)"
  using reachable.init [of orderly False silent] by (simp add: fresh_def start_def)

text \<open>Where a run of moves ends.\<close>

definition run_of :: "bool \<Rightarrow> move list \<Rightarrow> system" where
  "run_of orderly xs = (case drive orderly xs fresh of None \<Rightarrow> system_of fresh | Some cfg \<Rightarrow> system_of cfg)"

lemma run_of_reachable: "reachable orderly (run_of orderly xs)"
  using drive_reachable [OF fresh_reachable] fresh_reachable by (auto simp: run_of_def split: option.splits)

text \<open>A session is registered, a packet is sent to it and written; then the id is unregistered
  with a callback set.\<close>

definition serve_run :: "move list" where
  "serve_run = [OnClose True, Register 4, CallSend 1 hello, Go 2 False, Go 2 False, Go 1 False, Go 1 False,
     CallUnregister 1, Go 2 False, Go 2 False, Go 2 False]"

text \<open>A session is registered and the manager is closed while a callback is set, up to the wait for
  the goroutines; both goroutines then see the cancelled context and finish.\<close>

definition closing_run :: "move list" where
  "closing_run = [OnClose True, Register 4, CallClose] @ replicate 5 (Go 2 False)"

definition closed_run :: "move list" where
  "closed_run = closing_run @ replicate 7 (Go 0 False)"

lemmas run_simps = exec.simps Let_def RegisterSession_def NewSessionManager_def SetOnClose_def new_wg_def
  wg_Add_def wg_Done_def wg_release_def wg_Wait_def wg_woken_def unreg_remove_def unreg_mark_def
  unreg_conn_def upd_sess_def upd_conn_def conn_Close_def close_conn_of_def active_sessions_def
  after_unregister_def send_locked_def try_send_def close_chan_def make_chan_def sessionQueueSize_def
  chan_recv_def writePacket_def conn_Write_def conn_sink_def maxPacketSize_def fresh_def silent_def
  hello_def response_header_def

lemma serve_run_end:
  "run_of True serve_run =
     \<lparr>mgr = \<lparr>sessions = [1 \<mapsto> 0](1 := None), nextDID = 1, ctx_done = False,
        wg = \<lparr>wg_count = 2, wg_waiters = 0, wg_sema = 0\<rparr>, onClose = True, onControl = False,
        heap = [\<lparr>sess_DID = 1, sess_Conn = 4, outbound = \<lparr>chan_buf = [], chan_cap = 1024, chan_closed = True\<rparr>,
          isClosed = True, closeOnce = True, accepted = [hello], sent = [0, 1, 0, 0, 0, 2, 7, 8]\<rparr>],
        conns = silent(4 := (silent 4)\<lparr>conn_out := \<lparr>taken = [0, 1, 0, 0, 0, 2, 7, 8], room = None\<rparr>, conn_open := False\<rparr>),
        closeLog = [(0, 1)], ctrlLog = []\<rparr>,
      threads = mset [RLoop 0, WLoop 0], closing = False, crashed = None\<rparr>"
  by (simp add: run_of_def serve_run_def run_simps PutUint16_def fun_eq_iff)

lemma closed_run_end:
  "threads (run_of b closed_run) = {#CloseBlocked#}" "closing (run_of b closed_run)"
  "wg (mgr (run_of b closed_run)) = \<lparr>wg_count = 0, wg_waiters = 0, wg_sema = 1\<rparr>"
  "closeLog (mgr (run_of b closed_run)) = []" "onClose (mgr (run_of b closed_run))"
  "crashed (run_of b closed_run) = None"
  by (simp_all add: run_of_def closed_run_def closing_run_def run_simps numeral_eq_Suc)

lemma closing_run_end:
  "ctx_done (mgr (run_of b closing_run))" "length (heap (mgr (run_of b closing_run))) = 1"
  "CloseBlocked \<in># threads (run_of b closing_run)"
  by (simp_all add: run_of_def closing_run_def run_simps numeral_eq_Suc)

end
