(* ===== verification/SessionSpec.thy ===== *)
theory SessionSpec
  imports SessionSafety
begin

text \<open>
  What the session manager promises its callers, as mailboxes: every registered dispatch id has a
  bounded queue and a flag saying that it was closed for being full. The exported operations, run
  without interruption, implement the operations on mailboxes; and a run of the threads of
  \<^verbatim>\<open>UnregisterSession\<close> without interruption is the operation.
\<close>

section \<open>Mailboxes\<close>

type_synonym mailboxes = "DID \<rightharpoonup> outboundPacket list \<times> bool"

definition mailboxes_of :: "SessionManager \<Rightarrow> mailboxes" where
  "mailboxes_of m d =
     map_option (\<lambda>p. (chan_buf (outbound (heap m ! p)), isClosed (heap m ! p))) (sessions m d)"

definition spec_register :: "DID \<Rightarrow> mailboxes \<Rightarrow> mailboxes" where
  "spec_register d A = A(d \<mapsto> ([], False))"

definition spec_send :: "DID \<Rightarrow> outboundPacket \<Rightarrow> mailboxes \<Rightarrow> sm_error option \<times> mailboxes" where
  "spec_send d k A =
     (case A d of
        None \<Rightarrow> (Some (SessionNotFound d), A)
      | Some (q, True) \<Rightarrow> (Some (SessionClosed d), A)
      | Some (q, False) \<Rightarrow>
          if length q < 1024 then (None, A(d \<mapsto> (q @ [k], False)))
          else (Some ErrSessionBlocked, A(d \<mapsto> (q, True))))"

definition spec_unregister :: "DID \<Rightarrow> mailboxes \<Rightarrow> bool \<times> mailboxes" where
  "spec_unregister d A = (A d \<noteq> None, A(d := None))"

definition manager_ok :: "SessionManager \<Rightarrow> bool" where
  "manager_ok m \<longleftrightarrow> list_all sess_ok (heap m) \<and> map_ok m"

lemma map_ok_inj: "map_ok m \<Longrightarrow> sessions m d = Some p \<Longrightarrow> sessions m e = Some p \<Longrightarrow> d = e"
  by (auto simp: map_ok_def)

lemma mailboxes_upd:
  assumes "map_ok m" "sessions m d = Some p"
  shows "mailboxes_of (upd_sess p f m) = (mailboxes_of m)(d \<mapsto>
    (chan_buf (outbound (f (heap m ! p))), isClosed (f (heap m ! p))))"
proof (rule ext)
  fix e
  have p: "p < length (heap m)" using assms by (simp add: map_ok_def)
  have "sessions m e \<noteq> Some p" if "e \<noteq> d" using map_ok_inj [OF assms, of e] that by blast
  then show "mailboxes_of (upd_sess p f m) e = ((mailboxes_of m)(d \<mapsto>
    (chan_buf (outbound (f (heap m ! p))), isClosed (f (heap m ! p))))) e"
    using assms(2) p by (cases "e = d"; cases "sessions m e") (simp_all add: mailboxes_of_def nth_update_if)
qed

lemma send_refines:
  assumes "manager_ok m"
  shows "\<exists>err ts m'. SendToLocal d opcode status data m = Ret (err, ts, m')
    \<and> (err, mailboxes_of m') =
        spec_send d \<lparr>pkt_opcode = opcode, pkt_statusCode = status, pkt_data = data\<rparr> (mailboxes_of m)
    \<and> (ts = (if err = Some ErrSessionBlocked then [Unreg d External] else []))"
proof (cases "sessions m d")
  case None
  then show ?thesis by (simp add: SendToLocal_def spec_send_def mailboxes_of_def)
next
  case (Some p)
  have mok: "map_ok m" and p: "p < length (heap m)" and sok: "list_all sess_ok (heap m)"
    using assms Some by (auto simp: manager_ok_def map_ok_def)
  let ?k = "\<lparr>pkt_opcode = opcode, pkt_statusCode = status, pkt_data = data\<rparr>"
  have box: "mailboxes_of m d = Some (chan_buf (outbound (heap m ! p)), isClosed (heap m ! p))"
    using Some by (simp add: mailboxes_of_def)
  have "\<exists>err ts m'. send_locked p d ?k m = Ret (err, ts, m')
      \<and> (err, mailboxes_of m') = spec_send d ?k (mailboxes_of m)
      \<and> (ts = (if err = Some ErrSessionBlocked then [Unreg d External] else []))"
    using sess_okD [OF sok p]
    by (cases "isClosed (heap m ! p)")
      (auto simp: send_locked_def Let_def try_send_def spec_send_def box mailboxes_upd [OF mok Some]
        sessionQueueSize_def)
  then show ?thesis using Some by (simp add: SendToLocal_def)
qed

lemma mailboxes_frame:
  "sessions m' = sessions m \<Longrightarrow> heap m' = heap m \<Longrightarrow> mailboxes_of m' = mailboxes_of m"
  by (simp add: mailboxes_of_def fun_eq_iff)

lemma unregister_refines:
  assumes "manager_ok m"
  shows "\<exists>err m'. UnregisterSession d m = Ret (err, m')
    \<and> (err \<noteq> Some (SessionNotFound d), mailboxes_of m') = spec_unregister d (mailboxes_of m)"
proof (cases "sessions m d")
  case None
  then show ?thesis
    by (auto simp: UnregisterSession_def unreg_remove_def spec_unregister_def mailboxes_of_def)
next
  case (Some p)
  have mok: "map_ok m" and p: "p < length (heap m)" and sok: "list_all sess_ok (heap m)"
    using assms Some by (auto simp: manager_ok_def map_ok_def)
  let ?m1 = "m\<lparr>sessions := (sessions m)(d := None)\<rparr>"
  have m1: "mailboxes_of ?m1 = (mailboxes_of m)(d := None)" by (auto simp: mailboxes_of_def)
  have other: "sessions ?m1 e \<noteq> Some p" for e using map_ok_inj [OF mok Some] by auto
  have upd: "mailboxes_of (upd_sess p f ?m1) = mailboxes_of ?m1" for f
  proof (rule ext)
    fix e
    show "mailboxes_of (upd_sess p f ?m1) e = mailboxes_of ?m1 e"
      using other [of e] by (cases "sessions ?m1 e") (auto simp: mailboxes_of_def nth_update_if)
  qed
  have box: "mailboxes_of m d \<noteq> None" using Some by (simp add: mailboxes_of_def)
  show ?thesis
  proof (cases "closeOnce (heap m ! p)")
    case True
    then show ?thesis using Some m1 box by (simp add: UnregisterSession_def unreg_remove_def spec_unregister_def)
  next
    case False
    obtain m2 where m2: "unreg_mark p ?m1 = Ret m2" "mailboxes_of m2 = mailboxes_of ?m1"
      using sess_okD [OF sok p] upd by (cases "isClosed (heap m ! p)") (auto simp: unreg_mark_def Let_def)
    have "mailboxes_of (snd (unreg_conn p d cb m2)) = mailboxes_of m2" for cb by (rule mailboxes_frame) simp_all
    moreover have "fst (unreg_conn p d cb m2) \<noteq> Some (SessionNotFound d)" for cb
      by (simp add: unreg_conn_def Let_def split: prod.splits)
    ultimately show ?thesis
      using Some False m1 m2 box by (simp add: UnregisterSession_def unreg_remove_def spec_unregister_def) (metis prod.collapse)
  qed
qed

lemma register_refines:
  assumes "manager_ok m" "RegisterSession (Some k) m = Ret (r, ts, m')"
  shows "\<exists>d. r = Inr d \<and> mailboxes_of m' = spec_register d (mailboxes_of m)"
proof -
  have "mailboxes_of m' = spec_register (nextDID m + 1) (mailboxes_of m)" if "r = Inr (nextDID m + 1)"
  proof (rule ext)
    fix e
    have "p < length (heap m)" if "sessions m e = Some p" for p using assms(1) that by (auto simp: manager_ok_def map_ok_def)
    then show "mailboxes_of m' e = spec_register (nextDID m + 1) (mailboxes_of m) e"
      using assms(2)
      by (cases "sessions m e")
        (auto simp: RegisterSession_Some mailboxes_of_def spec_register_def make_chan_def nth_append)
  qed
  then show ?thesis using assms(2) by (auto simp: RegisterSession_Some)
qed

section \<open>Operations and threads\<close>

text \<open>A thread followed for at most \<open>n\<close> moves, as long as it goes on as one thread, while no other
  thread moves.\<close>

fun run_alone :: "nat \<Rightarrow> bool \<Rightarrow> thread \<Rightarrow> SessionManager \<Rightarrow> (thread list \<times> SessionManager) go option" where
  "run_alone 0 c t m = Some (Ret ([t], m))"
| "run_alone (Suc n) c t m =
     (case exec c t m of
        Some (Ret ([u], m')) \<Rightarrow> run_alone n c u m'
      | r \<Rightarrow> r)"

text \<open>A result with a function applied to its value; a panic stays.\<close>

definition go_result :: "('a \<Rightarrow> 'b) \<Rightarrow> 'a go \<Rightarrow> 'b go" where
  "go_result f r = (case r of Ret x \<Rightarrow> Ret (f x) | Panic p \<Rightarrow> Panic p)"

lemma send_runs_alone:
  "run_alone 2 c (Send did \<lparr>pkt_opcode = opcode, pkt_statusCode = status, pkt_data = data\<rparr>) m
     = Some (go_result (\<lambda>(err, ts, m'). (ts, m')) (SendToLocal did opcode status data m))"
  by (auto simp: numeral_2_eq_2 SendToLocal_def go_result_def send_locked_def Let_def
      split: option.splits go.splits list.splits prod.splits bool.splits)

lemma unregister_runs_alone:
  "run_alone 3 c (Unreg did External) m
     = Some (go_result (\<lambda>(err, m'). ([], m')) (UnregisterSession did m))"
  by (auto simp: numeral_3_eq_3 UnregisterSession_def go_result_def unreg_remove_def after_unregister_def Let_def
      split: option.splits go.splits list.splits prod.splits bool.splits)

end
