(* ===== verification/SessionProps.thy ===== *)
theory SessionProps
  imports SessionRuns SessionSpec
begin

text \<open>
  The properties of the session manager, over every reachable state of the process, with concrete
  runs as witnesses. \<open>reachable True\<close> are the states of a process that registers no session
  once \<^verbatim>\<open>Close\<close> was called, \<open>reachable False\<close> those of any process.
\<close>

section \<open>Panics\<close>

text \<open>
  C2: in no interleaving of readers, writers, senders, unregistrations and \<open>Close\<close> does the
  session manager panic: no send on a closed channel, no second close of a channel, no negative
  wait group. The only panic possible is the misuse panic of the wait group, and only in a process
  that registers a session after it called \<open>Close\<close>.
\<close>

theorem session_manager_never_panics:
  assumes "reachable orderly s"
  shows "crashed s = None \<or> crashed s = Some WaitGroupMisuse \<and> orderly = False"
  using reachable_rest_inv [OF assms] by (auto simp: rest_inv_def)

theorem session_manager_never_panics_witness:
  "crashed (run_of True closed_run) = None \<or> crashed (run_of True closed_run) = Some WaitGroupMisuse \<and> True = False"
  by (rule session_manager_never_panics [OF run_of_reachable])

lemma misuse_exec: "exec c CloseBlocked m = Some (Panic WaitGroupMisuse)"
  if "wg m = \<lparr>wg_count = 2, wg_waiters = 0, wg_sema = 1\<rparr>"
  using that by (simp add: wg_woken_def)

text \<open>
  C32: that panic happens. A session is registered and \<open>Close\<close> called; both goroutines of the
  session finish, and before the goroutine in \<open>Close\<close> is scheduled again another connection
  is registered: the process panics in \<open>Wait\<close>.
\<close>

theorem register_during_close_panics:
  "\<exists>s s'. reachable False s \<and> crashed s = None \<and> threads s = {#CloseBlocked#}
     \<and> step False s s' \<and> length (heap (mgr s')) = Suc (length (heap (mgr s)))
     \<and> step False s' (s'\<lparr>crashed := Some WaitGroupMisuse\<rparr>)"
proof -
  let ?s = "run_of False closed_run"
  obtain r ts m' where reg: "RegisterSession (Some 5) (mgr ?s) = Ret (r, ts, m')"
    by (cases "RegisterSession (Some 5) (mgr ?s)")
      (auto simp: RegisterSession_Panic wg_Add_def closed_run_end)
  have m': "wg m' = \<lparr>wg_count = 2, wg_waiters = 0, wg_sema = 1\<rparr>" "length (heap m') = Suc (length (heap (mgr ?s)))"
    using reg by (auto simp: RegisterSession_Some wg_Add_def closed_run_end)
  let ?s' = "?s\<lparr>mgr := m', threads := mset ts + threads ?s\<rparr>"
  have "step False ?s ?s'" by (rule step.register [OF _ reg]) simp
  moreover have "step False ?s' (?s'\<lparr>crashed := Some WaitGroupMisuse\<rparr>)"
    by (rule step.crash [of CloseBlocked _ False]) (simp_all add: closed_run_end misuse_exec m' del: exec.simps)
  ultimately show ?thesis
    using run_of_reachable [of False closed_run] closed_run_end [of False] m'(2)
    by (intro exI [of _ ?s] exI [of _ ?s']) simp
qed

section \<open>Sessions\<close>

lemma distinct_if_count_le_1: "(\<And>x. count_list xs x \<le> 1) \<Longrightarrow> distinct xs"
proof (induction xs)
  case (Cons a xs)
  have "count_list xs a = 0" using Cons.prems [of a] by simp
  moreover have "count_list xs x \<le> 1" for x using Cons.prems [of x] by (simp split: if_splits)
  ultimately show ?case using Cons.IH by (simp add: count_list_0_iff)
qed simp

text \<open>
  C12: however many goroutines and callers race to unregister a session, the close callback runs at
  most once for it, and with the dispatch id of that session.
\<close>

theorem close_callback_at_most_once:
  assumes "reachable orderly s"
  shows "distinct (map fst (closeLog (mgr s)))
    \<and> list_all (\<lambda>(p, d). p < length (heap (mgr s)) \<and> d = sess_DID (heap (mgr s) ! p)) (closeLog (mgr s))"
proof
  have log: "\<forall>(p, d) \<in> set (closeLog (mgr s)). p < length (heap (mgr s)) \<and> d = sess_DID (heap (mgr s) ! p)"
    using reachable_base_inv [OF assms] by (simp add: base_inv_def)
  then show "list_all (\<lambda>(p, d). p < length (heap (mgr s)) \<and> d = sess_DID (heap (mgr s) ! p)) (closeLog (mgr s))"
    by (simp add: list_all_iff)
  show "distinct (map fst (closeLog (mgr s)))"
  proof (rule distinct_if_count_le_1)
    fix p
    show "count_list (map fst (closeLog (mgr s))) p \<le> 1"
    proof (cases "p < length (heap (mgr s))")
      case True
      then show ?thesis using reachable_once_inv [OF assms] by (auto simp: once_inv_def call_tokens_def)
    next
      case False
      then have "p \<notin> set (map fst (closeLog (mgr s)))" using log by auto
      then show ?thesis by (simp add: count_list_0_iff)
    qed
  qed
qed

theorem close_callback_at_most_once_witness:
  "distinct (map fst (closeLog (mgr (run_of True serve_run))))
   \<and> list_all (\<lambda>(p, d). p < length (heap (mgr (run_of True serve_run)))
        \<and> d = sess_DID (heap (mgr (run_of True serve_run)) ! p)) (closeLog (mgr (run_of True serve_run)))
   \<and> closeLog (mgr (run_of True serve_run)) = [(0, 1)]"
  using close_callback_at_most_once [OF run_of_reachable [of True serve_run]]
  by (simp add: serve_run_end)

text \<open>
  C18: a session's outbound queue never holds more than 1024 packets, and the channel is closed
  exactly when the session is marked closed; the session map points at sessions with the right
  dispatch id.
\<close>

theorem session_state_invariant:
  assumes "reachable orderly s"
  shows "manager_ok (mgr s) \<and> list_all (\<lambda>x. length (chan_buf (outbound x)) \<le> 1024) (heap (mgr s))"
  using reachable_base_inv [OF assms]
  by (auto simp: base_inv_def manager_ok_def sess_ok_def sessionQueueSize_def list_all_iff)

theorem session_state_invariant_witness:
  "manager_ok (mgr (run_of True serve_run))
   \<and> list_all (\<lambda>x. length (chan_buf (outbound x)) \<le> 1024) (heap (mgr (run_of True serve_run)))"
  by (rule session_state_invariant [OF run_of_reachable])

text \<open>
  C11: the mailbox contract. In every reachable state the operations, run without interruption,
  never panic and act on the mailboxes as specified: sending appends to a queue below its bound,
  closes a full one with \<open>ErrSessionBlocked\<close> (and starts its unregistration), and reports an
  unknown or closed session; unregistering removes exactly one mailbox and reports an unknown one.
\<close>

theorem mailbox_refinement:
  assumes "reachable orderly s"
  shows "\<exists>err ts m' err2 m2.
     SendToLocal d opcode status data (mgr s) = Ret (err, ts, m')
   \<and> (err, mailboxes_of m') =
       spec_send d \<lparr>pkt_opcode = opcode, pkt_statusCode = status, pkt_data = data\<rparr> (mailboxes_of (mgr s))
   \<and> ts = (if err = Some ErrSessionBlocked then [Unreg d External] else [])
   \<and> UnregisterSession d (mgr s) = Ret (err2, m2)
   \<and> (err2 \<noteq> Some (SessionNotFound d), mailboxes_of m2) = spec_unregister d (mailboxes_of (mgr s))"
proof -
  have "manager_ok (mgr s)" using reachable_base_inv [OF assms] by (simp add: base_inv_def manager_ok_def)
  from send_refines [OF this] unregister_refines [OF this] show ?thesis by blast
qed

theorem mailbox_refinement_witness:
  "\<exists>err ts m' err2 m2.
     SendToLocal 1 2 3 [4] (mgr (run_of True serve_run)) = Ret (err, ts, m')
   \<and> (err, mailboxes_of m') = spec_send 1 \<lparr>pkt_opcode = 2, pkt_statusCode = 3, pkt_data = [4]\<rparr>
        (mailboxes_of (mgr (run_of True serve_run)))
   \<and> ts = (if err = Some ErrSessionBlocked then [Unreg 1 External] else [])
   \<and> UnregisterSession 1 (mgr (run_of True serve_run)) = Ret (err2, m2)
   \<and> (err2 \<noteq> Some (SessionNotFound 1), mailboxes_of m2) = spec_unregister 1 (mailboxes_of (mgr (run_of True serve_run)))"
  by (rule mailbox_refinement [OF run_of_reachable])


text \<open>
  C30: below \<open>2^32\<close> registrations the dispatch ids are non-zero and distinct, and a registration
  adds an empty mailbox under an id no session has.
\<close>

theorem dispatch_ids_unique:
  assumes "reachable orderly s" "RegisterSession (Some k) (mgr s) = Ret (r, ts, m')"
    "length (heap m') < 2 ^ 32"
  shows "distinct (map sess_DID (heap m')) \<and> 0 \<notin> sess_DID ` set (heap m')
    \<and> (\<exists>d. r = Inr d \<and> mailboxes_of (mgr s) d = None \<and> mailboxes_of m' = spec_register d (mailboxes_of (mgr s)))"
proof -
  have base: "base_inv s" using assms(1) by (rule reachable_base_inv)
  have "did_inv (mgr (s\<lparr>mgr := m', threads := mset ts + threads s\<rparr>))"
    using step_did_inv [OF step.register [of False, OF _ assms(2)] reachable_did_inv [OF assms(1)]] by simp
  then have inv: "did_inv m'" by simp
  have small: "sess_DID (heap m' ! p) \<noteq> 0" if "p < length (heap m')" for p
  proof -
    have "unat (of_nat (p + 1) :: uint32) = p + 1"
      using that assms(3) by (simp only: unat_of_nat) simp
    moreover have "sess_DID (heap m' ! p) = of_nat (p + 1)" using inv that by (simp add: did_inv_def)
    ultimately show ?thesis by (metis add_is_0 one_neq_zero unat_0)
  qed
  have "distinct (map sess_DID (heap m'))"
    using did_inject [OF inv assms(3)] by (auto simp: distinct_conv_nth)
  moreover have "0 \<notin> sess_DID ` set (heap m')" using small by (auto simp: in_set_conv_nth)
  moreover have "manager_ok (mgr s)" using base by (simp add: base_inv_def manager_ok_def)
  then obtain d where d: "r = Inr d" "mailboxes_of m' = spec_register d (mailboxes_of (mgr s))"
    using register_refines [OF _ assms(2)] by blast
  moreover have "mailboxes_of (mgr s) d = None"
  proof (rule ccontr)
    assume "mailboxes_of (mgr s) d \<noteq> None"
    then obtain p where p: "sessions (mgr s) d = Some p" by (auto simp: mailboxes_of_def)
    then have "p < length (heap (mgr s))" "sess_DID (heap (mgr s) ! p) = d"
      using base by (auto simp: base_inv_def map_ok_def)
    with assms(2) d(1) did_inject [OF inv assms(3), of p "length (heap (mgr s))"] show False
      by (auto simp: RegisterSession_Some nth_append)
  qed
  ultimately show ?thesis by blast
qed

theorem dispatch_ids_unique_witness:
  "\<exists>r ts m'. RegisterSession (Some 5) (mgr (run_of True serve_run)) = Ret (r, ts, m')
     \<and> distinct (map sess_DID (heap m')) \<and> 0 \<notin> sess_DID ` set (heap m')
     \<and> (\<exists>d. r = Inr d \<and> mailboxes_of (mgr (run_of True serve_run)) d = None
          \<and> mailboxes_of m' = spec_register d (mailboxes_of (mgr (run_of True serve_run))))"
proof -
  obtain r ts m' where m': "RegisterSession (Some 5) (mgr (run_of True serve_run)) = Ret (r, ts, m')"
    by (simp add: RegisterSession_def Let_def wg_Add_def serve_run_end)
  then have "length (heap m') < 2 ^ 32" by (auto simp: RegisterSession_Some serve_run_end)
  from dispatch_ids_unique [OF run_of_reachable m' this] m' show ?thesis by blast
qed

text \<open>
  C3: what a client has read from its connection is always a sequence of whole response frames and
  possibly the start of one more; the frames it can parse are the first packets
  \<open>SendToLocal\<close> accepted for the session, in the order it accepted them.
\<close>

theorem delivery_in_order:
  assumes "reachable orderly s" "p < length (heap (mgr s))"
  shows "prefix (sent (heap (mgr s) ! p)) (frames (deliverable (accepted (heap (mgr s) ! p))))
    \<and> prefix (fst (parse_frames n parse_response (sent (heap (mgr s) ! p))))
        (map packet_triple (accepted (heap (mgr s) ! p)))"
  using reachable_order_inv [OF assms(1)] parsed_accepted [OF reachable_order_inv [OF assms(1)] assms(2)] assms(2)
  by (simp add: order_inv_def)

theorem delivery_in_order_witness:
  "prefix (sent (heap (mgr (run_of True serve_run)) ! 0))
       (frames (deliverable (accepted (heap (mgr (run_of True serve_run)) ! 0))))
   \<and> prefix (fst (parse_frames 2 parse_response (sent (heap (mgr (run_of True serve_run)) ! 0))))
       (map packet_triple (accepted (heap (mgr (run_of True serve_run)) ! 0)))"
  by (rule delivery_in_order [OF run_of_reachable]) (simp add: serve_run_end)

section \<open>Wrap-around of the dispatch ids\<close>

text \<open>\<open>n\<close> registrations in a row: the first session keeps its map entry up to \<open>2^32\<close>
  of them.\<close>

lemma register_many:
  "\<exists>s. reachable True s \<and> crashed s = None \<and> \<not> closing s \<and> length (heap (mgr s)) = n
     \<and> wg_waiters (wg (mgr s)) = 0 \<and> (0 < n \<and> n \<le> 2 ^ 32 \<longrightarrow> sessions (mgr s) 1 = Some 0)"
proof (induction n)
  case 0
  show ?case
    by (rule exI [of _ "system_of fresh"])
      (use fresh_reachable [of True] in \<open>simp add: fresh_def NewSessionManager_def new_wg_def\<close>)
next
  case (Suc n)
  then obtain s where s: "reachable True s" "crashed s = None" "\<not> closing s" "length (heap (mgr s)) = n"
    "wg_waiters (wg (mgr s)) = 0" "0 < n \<Longrightarrow> n \<le> 2 ^ 32 \<Longrightarrow> sessions (mgr s) 1 = Some 0" by auto
  obtain r ts m' where reg: "RegisterSession (Some 0) (mgr s) = Ret (r, ts, m')"
    using s(5) by (simp add: RegisterSession_def Let_def wg_Add_def)
  let ?s' = "s\<lparr>mgr := m', threads := mset ts + threads s\<rparr>"
  have did: "nextDID (mgr s) = of_nat n" using reachable_did_inv [OF s(1)] s(4) by (simp add: did_inv_def)
  have one: "(of_nat n + 1 :: uint32) \<noteq> 1" if "0 < n" "Suc n \<le> 2 ^ 32"
  proof -
    have "unat (of_nat n :: uint32) = n" using that by (simp only: unat_of_nat) simp
    then show ?thesis using that(1) by auto
  qed
  have "sessions m' 1 = Some 0" if "Suc n \<le> 2 ^ 32"
    using reg s(4,6) that one by (cases "n = 0") (auto simp: RegisterSession_Some did)
  moreover have "wg_waiters (wg m') = 0" "length (heap m') = Suc n"
    using reg s(4,5) by (auto simp: RegisterSession_Some wg_Add_def)
  moreover have "step True s ?s'" by (rule step.register [OF _ reg]) (use s(3) in simp)
  ultimately show ?case
    using s(2,3) reachable.later [OF s(1,2)] by (intro exI [of _ ?s']) simp
qed


section \<open>Goroutines and Close\<close>

text \<open>
  C16: no session leaks. As long as the ids have not wrapped, a session in the map has a reader and a
  writer goroutine, and an open connection belongs to a session in the map or to a goroutine that is
  about to close it.
\<close>

theorem sessions_are_served:
  assumes "reachable orderly s" "length (heap (mgr s)) < 2 ^ 32" "p < length (heap (mgr s))"
  shows "(sessions (mgr s) (sess_DID (heap (mgr s) ! p)) = Some p \<longrightarrow>
       (\<exists>t \<in># threads s. alive_writer p t) \<and> (\<exists>t \<in># threads s. alive_reader p t))
    \<and> (conn_open (conns (mgr s) (sess_Conn (heap (mgr s) ! p))) \<longrightarrow>
       sessions (mgr s) (sess_DID (heap (mgr s) ! p)) = Some p \<or> (\<exists>t \<in># threads s. closer p t))"
  using reachable_live_inv [OF assms(1)] assms(2,3) by (simp add: live_inv_def served_def in_map_def conn_of_def)

theorem sessions_are_served_witness:
  "sessions (mgr (run_of True (take 7 serve_run))) 1 = Some 0
   \<and> (\<exists>t \<in># threads (run_of True (take 7 serve_run)). alive_writer 0 t)
   \<and> (\<exists>t \<in># threads (run_of True (take 7 serve_run)). alive_reader 0 t)"
proof -
  have run: "length (heap (mgr (run_of True (take 7 serve_run)))) = 1"
    "sess_DID (heap (mgr (run_of True (take 7 serve_run))) ! 0) = 1"
    "sessions (mgr (run_of True (take 7 serve_run))) 1 = Some 0"
    by (simp_all add: run_of_def serve_run_def run_simps)
  from sessions_are_served [OF run_of_reachable, of True "take 7 serve_run" 0] run show ?thesis by simp
qed

text \<open>
  C17: \<open>Close\<close> returns only when every reader and every writer has finished, up to and including
  its deferred unregistration.
\<close>

theorem close_waits_for_goroutines:
  assumes "reachable orderly s" "t = CloseWait \<or> t = CloseBlocked" "exec c t (mgr s) = Some (Ret ([], m'))"
  shows "filter_mset owned (threads s) = {#}"
proof -
  have "wg_count (wg (mgr s)) = 0"
    using assms(2,3) by (auto simp: wg_Wait_def wg_woken_def split: option.splits go.splits if_splits)
  moreover have "wg_count (wg (mgr s)) = size (filter_mset owned (threads s))"
    using reachable_base_inv [OF assms(1)] by (simp add: base_inv_def wg_agrees_def)
  ultimately show ?thesis by (simp only: size_eq_0_iff_empty)
qed

theorem close_waits_for_goroutines_witness:
  "filter_mset owned (threads (run_of True closed_run)) = {#}"
  by (rule close_waits_for_goroutines [OF run_of_reachable, where t = CloseBlocked and c = True
      and m' = "(mgr (run_of True closed_run))\<lparr>wg := \<lparr>wg_count = 0, wg_waiters = 0, wg_sema = 0\<rparr>\<rparr>"])
    (simp_all add: closed_run_end wg_woken_def)

text \<open>
  C1: \<open>Close\<close> terminates. Once the context is cancelled and no further calls arrive, every
  schedule of the goroutines is shorter than the bound given by their number and the queued packets,
  and it can only end when no goroutine is left: all readers and writers have finished and every
  call of \<open>Close\<close> has returned. No schedule deadlocks, under the assumption that the dispatch
  ids have not wrapped and no session is registered during \<open>Close\<close>.
\<close>

theorem close_terminates:
  assumes "reachable True s" "ctx_done (mgr s)" "length (heap (mgr s)) < 2 ^ 32" "schedule s n s'"
  shows "n \<le> shutdown_bound s
    \<and> (threads s' = {#} \<or> (\<exists>s''. schedule s (Suc n) s''))"
proof -
  have crash: "crashed s = None" using reachable_rest_inv [OF assms(1)] by (simp add: rest_inv_def)
  note keeps = schedule_keeps [OF assms(4,1) crash assms(2)]
  have s': "reachable True s'" "base_inv s'" "live_inv s'" "ctx_done (mgr s')" "length (heap (mgr s')) < 2 ^ 32"
    "crashed s' = None"
    using keeps assms(3) reachable_base_inv reachable_live_inv by auto
  have "\<exists>s''. schedule s (Suc n) s''" if "threads s' \<noteq> {#}"
  proof -
    have "\<exists>t \<in># threads s'. exec False t (mgr s') \<noteq> None" by (rule progress [OF s'(2,3,5,4) that])
    then obtain t where t: "t \<in># threads s'" "exec False t (mgr s') \<noteq> None" by blast
    then obtain M where M: "threads s' = add_mset t M" by (blast dest: multi_member_split)
    show ?thesis
    proof (cases "exec False t (mgr s')")
      case (Some r)
      show ?thesis
      proof (cases r)
        case (Ret tm)
        then show ?thesis using schedule.schedule_Suc [OF assms(4) M] Some by (cases tm) blast
      next
        case (Panic x)
        then have "reachable True (s'\<lparr>crashed := Some x\<rparr>)"
          using reachable.later [OF s'(1,6) step.crash [OF t(1)]] Some by blast
        then show ?thesis using reachable_rest_inv by (fastforce simp: rest_inv_def)
      qed
    qed (use t in simp)
  qed
  then show ?thesis using keeps by auto
qed

theorem close_terminates_witness:
  "0 \<le> shutdown_bound (run_of True closing_run)
   \<and> (threads (run_of True closing_run) = {#} \<or> (\<exists>s''. schedule (run_of True closing_run) (Suc 0) s''))
   \<and> CloseBlocked \<in># threads (run_of True closing_run)"
proof -
  have "length (heap (mgr (run_of True closing_run))) < 2 ^ 32" by (simp add: closing_run_end)
  from close_terminates [OF run_of_reachable closing_run_end(1) this schedule.schedule_0] closing_run_end(3) [of True]
  show ?thesis by blast
qed

text \<open>A session out of the map that nobody is closing: its callback never runs from there on.\<close>

definition abandoned :: "nat \<Rightarrow> system \<Rightarrow> bool" where
  "abandoned p s \<longleftrightarrow> p < length (heap (mgr s)) \<and> \<not> in_map (mgr s) p \<and> p \<notin> fst ` set (closeLog (mgr s))
     \<and> (\<forall>t \<in># threads s. \<not> is_mark p t \<and> \<not> is_unconn p t)"

lemma run_abandoned:
  assumes ab: "abandoned p s" and map: "map_ok (mgr s)" and t: "threads s = add_mset t M"
    and ex: "exec c t (mgr s) = Some (Ret (ts, m'))"
  shows "abandoned p (s\<lparr>mgr := m', threads := mset ts + M\<rparr>)"
proof -
  have "\<not> (\<exists>d ow. t = Unreg d ow \<and> sessions (mgr s) d = Some p)"
    using ab map by (auto simp: abandoned_def in_map_def map_ok_def)
  then have "filter (is_mark p) ts = []" using exec_marks [OF ex, of p] by (simp only: of_bool_eq length_0_conv)
  moreover have "filter (is_unconn p) ts = []" using exec_unconns [OF ex, of p] ab t by (simp add: abandoned_def)
  moreover have "p \<notin> fst ` set (closeLog m')"
    using exec_closeLog [OF ex] ab t by (cases t) (auto simp: abandoned_def)
  moreover have "\<not> in_map m' p" using exec_in_map [OF ex, of p] ab by (auto simp: abandoned_def)
  ultimately show ?thesis
    using ab t exec_heap [OF ex] by (auto simp: abandoned_def filter_empty_conv)
qed

lemma step_abandoned: "step orderly s s' \<Longrightarrow> base_inv s \<Longrightarrow> abandoned p s \<Longrightarrow> abandoned p s'"
proof (induction rule: step.induct)
  case (run s t M c ts m')
  then show ?case using run_abandoned by (simp add: base_inv_def)
next
  case (register s k r ts m')
  then show ?case by (auto simp: abandoned_def RegisterSession_Some in_map_def nth_append split: if_splits)
qed (auto simp: abandoned_def in_map_def SetOnClose_def SetControlCallback_def)

text \<open>
  C33: \<open>Close\<close> does not run the close callback for the sessions it closes. For every session that
  is in the map when \<open>Close\<close> takes the map over, the callback is not called then or at any later
  time, although the connection is closed.
\<close>

theorem close_skips_callback:
  assumes "reachable orderly s" "threads s = add_mset CloseSwap M" "sessions (mgr s) d = Some p"
    "exec c CloseSwap (mgr s) = Some (Ret (ts, m'))"
    "rtranclp (step orderly) (s\<lparr>mgr := m', threads := mset ts + M\<rparr>) s'"
  shows "p \<notin> fst ` set (closeLog (mgr s'))"
proof -
  let ?s1 = "s\<lparr>mgr := m', threads := mset ts + M\<rparr>"
  have base: "base_inv s" and once: "once_inv s"
    using assms(1) reachable_base_inv reachable_once_inv by blast+
  have p: "p < length (heap (mgr s))" "in_map (mgr s) p"
    using base assms(3) by (auto simp: base_inv_def map_ok_def in_map_def)
  have swap: "m' = (mgr s)\<lparr>sessions := Map.empty\<rparr>" "ts = [CloseConns (active_sessions (mgr s))]"
    using assms(4) by auto
  have open_sess: "\<not> closeOnce (heap (mgr s) ! p)" "filter_mset (is_mark p) (threads s) = {#}"
    using once p by (auto simp: once_inv_def close_tokens_def simp flip: size_eq_0_iff_empty)
  then have none: "filter_mset (is_unconn p) (threads s) = {#}" "count_list (map fst (closeLog (mgr s))) p = 0"
    using once p by (auto simp: once_inv_def call_tokens_def simp flip: size_eq_0_iff_empty)
  have ab: "abandoned p ?s1"
    using p(1) open_sess(2) none
    by (auto simp: abandoned_def swap in_map_def assms(2) filter_mset_eq_mempty_iff count_list_0_iff image_iff)
  have base1: "base_inv ?s1" using run_base_inv [OF base assms(2,4)] .
  from assms(5) have "base_inv s' \<and> abandoned p s'"
    by (induction rule: rtranclp_induct) (use ab base1 in \<open>blast intro: step_base_inv step_abandoned\<close>)+
  then show ?thesis by (simp add: abandoned_def)
qed

theorem close_skips_callback_witness:
  "\<exists>s s'. reachable True s \<and> onClose (mgr s) \<and> sessions (mgr s) 1 = Some 0 \<and> 0 \<notin> fst ` set (closeLog (mgr s'))
     \<and> step True s s' \<and> sessions (mgr s') = Map.empty"
proof -
  let ?s = "run_of True [OnClose True, Register 4, CallClose, Go 2 False]"
  let ?m' = "(mgr ?s)\<lparr>sessions := Map.empty\<rparr>" and ?ts = "[CloseConns (active_sessions (mgr ?s))]"
  let ?s' = "?s\<lparr>mgr := ?m', threads := mset ?ts + mset [RLoop 0, WLoop 0]\<rparr>"
  have s: "threads ?s = add_mset CloseSwap (mset [RLoop 0, WLoop 0])" "sessions (mgr ?s) 1 = Some 0" "onClose (mgr ?s)"
    by (simp_all add: run_of_def run_simps)
  have ex: "exec False CloseSwap (mgr ?s) = Some (Ret (?ts, ?m'))" by simp
  have "0 \<notin> fst ` set (closeLog (mgr ?s'))"
    by (rule close_skips_callback [OF run_of_reachable s(1,2) ex rtranclp.rtrancl_refl])
  moreover have "step True ?s ?s'" by (rule step.run [OF s(1) ex])
  ultimately show ?thesis
    using s run_of_reachable [of True] by (intro exI [of _ ?s] exI [of _ ?s']) simp
qed

end
