(* ===== verification/Dispatcher.thy ===== *)
theory Dispatcher
  imports Interfaces
begin

text \<open>
  \<^verbatim>\<open>src/controlcenter/abi.go\<close> and \<^verbatim>\<open>src/controlcenter/dispatcher.go\<close>: the
  parameter reader of the ABI, the response record and its encoding, and the table of system
  calls. A handler may act on the rest of the daemon, so it is a function on a world of type
  \<open>'w\<close> that it returns updated. The read-write mutex makes each table access atomic and
  is held for the map access only, so the operations below are the atomic steps.
\<close>

section \<open>Status codes\<close>

definition Success :: uint16 where "Success = 0x0000"
definition ErrInvalidArgs :: uint16 where "ErrInvalidArgs = 0x1001"
definition ErrAuthFailed :: uint16 where "ErrAuthFailed = 0x1002"
definition ErrUnknownOpcode :: uint16 where "ErrUnknownOpcode = 0x1003"
definition ErrTooManyRequests :: uint16 where "ErrTooManyRequests = 0x1004"
definition ErrInvalidKey :: uint16 where "ErrInvalidKey = 0x2001"
definition ErrPeerTimeout :: uint16 where "ErrPeerTimeout = 0x2002"
definition ErrInternalDaemon :: uint16 where "ErrInternalDaemon = 0x5000"

lemmas status_code_defs = Success_def ErrInvalidArgs_def ErrAuthFailed_def ErrUnknownOpcode_def
  ErrTooManyRequests_def ErrInvalidKey_def ErrPeerTimeout_def ErrInternalDaemon_def

section \<open>Length-prefixed parameters\<close>

text \<open>The parameter, the unparsed rest and the status.\<close>

definition ReadBytesParam :: "bytes \<Rightarrow> bytes \<times> bytes \<times> uint16" where
  "ReadBytesParam payload =
     (if length payload < 2 then ([], payload, ErrInvalidArgs)
      else let paramLen = unat (Uint16 (take 2 payload))
           in if length payload < 2 + paramLen then ([], payload, ErrInvalidArgs)
              else (slice 2 (2 + paramLen) payload, drop (2 + paramLen) payload, Success))"

section \<open>Responses\<close>

record IpcResponse =
  StatusCode :: uint16
  resp_Opcode :: uint16
  Payload :: bytes
  resp_DID :: DID

definition Encode :: "IpcResponse \<Rightarrow> bytes" where
  "Encode r = PutUint16 (resp_Opcode r) @ PutUint16 (StatusCode r) @ Payload r"

section \<open>The system call table\<close>

type_synonym 'w SyscallHandler = "DID \<Rightarrow> bytes \<Rightarrow> 'w \<Rightarrow> (bytes \<times> uint16) go \<times> 'w"

text \<open>A nil handler is \<open>None\<close>; so is a nil table.\<close>

record 'w SyscallDescriptor =
  desc_Opcode :: uint16
  Name :: string
  Handler :: "'w SyscallHandler option"

record 'w Dispatcher =
  syscalls :: "(uint16 \<rightharpoonup> 'w SyscallDescriptor) option"

datatype dispatch_error = ErrAlreadyRegistered | ErrNilDispatcher

definition NewDispatcher :: "'w Dispatcher" where
  "NewDispatcher = \<lparr>syscalls = Some Map.empty\<rparr>"

text \<open>Reading a nil map finds nothing.\<close>

definition syscall_lookup :: "'w Dispatcher \<Rightarrow> uint16 \<Rightarrow> 'w SyscallDescriptor option" where
  "syscall_lookup d opcode = (case syscalls d of None \<Rightarrow> None | Some m \<Rightarrow> m opcode)"

definition RegisterSysCall ::
  "uint16 \<Rightarrow> 'w SyscallDescriptor \<Rightarrow> 'w Dispatcher \<Rightarrow> dispatch_error option \<times> 'w Dispatcher" where
  "RegisterSysCall opcode descriptor d =
     (let table = (case syscalls d of None \<Rightarrow> Map.empty | Some m \<Rightarrow> m)
      in if table opcode \<noteq> None then (Some ErrAlreadyRegistered, d\<lparr>syscalls := Some table\<rparr>)
         else (None, d\<lparr>syscalls := Some (table(opcode \<mapsto> descriptor))\<rparr>))"

definition DispatchSysCall ::
  "'w Dispatcher \<Rightarrow> DID \<Rightarrow> uint16 \<Rightarrow> bytes \<Rightarrow> 'w \<Rightarrow> IpcResponse go \<times> 'w" where
  "DispatchSysCall d did opcode payload w =
     (case syscall_lookup d opcode of
        None \<Rightarrow>
          (Ret \<lparr>StatusCode = ErrUnknownOpcode, resp_Opcode = opcode, Payload = [], resp_DID = did\<rparr>, w)
      | Some descriptor \<Rightarrow>
          (case Handler descriptor of
             None \<Rightarrow> (Panic NilCall, w)
           | Some handler \<Rightarrow>
               (case handler did payload w of
                  (Panic p, w') \<Rightarrow> (Panic p, w')
                | (Ret (resPayload, statusCode), w') \<Rightarrow>
                    (Ret \<lparr>StatusCode = statusCode, resp_Opcode = opcode, Payload = resPayload,
                          resp_DID = did\<rparr>, w'))))"

section \<open>A write-once table\<close>

text \<open>
  The contract of the table as its users see it: registering a free key binds it, registering a
  bound key is refused and changes nothing.
\<close>

locale write_once_table =
  fixes register :: "'k \<Rightarrow> 'v \<Rightarrow> 't \<Rightarrow> 'e option \<times> 't"
    and lookup :: "'t \<Rightarrow> 'k \<Rightarrow> 'v option"
  assumes register_free: "lookup t k = None \<Longrightarrow>
      fst (register k v t) = None \<and> lookup (snd (register k v t)) = (lookup t)(k \<mapsto> v)"
    and register_bound: "lookup t k \<noteq> None \<Longrightarrow>
      fst (register k v t) \<noteq> None \<and> lookup (snd (register k v t)) = lookup t"
begin

lemma register_ok_iff: "fst (register k v t) = None \<longleftrightarrow> lookup t k = None"
  using register_free register_bound by metis

lemma lookup_register:
  "lookup (snd (register k v t)) j = (if lookup t k = None \<and> j = k then Some v else lookup t j)"
  using register_free [of t k v] register_bound [of t k v] by (cases "lookup t k") auto

lemma binding_kept: "lookup t j = Some v \<Longrightarrow> lookup (snd (register k w t)) j = Some v"
  by (auto simp: lookup_register)

text \<open>A sequence of registrations: the first one for a key wins.\<close>

lemma lookup_register_fold:
  "lookup (fold (\<lambda>(k, v) t. snd (register k v t)) es t) j =
     (case lookup t j of Some v \<Rightarrow> Some v | None \<Rightarrow> map_of es j)"
  by (induction es arbitrary: t) (auto simp: lookup_register split: option.splits)

end

interpretation table: write_once_table RegisterSysCall syscall_lookup
  by unfold_locales
    (auto simp: RegisterSysCall_def syscall_lookup_def Let_def fun_eq_iff split: option.splits if_splits)

lemma syscall_lookup_new [simp]: "syscall_lookup NewDispatcher op = None"
  by (simp add: syscall_lookup_def NewDispatcher_def)

section \<open>Properties\<close>

lemma ReadBytesParam_short: "length payload < 2 \<Longrightarrow> ReadBytesParam payload = ([], payload, ErrInvalidArgs)"
  by (simp add: ReadBytesParam_def)

lemma unat_of_nat_uint16: "n < 65536 \<Longrightarrow> unat (of_nat n :: uint16) = n"
  by (simp add: unat_of_nat)

lemma ReadBytesParam_cases:
  "(case ReadBytesParam payload of (param, rest, status) \<Rightarrow>
      status = Success \<and> payload = PutUint16 (of_nat (length param)) @ param @ rest
        \<and> length param < 65536
    \<or> status = ErrInvalidArgs \<and> param = [] \<and> rest = payload
        \<and> (length payload < 2 \<or> length payload < 2 + unat (Uint16 payload)))"
proof (cases "length payload < 2 + unat (Uint16 payload) \<or> length payload < 2")
  case True
  then show ?thesis by (auto simp: ReadBytesParam_def Let_def)
next
  case False
  let ?n = "unat (Uint16 payload)"
  have "payload = take 2 payload @ slice 2 (2 + ?n) payload @ drop (2 + ?n) payload"
    by (simp add: take_slice_drop)
  moreover have "take 2 payload = PutUint16 (Uint16 payload)"
    using False by (simp add: PutUint16_Uint16_take)
  moreover have "?n \<le> length payload - 2" using False by arith
  then have "length (slice 2 (2 + ?n) payload) = ?n" by simp
  ultimately show ?thesis
    using False unat_uint16_less [of "Uint16 payload"] by (simp add: ReadBytesParam_def Let_def)
qed

text \<open>
  The parameter reader inverts the wire form: a parameter of at most 65535 bytes, prefixed by
  its length and followed by anything, is returned exactly, with the bytes that follow as the rest.
\<close>

theorem read_bytes_param_round_trip:
  assumes "length param < 65536"
  shows "ReadBytesParam (PutUint16 (of_nat (length param)) @ param @ rest) = (param, rest, Success)"
  using assms by (simp add: ReadBytesParam_def unat_of_nat_uint16 slice_append_mid Let_def)

theorem read_bytes_param_round_trip_witness:
  "ReadBytesParam (PutUint16 (of_nat (length [1, 2, 3 :: byte])) @ [1, 2, 3] @ [9]) = ([1, 2, 3], [9], Success)"
  by (rule read_bytes_param_round_trip) simp

text \<open>
  The parameter reader on every input: either it succeeds, and the input is the big-endian
  length of the parameter, the parameter and the rest; or it fails with \<open>ErrInvalidArgs\<close>, no
  parameter and the input untouched, exactly when the input is shorter than the prefix or than what
  the prefix announces.
\<close>

theorem read_bytes_param_sound:
  "(case ReadBytesParam payload of (param, rest, status) \<Rightarrow>
      status = Success \<and> payload = PutUint16 (of_nat (length param)) @ param @ rest
        \<and> length param < 65536
    \<or> status = ErrInvalidArgs \<and> param = [] \<and> rest = payload
        \<and> (length payload < 2 \<or> length payload < 2 + unat (Uint16 payload)))"
  by (rule ReadBytesParam_cases)

text \<open>
  The system call table is write-once: after any sequence of registrations a system call is
  bound to the first descriptor registered for it, on a fresh dispatcher exactly the association
  list's first match.
\<close>

theorem first_registration_wins:
  "syscall_lookup (fold (\<lambda>(k, desc) d. snd (RegisterSysCall k desc d)) es NewDispatcher) op = map_of es op"
  by (simp add: table.lookup_register_fold)

text \<open>
  Dispatching: every response that is produced carries the opcode and the dispatch id of the
  request; an unbound opcode is answered with \<open>ErrUnknownOpcode\<close>, no payload and no effect;
  a bound one with exactly its handler's payload, status and effect.
\<close>

theorem dispatch_behaviour:
  "case DispatchSysCall d did op payload w of
     (Ret r, w') \<Rightarrow> resp_Opcode r = op \<and> resp_DID r = did
       \<and> (case syscall_lookup d op of
            None \<Rightarrow> StatusCode r = ErrUnknownOpcode \<and> Payload r = [] \<and> w' = w
          | Some desc \<Rightarrow> \<exists>h. Handler desc = Some h \<and> h did payload w = (Ret (Payload r, StatusCode r), w'))
   | (Panic p, w') \<Rightarrow>
       \<exists>desc. syscall_lookup d op = Some desc
         \<and> (Handler desc = None \<and> p = NilCall \<and> w' = w
            \<or> (\<exists>h. Handler desc = Some h \<and> h did payload w = (Panic p, w')))"
  by (auto simp: DispatchSysCall_def split: option.splits go.splits prod.splits)

text \<open>The response encoding loses nothing but the dispatch id.\<close>

theorem encode_injective:
  "Encode r = Encode r' \<longleftrightarrow>
     resp_Opcode r = resp_Opcode r' \<and> StatusCode r = StatusCode r' \<and> Payload r = Payload r'"
  by (auto simp: Encode_def)

end
