(* ===== verification/GoBase64.thy ===== *)
theory GoBase64
  imports Prelude
begin

text \<open>
  \<^verbatim>\<open>base64.RawURLEncoding\<close> of the Go standard library as the invite key code uses it:
  the URL alphabet, no padding, and a decoder that skips carriage returns and line feeds and does
  not check the unused trailing bits. The decoder reports the input offset of the first corrupt
  byte, as \<^verbatim>\<open>CorruptInputError\<close> does.
\<close>

section \<open>Alphabet\<close>

definition alphabet :: string where
  "alphabet = ''ABCDEFGHIJKLMNOPQRSTUVWXYZabcdefghijklmnopqrstuvwxyz0123456789-_''"

text \<open>The symbol of a six bit value and the decoding table.\<close>

definition b64_char :: "nat \<Rightarrow> char" where
  "b64_char d = alphabet ! (d mod 64)"

fun index_of :: "'a \<Rightarrow> 'a list \<Rightarrow> nat option" where
  "index_of x [] = None"
| "index_of x (y # ys) = (if x = y then Some 0 else map_option Suc (index_of x ys))"

definition decodeMap :: "char \<Rightarrow> nat option" where
  "decodeMap c = index_of c alphabet"

section \<open>Encoding\<close>

definition pack3 :: "byte \<Rightarrow> byte \<Rightarrow> byte \<Rightarrow> nat" where
  "pack3 a b c = unat a * 65536 + unat b * 256 + unat c"

fun EncodeToString :: "bytes \<Rightarrow> string" where
  "EncodeToString [] = []"
| "EncodeToString [a] =
     (let v = pack3 a 0 0 in [b64_char (v div 262144), b64_char (v div 4096)])"
| "EncodeToString [a, b] =
     (let v = pack3 a b 0 in
      [b64_char (v div 262144), b64_char (v div 4096), b64_char (v div 64)])"
| "EncodeToString (a # b # c # r) =
     (let v = pack3 a b c in
      b64_char (v div 262144) # b64_char (v div 4096) # b64_char (v div 64) # b64_char v #
      EncodeToString r)"

section \<open>Decoding\<close>

text \<open>The bytes of a group of two, three or four six bit values.\<close>

definition val_bytes :: "nat \<Rightarrow> bytes" where
  "val_bytes v = [of_nat (v div 65536), of_nat (v div 256), of_nat v]"

fun quantum_bytes :: "nat list \<Rightarrow> bytes" where
  "quantum_bytes [d0, d1] = take 1 (val_bytes (d0 * 262144 + d1 * 4096))"
| "quantum_bytes [d0, d1, d2] = take 2 (val_bytes (d0 * 262144 + d1 * 4096 + d2 * 64))"
| "quantum_bytes [d0, d1, d2, d3] = val_bytes (d0 * 262144 + d1 * 4096 + d2 * 64 + d3)"
| "quantum_bytes _ = []"

text \<open>
  \<open>decode_from si ds s\<close> decodes the rest \<open>s\<close> of the input, whose first byte has
  offset \<open>si\<close>, with the values \<open>ds\<close> of the current group already read.
\<close>

fun decode_from :: "nat \<Rightarrow> nat list \<Rightarrow> string \<Rightarrow> nat + bytes" where
  "decode_from si ds [] =
     (if ds = [] then Inr []
      else if length ds = 1 then Inl (si - 1)
      else Inr (quantum_bytes ds))"
| "decode_from si ds (c # cs) =
     (case decodeMap c of
        Some d \<Rightarrow>
          if length ds = 3
          then map_sum id (append (quantum_bytes (ds @ [d]))) (decode_from (Suc si) [] cs)
          else decode_from (Suc si) (ds @ [d]) cs
      | None \<Rightarrow>
          if c = CHR 0x0A \<or> c = CHR 0x0D then decode_from (Suc si) ds cs else Inl si)"

definition DecodeString :: "string \<Rightarrow> nat + bytes" where
  "DecodeString s = decode_from 0 [] s"

section \<open>Laws of the alphabet\<close>

lemma length_alphabet [simp]: "length alphabet = 64"
  by (simp add: alphabet_def)

lemma distinct_alphabet: "distinct alphabet"
  by code_simp

lemma index_of_nth: "distinct xs \<Longrightarrow> i < length xs \<Longrightarrow> index_of (xs ! i) xs = Some i"
proof (induction xs arbitrary: i)
  case (Cons x xs)
  then show ?case
  proof (cases i)
    case (Suc j)
    with Cons.prems have "xs ! j \<in> set xs" by simp
    with Cons.prems have "xs ! j \<noteq> x" by auto
    with Suc Cons show ?thesis by simp
  qed simp
qed simp

lemma index_of_Some: "index_of x xs = Some i \<Longrightarrow> i < length xs \<and> xs ! i = x"
  by (induction xs arbitrary: i) (auto split: if_splits)

lemma decodeMap_b64_char [simp]: "decodeMap (b64_char d) = Some (d mod 64)"
  by (simp add: decodeMap_def b64_char_def index_of_nth distinct_alphabet)

lemma decodeMap_less: "decodeMap c = Some d \<Longrightarrow> d < 64"
  by (auto simp: decodeMap_def dest: index_of_Some)

lemma b64_char_in: "b64_char d \<in> set alphabet"
  by (simp add: b64_char_def)

lemma set_EncodeToString: "set (EncodeToString bs) \<subseteq> set alphabet"
  by (induction bs rule: EncodeToString.induct) (auto simp: b64_char_in Let_def)

lemma bar_not_in_alphabet: "CHR ''|'' \<notin> set alphabet"
  by code_simp

lemma bar_not_in_encoding [simp]: "CHR ''|'' \<notin> set (EncodeToString bs)"
  using set_EncodeToString bar_not_in_alphabet by blast

lemma length_EncodeToString [simp]: "length (EncodeToString bs) = (length bs * 8 + 5) div 6"
  by (induction bs rule: EncodeToString.induct) (simp_all add: Let_def)

section \<open>Decoding inverts encoding\<close>

text \<open>The four digits of a 24 bit value and the value of four digits.\<close>

lemma digits_val:
  "v < 16777216 \<Longrightarrow>
   v div 262144 mod 64 * 262144 + v div 4096 mod 64 * 4096 + v div 64 mod 64 * 64 + v mod 64 = (v::nat)"
proof -
  assume "v < 16777216"
  then have top: "v div 262144 mod 64 = v div 262144" by simp
  have "v div 64 * 64 + v mod 64 = v" by simp
  moreover have "v div 4096 * 64 + v div 64 mod 64 = v div 64"
    using div_mult_mod_eq [of "v div 64" 64] by (simp add: div_mult2_eq [symmetric])
  moreover have "v div 262144 * 64 + v div 4096 mod 64 = v div 4096"
    using div_mult_mod_eq [of "v div 4096" 64] by (simp add: div_mult2_eq [symmetric])
  ultimately show ?thesis using top by linarith
qed

lemma pack3_less: "pack3 a b c < 16777216"
proof -
  have "unat a \<le> 255" "unat b \<le> 255" "unat c \<le> 255"
    using unat_byte_less [of a] unat_byte_less [of b] unat_byte_less [of c] by simp_all
  then show ?thesis unfolding pack3_def by linarith
qed

lemma val_bytes_pack3: "val_bytes (pack3 a b c) = [a, b, c]"
proof -
  have lt: "unat a < 256" "unat b < 256" "unat c < 256" by (rule unat_byte_less)+
  then have hi: "pack3 a b c div 65536 = unat a" and mid: "pack3 a b c div 256 = unat a * 256 + unat b"
    unfolding pack3_def by linarith+
  have lo: "pack3 a b c mod 256 = unat c"
    using lt by (simp add: pack3_def mod_add_eq [symmetric] mod_mult_right_eq [symmetric])
  have "of_nat (unat a * 256 + unat b) = b"
    using lt by (intro byte_of_nat_eqI) simp
  with hi mid lo show ?thesis
    by (simp add: val_bytes_def byte_of_nat_eqI del: of_nat_add of_nat_mult)
qed

lemma pack3_low_zero:
  "pack3 a 0 0 div 64 mod 64 = 0" "pack3 a 0 0 mod 64 = 0" "pack3 a b 0 mod 64 = 0"
  by (simp_all add: pack3_def mod_add_eq [symmetric])

lemma decode_group [simp]:
  "decode_from si [] (b64_char d0 # b64_char d1 # b64_char d2 # b64_char d3 # cs) =
     map_sum id (append (quantum_bytes [d0 mod 64, d1 mod 64, d2 mod 64, d3 mod 64]))
       (decode_from (Suc (Suc (Suc (Suc si)))) [] cs)"
  by simp

lemma decode_from_encode: "decode_from si [] (EncodeToString bs) = Inr bs"
proof (induction bs arbitrary: si rule: EncodeToString.induct)
  case 1
  show ?case by simp
next
  case (2 a)
  have "val_bytes (pack3 a 0 0) = [a, 0, 0]" by (rule val_bytes_pack3)
  with digits_val [OF pack3_less, of a 0 0] pack3_less [of a 0 0] show ?case
    by (simp add: Let_def pack3_low_zero)
next
  case (3 a b)
  have "val_bytes (pack3 a b 0) = [a, b, 0]" by (rule val_bytes_pack3)
  with digits_val [OF pack3_less, of a b 0] pack3_less [of a b 0] show ?case
    by (simp add: Let_def pack3_low_zero)
next
  case (4 a b c r)
  with digits_val [OF pack3_less, of a b c] pack3_less [of a b c] show ?case
    by (simp add: Let_def val_bytes_pack3)
qed

lemma DecodeString_EncodeToString [simp]: "DecodeString (EncodeToString bs) = Inr bs"
  by (simp add: DecodeString_def decode_from_encode)

end
