(* ===== verification/InviteKeyV1.thy ===== *)
theory InviteKeyV1
  imports GoBase64
begin

text \<open>
  Version 1 invite keys: \<^verbatim>\<open>src/invitekey/key_generator_v1.go\<close> and
  \<^verbatim>\<open>src/invitekey/key_parser_v1.go\<close>. Ed25519 is a parameter of the model (the record
  \<open>ed25519\<close>); the length checks and copies that the Go wrappers perform around it are
  written out. An X25519 public key is its byte string.
\<close>

section \<open>Errors\<close>

text \<open>Every error value the package returns; \<open>ForeignErr\<close> is an error of an implementation of
  the generator or parser interface that is not in this package.\<close>

datatype key_error =
    PeerAddrEmpty
  | PeerIdentityNil
  | SigningKeyEmpty
  | InvalidKeyPrefix
  | KeyTooShort
  | MissingSigSeparator
  | SigDecode nat
  | SigSize nat
  | MissingEdSeparator
  | MissingXSeparator
  | EdDecode nat
  | EdSize nat
  | XDecode nat
  | SigVerification
  | EcdhKey
  | NoGenerator uint32
  | MissingPrefixSeparator
  | UnsupportedPrefix string
  | NoParser uint32
  | ForeignErr string

definition CorruptInputError :: "nat \<Rightarrow> string" where
  "CorruptInputError off = ''illegal base64 data at input byte '' @ show_nat off"

text \<open>\<^verbatim>\<open>err.Error()\<close>.\<close>

primrec key_error_text :: "key_error \<Rightarrow> string" where
  "key_error_text PeerAddrEmpty = ''peer address is empty''"
| "key_error_text PeerIdentityNil = ''peer identity public key is nil''"
| "key_error_text SigningKeyEmpty = ''signing private key is empty''"
| "key_error_text InvalidKeyPrefix = ''invalid key prefix''"
| "key_error_text KeyTooShort = ''invite key is too short''"
| "key_error_text MissingSigSeparator = ''invalid format: missing signature separator''"
| "key_error_text (SigDecode off) = ''failed to decode signature: '' @ CorruptInputError off"
| "key_error_text (SigSize n) = ''invalid signature size: expected 64, got '' @ show_nat n"
| "key_error_text MissingEdSeparator = ''invalid payload: missing ed25519 key separator''"
| "key_error_text MissingXSeparator = ''invalid payload: missing x25519 key separator''"
| "key_error_text (EdDecode off) = ''failed to decode ed25519 key: '' @ CorruptInputError off"
| "key_error_text (EdSize n) = ''invalid ed25519 key size: expected 32, got '' @ show_nat n"
| "key_error_text (XDecode off) = ''failed to decode x25519 key: '' @ CorruptInputError off"
| "key_error_text SigVerification = ''tampering detected: signature verification failed''"
| "key_error_text EcdhKey = ''failed to parse ecdh public key: crypto/ecdh: invalid public key''"
| "key_error_text (NoGenerator v) = ''key generator not registered for version: '' @ show_nat (unat v)"
| "key_error_text MissingPrefixSeparator = ''invalid key format: missing prefix separator''"
| "key_error_text (UnsupportedPrefix p) = ''unsupported key prefix: '' @ p"
| "key_error_text (NoParser v) = ''no parser registered for version: '' @ show_nat (unat v)"
| "key_error_text (ForeignErr s) = s"

section \<open>Ed25519\<close>

text \<open>
  The curve operations: signing with a private key, verification with a public key and the public
  key of a seed.
\<close>

record ed25519 =
  ed_sign :: "bytes \<Rightarrow> bytes \<Rightarrow> bytes"
  ed_verify :: "bytes \<Rightarrow> bytes \<Rightarrow> bytes \<Rightarrow> bool"
  ed_derive :: "bytes \<Rightarrow> bytes"

text \<open>A private key as \<^verbatim>\<open>ed25519.NewKeyFromSeed\<close> lays it out: the seed and its public key.\<close>

definition ed_private :: "ed25519 \<Rightarrow> bytes \<Rightarrow> bool" where
  "ed_private E priv \<longleftrightarrow> length priv = 64 \<and> drop 32 priv = ed_derive E (take 32 priv)"

text \<open>What the documentation promises: signatures have 64 bytes, and a signature made with a
  private key verifies under its public key.\<close>

definition ed25519_correct :: "ed25519 \<Rightarrow> bool" where
  "ed25519_correct E \<longleftrightarrow>
     (\<forall>priv msg. ed_private E priv \<longrightarrow>
        length (ed_sign E priv msg) = 64 \<and> ed_verify E (drop 32 priv) msg (ed_sign E priv msg))"

text \<open>\<^verbatim>\<open>PrivateKey.Public\<close> copies \<^verbatim>\<open>priv[32:]\<close> into a zeroed array of 32 bytes.\<close>

definition ed25519_Public :: "bytes \<Rightarrow> bytes go" where
  "ed25519_Public priv =
     (if length priv < 32 then Panic SliceBounds
      else Ret (take 32 (drop 32 priv @ replicate 32 0)))"

definition ed25519_Sign :: "ed25519 \<Rightarrow> bytes \<Rightarrow> bytes \<Rightarrow> bytes go" where
  "ed25519_Sign E priv msg = (if length priv \<noteq> 64 then Panic BadKeyLength else Ret (ed_sign E priv msg))"

definition ed25519_Verify :: "ed25519 \<Rightarrow> bytes \<Rightarrow> bytes \<Rightarrow> bytes \<Rightarrow> bool go" where
  "ed25519_Verify E pub msg sig =
     (if length pub \<noteq> 32 then Panic BadKeyLength else Ret (length sig = 64 \<and> ed_verify E pub msg sig))"

section \<open>Generator\<close>

record KeyGeneratorV1 =
  gen_prefix :: string
  peerIdentity :: "bytes option"
  peerAddr :: string
  signingKey :: bytes

definition NewKeyGeneratorV1 :: "bytes option \<Rightarrow> string \<Rightarrow> bytes \<Rightarrow> KeyGeneratorV1" where
  "NewKeyGeneratorV1 pid addr sk =
     \<lparr>gen_prefix = ''gota1'', peerIdentity = pid, peerAddr = addr, signingKey = sk\<rparr>"

definition key_payload :: "string \<Rightarrow> bytes \<Rightarrow> bytes \<Rightarrow> string" where
  "key_payload addr x ed = addr @ ''|'' @ EncodeToString x @ ''|'' @ EncodeToString ed"

definition GenerateKeyV1 :: "ed25519 \<Rightarrow> KeyGeneratorV1 \<Rightarrow> (key_error + string) go" where
  "GenerateKeyV1 E kg =
     (if peerAddr kg = [] then Ret (Inl PeerAddrEmpty)
      else case peerIdentity kg of
        None \<Rightarrow> Ret (Inl PeerIdentityNil)
      | Some pubKeyBytes \<Rightarrow>
          if length (signingKey kg) = 0 then Ret (Inl SigningKeyEmpty)
          else case ed25519_Public (signingKey kg) of
            Panic p \<Rightarrow> Panic p
          | Ret verifyingPubKey \<Rightarrow>
              let payload = key_payload (peerAddr kg) pubKeyBytes verifyingPubKey
              in case ed25519_Sign E (signingKey kg) (str_bytes payload) of
                Panic p \<Rightarrow> Panic p
              | Ret sigBytes \<Rightarrow>
                  Ret (Inr (gen_prefix kg @ ''-'' @ payload @ ''-'' @ EncodeToString sigBytes)))"

section \<open>Parser\<close>

record KeyParserV1 =
  parser_prefix :: string

definition NewKeyParserV1 :: KeyParserV1 where
  "NewKeyParserV1 = \<lparr>parser_prefix = ''gota1''\<rparr>"

definition HasPrefix :: "string \<Rightarrow> string \<Rightarrow> bool" where
  "HasPrefix s p \<longleftrightarrow> take (length p) s = p"

text \<open>\<^verbatim>\<open>strings.LastIndex\<close> for a one byte separator; \<open>None\<close> is \<open>-1\<close>.\<close>

fun LastIndex :: "string \<Rightarrow> char \<Rightarrow> nat option" where
  "LastIndex [] c = None"
| "LastIndex (x # xs) c =
     (case LastIndex xs c of
        Some i \<Rightarrow> Some (Suc i)
      | None \<Rightarrow> if x = c then Some 0 else None)"

text \<open>The second half of \<^verbatim>\<open>ParseKey\<close>: the fields of the payload, the keys and the signature.\<close>

definition parse_payload :: "ed25519 \<Rightarrow> string \<Rightarrow> bytes \<Rightarrow> (key_error + bytes \<times> string) go" where
  "parse_payload E payload sigBytes =
     (case LastIndex payload CHR ''|'' of
        None \<Rightarrow> Ret (Inl MissingEdSeparator)
      | Some idxEd \<Rightarrow>
          let encodedEd25519 = drop (idxEd + 1) payload; remainingPayload = take idxEd payload
          in case LastIndex remainingPayload CHR ''|'' of
            None \<Rightarrow> Ret (Inl MissingXSeparator)
          | Some idxX \<Rightarrow>
              let encodedX25519 = drop (idxX + 1) remainingPayload;
                  addr = take idxX remainingPayload
              in if addr = [] then Ret (Inl PeerAddrEmpty)
                 else case DecodeString encodedEd25519 of
                   Inl off \<Rightarrow> Ret (Inl (EdDecode off))
                 | Inr ed25519Bytes \<Rightarrow>
                     if length ed25519Bytes \<noteq> 32 then Ret (Inl (EdSize (length ed25519Bytes)))
                     else case DecodeString encodedX25519 of
                       Inl off \<Rightarrow> Ret (Inl (XDecode off))
                     | Inr x25519Bytes \<Rightarrow>
                         (case ed25519_Verify E ed25519Bytes (str_bytes payload) sigBytes of
                            Panic p \<Rightarrow> Panic p
                          | Ret verified \<Rightarrow>
                              if \<not> verified then Ret (Inl SigVerification)
                              else if length x25519Bytes \<noteq> 32 then Ret (Inl EcdhKey)
                              else Ret (Inr (x25519Bytes, addr))))"

definition ParseKeyV1 :: "ed25519 \<Rightarrow> KeyParserV1 \<Rightarrow> string \<Rightarrow> (key_error + bytes \<times> string) go" where
  "ParseKeyV1 E kp keyStr =
     (let prefixDash = parser_prefix kp @ ''-'' in
      if \<not> HasPrefix keyStr prefixDash then Ret (Inl InvalidKeyPrefix)
      else if length keyStr < 182 then Ret (Inl KeyTooShort)
      else let sigStart = length keyStr - 86; dashIdx = sigStart - 1 in
           if keyStr ! dashIdx \<noteq> CHR ''-'' then Ret (Inl MissingSigSeparator)
           else case go_slice (length prefixDash) dashIdx keyStr of
             Panic p \<Rightarrow> Panic p
           | Ret payload \<Rightarrow>
               (case DecodeString (drop sigStart keyStr) of
                  Inl off \<Rightarrow> Ret (Inl (SigDecode off))
                | Inr sigBytes \<Rightarrow>
                    if length sigBytes \<noteq> 64 then Ret (Inl (SigSize (length sigBytes)))
                    else parse_payload E payload sigBytes))"

section \<open>Separators\<close>

lemma LastIndex_append: "c \<notin> set ys \<Longrightarrow> LastIndex (xs @ c # ys) c = Some (length xs)"
proof (induction xs)
  case Nil
  then have "LastIndex ys c = None" by (induction ys) auto
  then show ?case by simp
qed simp

lemma LastIndex_None: "LastIndex s c = None \<longleftrightarrow> c \<notin> set s"
  by (induction s) (auto split: option.splits)

lemma LastIndex_Some:
  "LastIndex s c = Some i \<Longrightarrow> \<exists>xs ys. s = xs @ c # ys \<and> length xs = i \<and> c \<notin> set ys"
proof (induction s arbitrary: i)
  case (Cons x s)
  show ?case
  proof (cases "LastIndex s c")
    case None
    with Cons.prems have "x = c" "i = 0" by (auto split: if_splits)
    with None show ?thesis by (auto simp: LastIndex_None)
  next
    case (Some j)
    with Cons.IH obtain xs ys where "s = xs @ c # ys" "length xs = j" "c \<notin> set ys" by blast
    moreover from Some Cons.prems have "i = Suc j" by simp
    ultimately have "x # s = (x # xs) @ c # ys \<and> length (x # xs) = i \<and> c \<notin> set ys" by simp
    then show ?thesis by blast
  qed
qed simp

section \<open>The field codec interface\<close>

text \<open>
  What the payload format needs of the text encoding of its key fields: it can be undone and it
  never produces the separator.
\<close>

locale field_codec =
  fixes enc :: "bytes \<Rightarrow> string"
    and dec :: "string \<Rightarrow> nat + bytes"
    and sep :: char
  assumes dec_enc: "dec (enc bs) = Inr bs"
    and sep_free: "sep \<notin> set (enc bs)"
begin

lemma enc_inject: "enc a = enc b \<longleftrightarrow> a = b"
  by (metis dec_enc sum.inject(2))

lemma last_field: "LastIndex (p @ sep # enc a) sep = Some (length p)"
  by (rule LastIndex_append) (rule sep_free)

lemma snoc_field_inject: "p @ sep # enc a = q @ sep # enc b \<longleftrightarrow> p = q \<and> a = b"
proof
  assume eq: "p @ sep # enc a = q @ sep # enc b"
  then have len: "length p = length q"
    by (metis last_field option.inject)
  with eq show "p = q \<and> a = b" by (simp add: enc_inject)
qed simp

end

interpretation b64: field_codec EncodeToString DecodeString "CHR ''|''"
  by unfold_locales simp_all

lemma key_payload_snoc: "key_payload addr x ed = (addr @ CHR ''|'' # EncodeToString x) @ CHR ''|'' # EncodeToString ed"
  by (simp add: key_payload_def)

section \<open>What an accepted key is\<close>

lemma parse_payload_accepts:
  assumes payload: "payload = addr @ ''|'' @ encX @ ''|'' @ encEd"
    and free: "CHR ''|'' \<notin> set encX" "CHR ''|'' \<notin> set encEd"
    and keys: "DecodeString encX = Inr x" "DecodeString encEd = Inr ed" "length ed = 32" "length x = 32"
    and addr: "addr \<noteq> []"
    and sig: "length sg = 64" "ed_verify E ed (str_bytes payload) sg"
  shows "parse_payload E payload sg = Ret (Inr (x, addr))"
proof -
  have "LastIndex payload CHR ''|'' = Some (length (addr @ CHR ''|'' # encX))"
    using LastIndex_append [OF free(2), of "addr @ CHR ''|'' # encX"] by (simp add: payload)
  moreover have "LastIndex (addr @ CHR ''|'' # encX) CHR ''|'' = Some (length addr)"
    by (rule LastIndex_append) (rule free(1))
  ultimately show ?thesis
    using keys addr sig by (simp add: parse_payload_def payload ed25519_Verify_def)
qed

lemma parse_payload_accepted:
  assumes "parse_payload E payload sg = Ret (Inr (x, addr))"
  shows "\<exists>encX encEd ed. payload = addr @ ''|'' @ encX @ ''|'' @ encEd
    \<and> CHR ''|'' \<notin> set encX \<and> CHR ''|'' \<notin> set encEd \<and> addr \<noteq> []
    \<and> DecodeString encX = Inr x \<and> DecodeString encEd = Inr ed \<and> length ed = 32 \<and> length x = 32
    \<and> length sg = 64 \<and> ed_verify E ed (str_bytes payload) sg"
proof -
  from assms obtain i where i: "LastIndex payload CHR ''|'' = Some i"
    by (cases "LastIndex payload CHR ''|''") (simp_all add: parse_payload_def)
  from LastIndex_Some [OF i] obtain rem encEd where
    p: "payload = rem @ CHR ''|'' # encEd" "length rem = i" "CHR ''|'' \<notin> set encEd" by blast
  from assms i p obtain j where j: "LastIndex rem CHR ''|'' = Some j"
    by (cases "LastIndex rem CHR ''|''") (auto simp: parse_payload_def)
  from LastIndex_Some [OF j] obtain ad encX where
    r: "rem = ad @ CHR ''|'' # encX" "length ad = j" "CHR ''|'' \<notin> set encX" by blast
  from assms i j p r have "addr = ad" and "ad \<noteq> []" and "\<exists>ed. DecodeString encX = Inr x \<and> DecodeString encEd = Inr ed
      \<and> length ed = 32 \<and> length x = 32 \<and> length sg = 64 \<and> ed_verify E ed (str_bytes payload) sg"
    by (auto simp: parse_payload_def ed25519_Verify_def split: if_splits sum.splits)
  with p r show ?thesis by auto
qed

text \<open>The byte layout of a key string: prefix, payload and an 86 byte signature field.\<close>

definition key_layout :: "string \<Rightarrow> string \<Rightarrow> string" where
  "key_layout payload sig = ''gota1-'' @ payload @ ''-'' @ sig"

lemma ParseKeyV1_layout:
  assumes "length sig = 86" and "89 \<le> length payload"
  shows "ParseKeyV1 E NewKeyParserV1 (key_layout payload sig) =
    (case DecodeString sig of
       Inl off \<Rightarrow> Ret (Inl (SigDecode off))
     | Inr sg \<Rightarrow> if length sg \<noteq> 64 then Ret (Inl (SigSize (length sg))) else parse_payload E payload sg)"
proof -
  let ?k = "key_layout payload sig"
  have k: "?k = (''gota1-'' @ payload) @ CHR ''-'' # sig" by (simp add: key_layout_def)
  have len: "length ?k = 93 + length payload" using assms(1) by (simp add: key_layout_def)
  have at: "?k ! (6 + length payload) = CHR ''-''"
    unfolding k by (subst nth_append) simp
  have "slice (length ''gota1-'') (6 + length payload) ?k = payload"
    using slice_append_mid [of "length ''gota1-''" "''gota1-''" "6 + length payload" payload "CHR ''-'' # sig"]
    by (simp add: key_layout_def)
  moreover have "length (''gota1-'' @ payload @ ''-'') = 7 + length payload" by simp
  then have "drop (7 + length payload) ((''gota1-'' @ payload @ ''-'') @ sig) = sig"
    by (metis append_eq_conv_conj)
  then have "drop (7 + length payload) ?k = sig" by (simp add: key_layout_def)
  moreover have "HasPrefix ?k ''gota1-''" by (simp add: HasPrefix_def key_layout_def)
  ultimately show ?thesis
    using assms(2) at by (simp add: ParseKeyV1_def NewKeyParserV1_def len Let_def)
qed

lemma ParseKeyV1_layoutE:
  assumes "ParseKeyV1 E NewKeyParserV1 k = Ret (Inr r)"
  obtains payload sig where "k = key_layout payload sig" "length sig = 86" "89 \<le> length payload"
proof -
  from assms have hp: "HasPrefix k ''gota1-''" and len: "182 \<le> length k"
    and dash: "k ! (length k - 87) = CHR ''-''"
    by (auto simp: ParseKeyV1_def NewKeyParserV1_def Let_def not_less split: if_splits)
  from hp have pre: "take 6 k = ''gota1-''" by (simp add: HasPrefix_def numeral_eq_Suc)
  have "k = take 6 k @ slice 6 (length k - 87) k @ drop (length k - 87) k"
    using len by (simp add: take_slice_drop)
  also have "drop (length k - 87) k = CHR ''-'' # drop (length k - 86) k"
  proof -
    have "Suc (length k - 87) = length k - 86" using len by arith
    then show ?thesis using Cons_nth_drop_Suc [of "length k - 87" k] len dash by simp
  qed
  finally have "k = key_layout (slice 6 (length k - 87) k) (drop (length k - 86) k)"
    using pre by (simp add: key_layout_def)
  with len show thesis by (intro that [of "slice 6 (length k - 87) k" "drop (length k - 86) k"]) simp_all
qed

section \<open>Generated keys\<close>

lemma ed25519_Public_64: "length sk = 64 \<Longrightarrow> ed25519_Public sk = Ret (drop 32 sk)"
  by (simp add: ed25519_Public_def)

lemma GenerateKeyV1_ok:
  assumes "addr \<noteq> []" "length sk = 64"
  shows "GenerateKeyV1 E (NewKeyGeneratorV1 (Some x) addr sk) =
    Ret (Inr (key_layout (key_payload addr x (drop 32 sk))
      (EncodeToString (ed_sign E sk (str_bytes (key_payload addr x (drop 32 sk)))))))"
  using assms
  by (auto simp: GenerateKeyV1_def NewKeyGeneratorV1_def key_layout_def ed25519_Public_64 ed25519_Sign_def Let_def)

lemma length_key_payload:
  "length (key_payload addr x ed) = length addr + 2 + (length x * 8 + 5) div 6 + (length ed * 8 + 5) div 6"
  by (simp add: key_payload_def)

lemma parse_payload_key_payload:
  assumes "addr \<noteq> []" "length x = 32" "length ed = 32" "length sg = 64"
    and "ed_verify E ed (str_bytes (key_payload addr x ed)) sg"
  shows "parse_payload E (key_payload addr x ed) sg = Ret (Inr (x, addr))"
  by (rule parse_payload_accepts [OF key_payload_def]) (use assms in simp_all)

lemma ParseKeyV1_key_layout:
  assumes "addr \<noteq> []" "length x = 32" "length ed = 32" "length sg = 64"
    and "ed_verify E ed (str_bytes (key_payload addr x ed)) sg"
    and "length sig = 86" "DecodeString sig = Inr sg"
  shows "ParseKeyV1 E NewKeyParserV1 (key_layout (key_payload addr x ed) sig) = Ret (Inr (x, addr))"
proof -
  have "89 \<le> length (key_payload addr x ed)"
    using assms(1-3) by (cases addr) (simp_all add: length_key_payload)
  with assms show ?thesis by (simp add: ParseKeyV1_layout parse_payload_key_payload)
qed

text \<open>
  C6: an invite key made by the generator for a valid Ed25519 key, a non-empty address (of any
  bytes, separators included) and an X25519 key parses back to that X25519 key and address.
\<close>

theorem v1_round_trip:
  assumes "ed25519_correct E" "ed_private E sk" "length x = 32" "addr \<noteq> []"
  shows "\<exists>k. GenerateKeyV1 E (NewKeyGeneratorV1 (Some x) addr sk) = Ret (Inr k)
    \<and> ParseKeyV1 E NewKeyParserV1 k = Ret (Inr (x, addr))"
proof -
  let ?p = "key_payload addr x (drop 32 sk)"
  have len: "length sk = 64" using assms(2) by (simp add: ed_private_def)
  have sig: "length (ed_sign E sk m) = 64" "ed_verify E (drop 32 sk) m (ed_sign E sk m)" for m
    using assms(1,2) by (auto simp: ed25519_correct_def)
  have "ParseKeyV1 E NewKeyParserV1 (key_layout ?p (EncodeToString (ed_sign E sk (str_bytes ?p)))) = Ret (Inr (x, addr))"
    by (rule ParseKeyV1_key_layout) (use assms sig len in simp_all)
  with GenerateKeyV1_ok [OF assms(4) len] show ?thesis by blast
qed

text \<open>A small signature scheme for concrete runs: the public key is the seed, a signature is the
  public key followed by the first 32 bytes of the message.\<close>

definition toy_sig :: "bytes \<Rightarrow> bytes \<Rightarrow> bytes" where
  "toy_sig pub msg = take 32 (pub @ replicate 32 0) @ take 32 (msg @ replicate 32 0)"

definition toy_ed25519 :: ed25519 where
  "toy_ed25519 = \<lparr>ed_sign = (\<lambda>priv msg. toy_sig (drop 32 priv) msg),
     ed_verify = (\<lambda>pub msg sig. sig = toy_sig pub msg), ed_derive = (\<lambda>seed. seed)\<rparr>"

lemma length_toy_sig: "length (toy_sig pub msg) = 64"
  by (simp add: toy_sig_def)

lemma toy_correct: "ed25519_correct toy_ed25519"
  by (simp add: ed25519_correct_def toy_ed25519_def length_toy_sig)

lemma toy_private: "ed_private toy_ed25519 (replicate 64 7)"
  by (simp add: ed_private_def toy_ed25519_def)

theorem v1_round_trip_witness:
  "\<exists>k. GenerateKeyV1 toy_ed25519 (NewKeyGeneratorV1 (Some (replicate 32 9)) ''a|b-c'' (replicate 64 7)) = Ret (Inr k)
    \<and> ParseKeyV1 toy_ed25519 NewKeyParserV1 k = Ret (Inr (replicate 32 9, ''a|b-c''))"
  by (rule v1_round_trip [OF toy_correct toy_private]) simp_all


text \<open>
  The signed text is unambiguous: two payloads are equal only if they carry the same address,
  the same X25519 key and the same Ed25519 key, so a signature vouches for one triple.
\<close>

theorem v1_payload_unambiguous:
  "key_payload addr x ed = key_payload addr' x' ed' \<longleftrightarrow> addr = addr' \<and> x = x' \<and> ed = ed'"
  by (simp only: key_payload_snoc b64.snoc_field_inject) simp

text \<open>
  C38: the generator panics exactly when the address and the identity are present and the signing
  key has a length other than 0 (which is reported as an error) and 64.
\<close>

theorem generator_panics_iff:
  "\<not> returns (GenerateKeyV1 E kg) \<longleftrightarrow>
     peerAddr kg \<noteq> [] \<and> peerIdentity kg \<noteq> None \<and> length (signingKey kg) \<notin> {0, 64}"
  by (auto simp: GenerateKeyV1_def ed25519_Public_def ed25519_Sign_def Let_def split: option.split go.split)

text \<open>The version 1 parser returns a value or an error on every string; it never panics.\<close>

theorem v1_parser_total: "returns (ParseKeyV1 E NewKeyParserV1 k)"
proof -
  have "returns (parse_payload E p sg)" for p sg
    by (auto simp: parse_payload_def ed25519_Verify_def Let_def split: option.split sum.split)
  then show ?thesis
    by (auto simp: ParseKeyV1_def NewKeyParserV1_def go_slice_def Let_def split: sum.split)
qed

section \<open>Malleability of the signature field\<close>

text \<open>
  A 64 byte signature fills 86 symbols, the last of which has four unused bits. The decoder
  ignores them.
\<close>

lemma EncodeToString_append:
  "length xs mod 3 = 0 \<Longrightarrow> EncodeToString (xs @ ys) = EncodeToString xs @ EncodeToString ys"
  by (induction xs rule: EncodeToString.induct) (simp_all add: Let_def mod_Suc split: if_splits)

lemma decode_from_encode_append:
  "length xs mod 3 = 0 \<Longrightarrow>
   \<exists>sj. decode_from si [] (EncodeToString xs @ t) = map_sum id (append xs) (decode_from sj [] t)"
proof (induction xs arbitrary: si rule: EncodeToString.induct)
  case 1
  have "map_sum id (append []) (decode_from si [] t) = decode_from si [] t"
    by (cases "decode_from si [] t") auto
  then show ?case by (metis EncodeToString.simps(1) append_Nil)
next
  case (4 a b c r)
  then have "length r mod 3 = 0" by (simp add: mod_Suc split: if_splits)
  from "4.IH" [OF refl this] obtain sj where
    "decode_from (Suc (Suc (Suc (Suc si)))) [] (EncodeToString r @ t) = map_sum id (append r) (decode_from sj [] t)"
    by blast
  then show ?case
    using digits_val [OF pack3_less, of a b c] pack3_less [of a b c]
    by (cases "decode_from sj [] t") (auto simp: Let_def val_bytes_pack3 intro!: exI [of _ sj])
qed (simp_all add: Let_def)

lemma last_symbol_slack:
  "decode_from si [] [b64_char (pack3 a 0 0 div 262144), b64_char (pack3 a 0 0 div 4096 + 1)] = Inr [a]"
proof -
  have a: "unat a < 256" by (rule unat_byte_less)
  then have d: "pack3 a 0 0 div 262144 = unat a div 4" "pack3 a 0 0 div 4096 = unat a * 16"
    unfolding pack3_def by (simp_all add: div_mult2_eq [symmetric])
  have "unat a * 16 mod 64 = unat a mod 4 * 16"
    using mult_mod_right [of 16 "unat a" 4] by (simp add: mult.commute)
  then have m: "(unat a * 16 + 1) mod 64 = unat a mod 4 * 16 + 1"
    using mod_add_left_eq [of "unat a * 16" 64 1] by simp
  have "unat a div 4 mod 64 * 262144 + (unat a mod 4 * 16 + 1) * 4096 = unat a * 65536 + 4096"
  proof -
    define q r where "q = unat a div 4" and "r = unat a mod 4"
    then have "unat a = q * 4 + r" by simp
    moreover have "q mod 64 = q" using a by (simp add: q_def)
    ultimately show ?thesis unfolding q_def [symmetric] r_def [symmetric] by simp
  qed
  moreover have "(unat a * 65536 + 4096) div 65536 = unat a" by linarith
  ultimately have "(unat a div 4 mod 64 * 262144 + (unat a mod 4 * 16 + 1) * 4096) div 65536 = unat a"
    by (simp only:)
  with d m show ?thesis by (simp add: val_bytes_def del: mult_Suc add_mult_distrib)
qed

text \<open>
  C39: the signature field is malleable: for every generated key there is a different string that
  the parser accepts with the same result.
\<close>

theorem v1_signature_malleable:
  assumes "ed25519_correct E" "ed_private E sk" "length x = 32" "addr \<noteq> []"
  shows "\<exists>k k'. GenerateKeyV1 E (NewKeyGeneratorV1 (Some x) addr sk) = Ret (Inr k) \<and> k' \<noteq> k
    \<and> ParseKeyV1 E NewKeyParserV1 k' = Ret (Inr (x, addr))"
proof -
  let ?p = "key_payload addr x (drop 32 sk)"
  let ?sg = "ed_sign E sk (str_bytes ?p)"
  have len: "length sk = 64" using assms(2) by (simp add: ed_private_def)
  have sg: "length ?sg = 64" "ed_verify E (drop 32 sk) (str_bytes ?p) ?sg"
    using assms(1,2) by (auto simp: ed25519_correct_def)
  define xs a where "xs = butlast ?sg" and "a = last ?sg"
  have "?sg \<noteq> []" using sg(1) by (metis length_0_conv zero_neq_numeral)
  then have sga: "?sg = xs @ [a]" unfolding xs_def a_def by (rule append_butlast_last_id [symmetric])
  have xs: "length xs = 63" using sg(1) by (simp add: xs_def)
  then have xs63: "length xs mod 3 = 0" by simp
  define v where "v = pack3 a 0 0"
  let ?sig = "EncodeToString xs @ [b64_char (v div 262144), b64_char (v div 4096 + 1)]"
  have enc: "EncodeToString ?sg = EncodeToString xs @ [b64_char (v div 262144), b64_char (v div 4096)]"
    using xs by (simp add: sga EncodeToString_append v_def Let_def)
  have "n mod 64 \<noteq> (n + 1) mod 64" for n :: nat by (simp add: mod_Suc)
  then have "b64_char (v div 4096) \<noteq> b64_char (v div 4096 + 1)"
    by (metis decodeMap_b64_char option.inject)
  then have neq: "?sig \<noteq> EncodeToString ?sg" by (simp add: enc)
  obtain sj where "decode_from 0 [] ?sig =
      map_sum id (append xs) (decode_from sj [] [b64_char (v div 262144), b64_char (v div 4096 + 1)])"
    using decode_from_encode_append [OF xs63, of 0 "[b64_char (v div 262144), b64_char (v div 4096 + 1)]"]
    by (elim exE)
  then have "DecodeString ?sig = Inr (xs @ [a])"
    unfolding v_def last_symbol_slack by (simp add: DecodeString_def)
  then have dec: "DecodeString ?sig = Inr ?sg" by (simp only: sga)
  have "length ?sig = 86" using xs by simp
  then have "ParseKeyV1 E NewKeyParserV1 (key_layout ?p ?sig) = Ret (Inr (x, addr))"
    using ParseKeyV1_key_layout [OF assms(4,3) _ sg(1,2) _ dec] len by simp
  moreover have "key_layout ?p ?sig \<noteq> key_layout ?p (EncodeToString ?sg)"
    using neq by (simp add: key_layout_def)
  ultimately show ?thesis using GenerateKeyV1_ok [OF assms(4) len] by blast
qed

theorem v1_signature_malleable_witness:
  "\<exists>k k'. GenerateKeyV1 toy_ed25519 (NewKeyGeneratorV1 (Some (replicate 32 9)) ''h:1'' (replicate 64 7)) = Ret (Inr k)
    \<and> k' \<noteq> k \<and> ParseKeyV1 toy_ed25519 NewKeyParserV1 k' = Ret (Inr (replicate 32 9, ''h:1''))"
  by (rule v1_signature_malleable [OF toy_correct toy_private]) simp_all

end
