(* ===== verification/KeyManager.thy ===== *)
theory KeyManager
  imports InviteKeyV1
begin

text \<open>
  \<^verbatim>\<open>src/invitekey/key_manager.go\<close>: generators and parsers by key version. An
  \<^verbatim>\<open>IKeyGenerator\<close> is the outcome of its only method, which takes no argument; an
  \<^verbatim>\<open>IKeyParser\<close> is its parsing function. \<open>None\<close> stored in a table is a nil interface, on
  which a call panics.
\<close>

section \<open>State\<close>

type_synonym IKeyGenerator = "(key_error + string) go"
type_synonym IKeyParser = "string \<Rightarrow> (key_error + bytes \<times> string) go"

definition v1keytype :: uint32 where
  "v1keytype = 0"

record KeyManager =
  generatorList :: "uint32 \<rightharpoonup> IKeyGenerator option"
  ecdhParserList :: "uint32 \<rightharpoonup> IKeyParser option"
  prefixToVersion :: "string \<rightharpoonup> uint32"

definition NewKeyManager :: KeyManager where
  "NewKeyManager = \<lparr>generatorList = Map.empty, ecdhParserList = Map.empty,
     prefixToVersion = [''gota1'' \<mapsto> v1keytype]\<rparr>"

section \<open>Operations\<close>

definition RegisterGenerator :: "uint32 \<Rightarrow> IKeyGenerator option \<Rightarrow> KeyManager \<Rightarrow> KeyManager" where
  "RegisterGenerator version generator km =
     km\<lparr>generatorList := (generatorList km)(version \<mapsto> generator)\<rparr>"

definition RegisterParser :: "uint32 \<Rightarrow> string \<Rightarrow> IKeyParser option \<Rightarrow> KeyManager \<Rightarrow> KeyManager" where
  "RegisterParser version prefix parser km =
     km\<lparr>ecdhParserList := (ecdhParserList km)(version \<mapsto> parser),
        prefixToVersion := (prefixToVersion km)(prefix \<mapsto> version)\<rparr>"

definition GenerateKey :: "KeyManager \<Rightarrow> uint32 \<Rightarrow> (key_error + string) go" where
  "GenerateKey km version =
     (case generatorList km version of
        None \<Rightarrow> Ret (Inl (NoGenerator version))
      | Some None \<Rightarrow> Panic NilCall
      | Some (Some generator) \<Rightarrow> generator)"

text \<open>\<^verbatim>\<open>strings.Cut\<close> at the first dash: \<open>None\<close> when there is none.\<close>

definition Cut :: "string \<Rightarrow> string option" where
  "Cut s = (if CHR ''-'' \<in> set s then Some (takeWhile (\<lambda>c. c \<noteq> CHR ''-'') s) else None)"

definition ParseKey ::
  "ed25519 \<Rightarrow> KeyManager \<Rightarrow> string \<Rightarrow> (key_error + bytes \<times> string) go \<times> KeyManager" where
  "ParseKey E km keyStr =
     (case Cut keyStr of
        None \<Rightarrow> (Ret (Inl MissingPrefixSeparator), km)
      | Some prefix \<Rightarrow>
          (case prefixToVersion km prefix of
             None \<Rightarrow> (Ret (Inl (UnsupportedPrefix prefix)), km)
           | Some version \<Rightarrow>
               (case ecdhParserList km version of
                  Some None \<Rightarrow> (Panic NilCall, km)
                | Some (Some parser) \<Rightarrow> (parser keyStr, km)
                | None \<Rightarrow>
                    if version \<noteq> v1keytype then (Ret (Inl (NoParser version)), km)
                    else let parser = ParseKeyV1 E NewKeyParserV1
                         in (parser keyStr,
                             km\<lparr>ecdhParserList := (ecdhParserList km)(version \<mapsto> Some parser)\<rparr>))))"

section \<open>Lemmas\<close>

lemma Cut_prefix: "CHR ''-'' \<notin> set p \<Longrightarrow> Cut (p @ CHR ''-'' # s) = Some p"
  by (simp add: Cut_def takeWhile_append)

lemma Cut_gota1: "Cut (''gota1-'' @ s) = Some ''gota1''"
  using Cut_prefix [of "''gota1''" s] by simp

lemma Cut_key_layout: "Cut (key_layout payload sig) = Some ''gota1''"
  by (simp add: key_layout_def Cut_gota1 del: append_Cons)

lemma v1_keys_have_prefix:
  assumes "ParseKeyV1 E NewKeyParserV1 k = Ret (Inr r)"
  shows "Cut k = Some ''gota1''"
  using ParseKeyV1_layoutE [OF assms] Cut_key_layout by metis

text \<open>A manager that still has its built-in prefix and no foreign parser for version 1.\<close>

definition stock_v1 :: "ed25519 \<Rightarrow> KeyManager \<Rightarrow> bool" where
  "stock_v1 E km \<longleftrightarrow> prefixToVersion km ''gota1'' = Some v1keytype
     \<and> ecdhParserList km v1keytype \<in> {None, Some (Some (ParseKeyV1 E NewKeyParserV1))}"

lemma stock_v1_new [simp]: "stock_v1 E NewKeyManager"
  by (simp add: stock_v1_def NewKeyManager_def)

lemma stock_v1_RegisterGenerator [simp]: "stock_v1 E (RegisterGenerator v g km) = stock_v1 E km"
  by (simp add: stock_v1_def RegisterGenerator_def)

lemma ParseKey_stock:
  assumes "stock_v1 E km" "Cut k = Some ''gota1''"
  shows "fst (ParseKey E km k) = ParseKeyV1 E NewKeyParserV1 k"
  using assms by (auto simp: stock_v1_def ParseKey_def Let_def)

lemma ParseKey_keeps_stock: "stock_v1 E km \<Longrightarrow> stock_v1 E (snd (ParseKey E km k))"
  by (auto simp: stock_v1_def ParseKey_def Let_def split: option.splits)

lemma GenerateKey_registered [simp]:
  "GenerateKey (RegisterGenerator v (Some g) km) w = (if w = v then g else GenerateKey km w)"
  by (simp add: GenerateKey_def RegisterGenerator_def)

text \<open>The key of a version 1 generator: its length, and that every manager with the built-in parser
  reads it back.\<close>

lemma generated_key:
  assumes "ed25519_correct E" "ed_private E sk" "length x = 32" "addr \<noteq> []"
  shows "\<exists>k. GenerateKeyV1 E (NewKeyGeneratorV1 (Some x) addr sk) = Ret (Inr k) \<and> length k = length addr + 181
    \<and> (\<forall>km. stock_v1 E km \<longrightarrow> fst (ParseKey E km k) = Ret (Inr (x, addr)))"
proof -
  have len: "length sk = 64" using assms(2) by (simp add: ed_private_def)
  have sig: "length (ed_sign E sk m) = 64" "ed_verify E (drop 32 sk) m (ed_sign E sk m)" for m
    using assms(1,2) by (auto simp: ed25519_correct_def)
  let ?p = "key_payload addr x (drop 32 sk)"
  let ?k = "key_layout ?p (EncodeToString (ed_sign E sk (str_bytes ?p)))"
  have "ParseKeyV1 E NewKeyParserV1 ?k = Ret (Inr (x, addr))"
    by (rule ParseKeyV1_key_layout) (use assms sig len in simp_all)
  moreover have "length ?k = length addr + 181" using assms(3) len sig(1) by (simp add: key_layout_def key_payload_def)
  ultimately show ?thesis
    using ParseKey_stock [OF _ Cut_key_layout] by (auto simp: GenerateKeyV1_ok [OF assms(4) len])
qed

section \<open>Properties\<close>

text \<open>
  The manager's round trip: after a version 1 generator is registered under any version
  number, the key that manager generates for it parses, in any manager with the built-in version 1
  parser, to the identity and address the generator was made with.
\<close>

theorem manager_round_trip:
  assumes "ed25519_correct E" "ed_private E sk" "length x = 32" "addr \<noteq> []" "stock_v1 E km'"
  shows "\<exists>k. GenerateKey (RegisterGenerator v (Some (GenerateKeyV1 E (NewKeyGeneratorV1 (Some x) addr sk))) km) v
        = Ret (Inr k)
    \<and> fst (ParseKey E km' k) = Ret (Inr (x, addr))"
  using generated_key [OF assms(1-4)] assms(5) by auto

theorem manager_round_trip_witness:
  "\<exists>k. GenerateKey (RegisterGenerator 0 (Some (GenerateKeyV1 toy_ed25519
          (NewKeyGeneratorV1 (Some (replicate 32 9)) ''127.0.0.1:9000'' (replicate 64 7)))) NewKeyManager) 0
        = Ret (Inr k)
    \<and> fst (ParseKey toy_ed25519 NewKeyManager k) = Ret (Inr (replicate 32 9, ''127.0.0.1:9000''))"
  by (rule manager_round_trip [OF toy_correct toy_private]) simp_all

text \<open>
  The parser the manager installs on first use is invisible: parsing one key never changes the
  outcome of parsing another.
\<close>

theorem parser_cache_transparent:
  "fst (ParseKey E (snd (ParseKey E km k)) k') = fst (ParseKey E km k')"
  by (auto simp: ParseKey_def Let_def split: option.splits)

end
