(* ===== verification/Handlers.thy ===== *)
theory Handlers
  imports Dispatcher KeyManager
begin

text \<open>
  \<^verbatim>\<open>src/controlcenter/handlers.go\<close> and \<^verbatim>\<open>src/controlcenter/registry.go\<close>: the two
  system calls of the daemon and their registration. The egress engine has no implementation in
  the sources; it is an argument, a function on the world that returns the error text, if any. The
  key manager is reached through a pointer, so its handler reads it from the world at call time.
\<close>

section \<open>Handlers\<close>

definition OpcodeEgressRoute :: uint16 where "OpcodeEgressRoute = 0x0001"
definition OpcodeGetInviteKey :: uint16 where "OpcodeGetInviteKey = 0x0201"

lemma opcodes_differ [simp]: "OpcodeEgressRoute \<noteq> OpcodeGetInviteKey" "OpcodeGetInviteKey \<noteq> OpcodeEgressRoute"
  by (simp_all add: OpcodeEgressRoute_def OpcodeGetInviteKey_def)

type_synonym 'w IEgress = "DID \<Rightarrow> bytes \<Rightarrow> 'w \<Rightarrow> string option \<times> 'w"

definition MakeEgressRouteHandler :: "'w IEgress option \<Rightarrow> 'w SyscallHandler" where
  "MakeEgressRouteHandler egress did payload w =
     (case egress of
        None \<Rightarrow> (Ret ([], ErrInternalDaemon), w)
      | Some routeToNetwork \<Rightarrow>
          (case ReadBytesParam payload of (data, _, status) \<Rightarrow>
             if status \<noteq> Success then (Ret ([], status), w)
             else (case routeToNetwork did data w of
                     (Some err, w') \<Rightarrow> (Ret (str_bytes err, ErrInternalDaemon), w')
                   | (None, w') \<Rightarrow> (Ret ([], Success), w'))))"

definition MakeGetInviteKeyHandler :: "('w \<Rightarrow> KeyManager) option \<Rightarrow> 'w SyscallHandler" where
  "MakeGetInviteKeyHandler km did payload w =
     (case km of
        None \<Rightarrow> (Ret ([], ErrInternalDaemon), w)
      | Some getKm \<Rightarrow>
          (let version = (if length payload \<ge> 4 then Uint32 (take 4 payload) else 0)
           in case GenerateKey (getKm w) version of
                Panic p \<Rightarrow> (Panic p, w)
              | Ret (Inl err) \<Rightarrow> (Ret (str_bytes (key_error_text err), ErrInvalidKey), w)
              | Ret (Inr keyStr) \<Rightarrow> (Ret (str_bytes keyStr, Success), w)))"

section \<open>Registration\<close>

definition egress_descriptor :: "'w IEgress option \<Rightarrow> 'w SyscallDescriptor" where
  "egress_descriptor egress =
     \<lparr>desc_Opcode = OpcodeEgressRoute, Name = ''EgressRoute'', Handler = Some (MakeEgressRouteHandler egress)\<rparr>"

definition invite_descriptor :: "('w \<Rightarrow> KeyManager) option \<Rightarrow> 'w SyscallDescriptor" where
  "invite_descriptor km =
     \<lparr>desc_Opcode = OpcodeGetInviteKey, Name = ''GetInviteKey'', Handler = Some (MakeGetInviteKeyHandler km)\<rparr>"

definition RegisterDefaultHandlers ::
  "'w Dispatcher option \<Rightarrow> ('w \<Rightarrow> KeyManager) option \<Rightarrow> 'w IEgress option \<Rightarrow>
   dispatch_error option \<times> 'w Dispatcher option" where
  "RegisterDefaultHandlers d km egress =
     (case d of
        None \<Rightarrow> (Some ErrNilDispatcher, None)
      | Some d0 \<Rightarrow>
          (case (if egress \<noteq> None
                 then RegisterSysCall OpcodeEgressRoute (egress_descriptor egress) d0
                 else (None, d0)) of
             (Some err, d1) \<Rightarrow> (Some err, Some d1)
           | (None, d1) \<Rightarrow>
               (case (if km \<noteq> None
                      then RegisterSysCall OpcodeGetInviteKey (invite_descriptor km) d1
                      else (None, d1)) of
                  (Some err, d2) \<Rightarrow> (Some err, Some d2)
                | (None, d2) \<Rightarrow> (None, Some d2))))"

section \<open>Properties\<close>

lemma register_ok:
  "syscall_lookup d op = None \<Longrightarrow> \<exists>d'. RegisterSysCall op desc d = (None, d')
     \<and> syscall_lookup d' = (syscall_lookup d)(op \<mapsto> desc)"
  using table.register_free [of d op desc] by (cases "RegisterSysCall op desc d") auto

lemma register_refused:
  "syscall_lookup d op \<noteq> None \<Longrightarrow> \<exists>d'. RegisterSysCall op desc d = (Some ErrAlreadyRegistered, d')
     \<and> syscall_lookup d' = syscall_lookup d"
  by (auto simp: RegisterSysCall_def syscall_lookup_def Let_def split: option.splits)

text \<open>A registration that is made only for a component that is present.\<close>

lemma register_if:
  assumes "(if present then RegisterSysCall op desc d else (None, d)) = (err, d')"
  shows "err = None \<longleftrightarrow> \<not> present \<or> syscall_lookup d op = None"
    "syscall_lookup d' = (if present \<and> err = None then (syscall_lookup d)(op \<mapsto> desc) else syscall_lookup d)"
  using assms register_ok [of d op desc] register_refused [of d op desc]
  by (cases "syscall_lookup d op"; auto split: if_splits)+

lemma default_table:
  assumes "RegisterDefaultHandlers (Some d) km egress = (None, Some t)"
  shows "syscall_lookup t =
    (syscall_lookup d)
      (OpcodeEgressRoute := if egress = None then syscall_lookup d OpcodeEgressRoute
         else Some (egress_descriptor egress),
       OpcodeGetInviteKey := if km = None then syscall_lookup d OpcodeGetInviteKey
         else Some (invite_descriptor km))"
proof -
  obtain d1 where r1: "(if egress \<noteq> None then RegisterSysCall OpcodeEgressRoute (egress_descriptor egress) d else (None, d))
      = (None, d1)"
    and r2: "(if km \<noteq> None then RegisterSysCall OpcodeGetInviteKey (invite_descriptor km) d1 else (None, d1)) = (None, t)"
    using assms unfolding RegisterDefaultHandlers_def by (auto split: prod.splits option.splits)
  show ?thesis using register_if(2) [OF r1] register_if(2) [OF r2] by (auto simp: fun_eq_iff)
qed




end
