(* ===== verification/Daemon.thy ===== *)
theory Daemon
  imports SessionProps Handlers
begin

text \<open>
  The daemon as the integration tests of \<^verbatim>\<open>src/controlcenter\<close> wire it: the control
  callback of the session manager dispatches the request and passes the response to
  \<^verbatim>\<open>SendToLocal\<close>. The sources have no main program; the callback is the one of
  \<^verbatim>\<open>integration_test.go\<close>. The reader goroutine of a session runs the callback, so it reads
  its next request only after \<^verbatim>\<open>SendToLocal\<close> has returned, while every other goroutine
  goes on. Nobody but the callback calls \<^verbatim>\<open>SendToLocal\<close>, as in the tests, and a handler is one
  move on the world.
\<close>

section \<open>The wired daemon\<close>

text \<open>The callback up to the call of \<^verbatim>\<open>SendToLocal\<close>: the packet it will pass.\<close>

definition control_callback ::
  "'w Dispatcher \<Rightarrow> DID \<Rightarrow> uint16 \<Rightarrow> bytes \<Rightarrow> 'w \<Rightarrow> outboundPacket go \<times> 'w" where
  "control_callback d did opcode payload w =
     (case DispatchSysCall d did opcode payload w of
        (Panic x, w') \<Rightarrow> (Panic x, w')
      | (Ret res, w') \<Rightarrow>
          (Ret \<lparr>pkt_opcode = resp_Opcode res, pkt_statusCode = StatusCode res, pkt_data = Payload res\<rparr>, w'))"

text \<open>A request that was dispatched: the session, its id, the opcode and payload, the response.\<close>

record exchange =
  ex_sess :: nat
  ex_DID :: DID
  ex_request :: "uint16 \<times> bytes"
  ex_answer :: outboundPacket

text \<open>The last two fields are histories: the bytes that have arrived on each connection, and the
  exchanges of all sessions in the order of their dispatch.\<close>

record 'w daemon =
  sys :: system
  world :: 'w
  received :: "nat \<Rightarrow> bytes"
  exchanges :: "exchange list"

fun is_send :: "DID \<Rightarrow> thread \<Rightarrow> bool" where
  "is_send d (Send e k) = (e = d)"
| "is_send d (SendLocked q e k) = (e = d)"
| "is_send d _ = False"

fun is_control :: "thread \<Rightarrow> bool" where
  "is_control (RCtrl p opcode payload) = True"
| "is_control _ = False"

text \<open>The reader of session \<open>p\<close> is inside \<^verbatim>\<open>SendToLocal\<close>.\<close>

definition in_callback :: "nat \<Rightarrow> system \<Rightarrow> bool" where
  "in_callback p s \<longleftrightarrow> (\<exists>t \<in># threads s. is_send (sess_DID (heap (mgr s) ! p)) t)"

text \<open>
  One move of the daemon. A connection is registered once, as \<^verbatim>\<open>Accept\<close> returns a new one each
  time, and the ids have not wrapped, so that an id stands for one session.
\<close>

inductive daemon_step :: "'w Dispatcher \<Rightarrow> 'w daemon \<Rightarrow> 'w daemon \<Rightarrow> bool" for d :: "'w Dispatcher" where
  work: "threads (sys s) = add_mset t M \<Longrightarrow> exec c t (mgr (sys s)) = Some (Ret (ts, m')) \<Longrightarrow>
     \<not> is_control t \<Longrightarrow> (\<And>p. t = RLoop p \<Longrightarrow> \<not> in_callback p (sys s)) \<Longrightarrow>
     daemon_step d s (s\<lparr>sys := (sys s)\<lparr>mgr := m', threads := mset ts + M\<rparr>\<rparr>)"
| work_panic: "t \<in># threads (sys s) \<Longrightarrow> exec c t (mgr (sys s)) = Some (Panic x) \<Longrightarrow>
     daemon_step d s (s\<lparr>sys := (sys s)\<lparr>crashed := Some x\<rparr>\<rparr>)"
| control: "threads (sys s) = add_mset (RCtrl p opcode payload) M \<Longrightarrow>
     exec c (RCtrl p opcode payload) (mgr (sys s)) = Some (Ret (ts, m')) \<Longrightarrow>
     did = sess_DID (heap (mgr (sys s)) ! p) \<Longrightarrow>
     control_callback d did opcode payload (world s) = (Ret k, w') \<Longrightarrow>
     daemon_step d s (s\<lparr>sys := (sys s)\<lparr>mgr := m', threads := add_mset (Send did k) (mset ts + M)\<rparr>, world := w',
       exchanges := exchanges s @ [\<lparr>ex_sess = p, ex_DID = did, ex_request = (opcode, payload), ex_answer = k\<rparr>]\<rparr>)"
| control_panic: "RCtrl p opcode payload \<in># threads (sys s) \<Longrightarrow>
     control_callback d (sess_DID (heap (mgr (sys s)) ! p)) opcode payload (world s) = (Panic x, w') \<Longrightarrow>
     daemon_step d s (s\<lparr>sys := (sys s)\<lparr>crashed := Some x\<rparr>, world := w'\<rparr>)"
| arrival: "\<not> closing (sys s) \<Longrightarrow> k \<notin> sess_Conn ` set (heap (mgr (sys s))) \<Longrightarrow>
     Suc (length (heap (mgr (sys s)))) < 2 ^ 32 \<Longrightarrow>
     RegisterSession (Some k) (mgr (sys s)) = Ret (r, ts, m') \<Longrightarrow>
     daemon_step d s (s\<lparr>sys := (sys s)\<lparr>mgr := m', threads := mset ts + threads (sys s)\<rparr>\<rparr>)"
| arrival_panic: "\<not> closing (sys s) \<Longrightarrow> RegisterSession (Some k) (mgr (sys s)) = Panic x \<Longrightarrow>
     daemon_step d s (s\<lparr>sys := (sys s)\<lparr>crashed := Some x\<rparr>\<rparr>)"
| map_order: "threads (sys s) = add_mset (CloseConns ps) M \<Longrightarrow> mset qs = mset ps \<Longrightarrow>
     daemon_step d s (s\<lparr>sys := (sys s)\<lparr>threads := add_mset (CloseConns qs) M\<rparr>\<rparr>)"
| unregister: "daemon_step d s (s\<lparr>sys := (sys s)\<lparr>threads := add_mset (Unreg did External) (threads (sys s))\<rparr>\<rparr>)"
| close: "daemon_step d s (s\<lparr>sys := (sys s)\<lparr>threads := add_mset CloseCancel (threads (sys s)), closing := True\<rparr>\<rparr>)"
| set_on_close: "daemon_step d s (s\<lparr>sys := (sys s)\<lparr>mgr := SetOnClose b (mgr (sys s))\<rparr>\<rparr>)"
| parent_cancelled: "daemon_step d s (s\<lparr>sys := (sys s)\<lparr>mgr := (mgr (sys s))\<lparr>ctx_done := True\<rparr>\<rparr>\<rparr>)"
| client: "conn_env (conns (mgr (sys s)) k) cn \<Longrightarrow>
     pending (conn_in cn) = pending (conn_in (conns (mgr (sys s)) k)) @ bs \<Longrightarrow>
     daemon_step d s (s\<lparr>sys := (sys s)\<lparr>mgr := upd_conn k cn (mgr (sys s))\<rparr>,
       received := (received s)(k := received s k @ bs)\<rparr>)"

definition daemon_start :: "bool \<Rightarrow> (nat \<Rightarrow> conn) \<Rightarrow> 'w \<Rightarrow> 'w daemon" where
  "daemon_start parent_done cs w =
     \<lparr>sys = (start parent_done cs)\<lparr>mgr := SetControlCallback True (NewSessionManager parent_done cs)\<rparr>,
      world = w, received = (\<lambda>k. pending (conn_in (cs k))), exchanges = []\<rparr>"

inductive daemon_reachable :: "'w Dispatcher \<Rightarrow> 'w \<Rightarrow> 'w daemon \<Rightarrow> bool" for d :: "'w Dispatcher" and w :: 'w where
  init: "daemon_reachable d w (daemon_start parent_done cs w)"
| later: "daemon_reachable d w s \<Longrightarrow> crashed (sys s) = None \<Longrightarrow> daemon_step d s s' \<Longrightarrow> daemon_reachable d w s'"

section \<open>The daemon runs the session manager\<close>

text \<open>Every move is made of moves of the session manager's own relation, but for the panic of a
  handler; so its invariants hold in the daemon.\<close>

lemma control_two_steps:
  assumes "reachable True s" "crashed s = None" "threads s = add_mset t M" "exec c t (mgr s) = Some (Ret (ts, m'))"
  shows "reachable True (s\<lparr>mgr := m', threads := add_mset (Send e k) (mset ts + M)\<rparr>)"
proof -
  have "reachable True (s\<lparr>mgr := m', threads := mset ts + M\<rparr>)" (is "reachable True ?r")
    by (rule reachable.later [OF assms(1,2) step.run [OF assms(3,4)]])
  from reachable.later [OF this _ step.call_send [of True ?r e k]] assms(2) show ?thesis by simp
qed

lemma daemon_step_manager:
  assumes "daemon_step d s s'" "reachable True (sys s)" "crashed (sys s) = None"
  shows "(\<exists>x. sys s' = (sys s)\<lparr>crashed := Some x\<rparr>) \<or> crashed (sys s') = None \<and> reachable True (sys s')"
proof -
  note next_state = reachable.later [OF assms(2,3)]
  from assms(1) show ?thesis
  proof cases
    case (work t M c ts m')
    with next_state [OF step.run [OF work(2,3)]] assms(3) show ?thesis by simp
  next
    case (control p opcode payload M c ts m' did k w')
    with control_two_steps [OF assms(2,3) control(2,3), of did k] assms(3) show ?thesis by simp
  next
    case (arrival k r ts m')
    with next_state [OF step.register [of True "sys s" k r ts m']] assms(3) show ?thesis by simp
  next
    case (map_order ps M qs)
    with next_state [OF step.map_order [OF map_order(2,3)]] assms(3) show ?thesis by simp
  next
    case (client k cn bs)
    with next_state [OF step.far_side [OF client(2)]] assms(3) show ?thesis by simp
  qed (use assms(3) in \<open>auto intro!: next_state step.intros\<close>)
qed

lemma uncrashed: "crashed s = None \<Longrightarrow> s\<lparr>crashed := None\<rparr> = s"
  by (cases s) simp

lemma daemon_reachable_manager: "daemon_reachable d w s \<Longrightarrow> reachable True ((sys s)\<lparr>crashed := None\<rparr>)"
proof (induction rule: daemon_reachable.induct)
  case (init parent_done cs)
  have "reachable True ((start parent_done cs)\<lparr>mgr := SetControlCallback True (mgr (start parent_done cs))\<rparr>)"
    by (rule reachable.later [OF reachable.init _ step.call_set_control]) (simp add: start_def)
  then show ?case by (simp add: daemon_start_def start_def)
next
  case (later s s')
  then have "reachable True (sys s)" by (simp add: uncrashed)
  from daemon_step_manager [OF later.hyps(3) this later.hyps(2)] show ?case
    using later.IH by (auto simp: uncrashed)
qed

end
