(* ===== verification/DaemonSafety.thy ===== *)
theory DaemonSafety
  imports Daemon
begin

text \<open>
  Requests and responses of the wired daemon: one request of a session at a time, the requests
  handled against the bytes that arrived, and the packets accepted against the responses.
\<close>

section \<open>One request at a time\<close>

fun is_reader :: "nat \<Rightarrow> thread \<Rightarrow> bool" where
  "is_reader p (RLoop q) = (q = p)"
| "is_reader p (RRead q) = (q = p)"
| "is_reader p (RCtrl q op bs) = (q = p)"
| "is_reader p _ = False"

definition is_reading :: "nat \<Rightarrow> thread \<Rightarrow> bool" where
  "is_reading p t \<longleftrightarrow> is_reader p t \<and> t \<noteq> RLoop p"

text \<open>A session has at most one reader, which is not reading while a response is passed on.\<close>

definition turns_inv :: "SessionManager \<Rightarrow> thread multiset \<Rightarrow> bool" where
  "turns_inv m T \<longleftrightarrow> (\<forall>p < length (heap m). size (filter_mset (is_reader p) T) \<le> 1
     \<and> size (filter_mset (is_reading p) T) + size (filter_mset (is_send (sess_DID (heap m ! p))) T) \<le> 1)
   \<and> (\<forall>e k. Send e k \<in># T \<longrightarrow> e \<in> sess_DID ` set (heap m))"

definition table_inv :: "SessionManager \<Rightarrow> bool" where
  "table_inv m \<longleftrightarrow> length (heap m) < 2 ^ 32 \<and> distinct (map sess_Conn (heap m))"

lemma exec_readers:
  assumes "exec c t m = Some (Ret (ts, m'))"
  shows "length (filter (is_reader p) ts) \<le> of_bool (is_reader p t)"
    "length (filter (is_reading p) ts) \<le> of_bool (is_reading p t \<or> t = RLoop p)"
  using assms
  by (cases "(c, t, m)" rule: exec.cases; auto simp: Let_def unreg_remove_Some unreg_remove_None
      after_unregister_def is_reading_def split: exec_splits dest!: exec_rets)+

lemma exec_sends:
  assumes "exec c t m = Some (Ret (ts, m'))"
  shows "length (filter (is_send e) ts) \<le> of_bool (is_send e t)" "Send e k \<notin> set ts"
    "SendLocked p e k \<in> set ts \<Longrightarrow> t = Send e k \<and> sessions m e = Some p"
  using assms
  by (cases "(c, t, m)" rule: exec.cases; auto simp: Let_def unreg_remove_Some unreg_remove_None
      after_unregister_def split: exec_splits dest!: exec_rets)+

fun is_locked :: "nat \<Rightarrow> thread \<Rightarrow> bool" where
  "is_locked p (SendLocked q e k) = (q = p)"
| "is_locked p _ = False"

lemma exec_accepted:
  assumes "exec c t m = Some (Ret (ts, m'))" "\<not> is_locked p t"
  shows "accepted (heap m' ! p) = accepted (heap m ! p)"
  using assms
  by (cases "(c, t, m)" rule: exec.cases; auto simp: Let_def unreg_remove_Some unreg_remove_None nth_update_if
      split: exec_splits dest!: exec_rets)

lemma exec_isClosed:
  assumes "exec c t m = Some (Ret (ts, m'))" "isClosed (heap m ! p)"
  shows "isClosed (heap m' ! p)"
  using assms
  by (cases "(c, t, m)" rule: exec.cases; auto simp: Let_def unreg_remove_Some unreg_remove_None nth_update_if
      split: exec_splits dest!: exec_rets)

lemma exec_conn_in:
  assumes "exec c t m = Some (Ret (ts, m'))" "\<And>p. t = RRead p \<Longrightarrow> sess_Conn (heap m ! p) \<noteq> k"
  shows "conn_in (conns m' k) = conn_in (conns m k)"
  using assms
  by (cases "(c, t, m)" rule: exec.cases; auto simp: Let_def unreg_remove_Some unreg_remove_None nth_update_if
      unreg_conn_def conn_Close_def close_conn_of_def split: exec_splits dest!: exec_rets)

lemma exec_map_heap:
  assumes "exec c t m = Some (Ret (ts, m'))"
  shows "map sess_DID (heap m') = map sess_DID (heap m)" "map sess_Conn (heap m') = map sess_Conn (heap m)"
  using exec_heap [OF assms] by (auto intro!: nth_equalityI)

lemma run_turns_inv:
  assumes inv: "turns_inv m (add_mset t M)" and ex: "exec c t m = Some (Ret (ts, m'))"
    and free: "\<And>p. t = RLoop p \<Longrightarrow> \<forall>u \<in># add_mset t M. \<not> is_send (sess_DID (heap m ! p)) u"
  shows "turns_inv m' (mset ts + M)"
proof -
  note heap = exec_heap [OF ex]
  have "size (filter_mset (is_reader p) (mset ts + M)) \<le> 1
     \<and> size (filter_mset (is_reading p) (mset ts + M)) + size (filter_mset (is_send (sess_DID (heap m ! p))) (mset ts + M)) \<le> 1"
    if p: "p < length (heap m)" for p
  proof -
    let ?e = "sess_DID (heap m ! p)"
    have one: "of_bool (is_reader p t) + size (filter_mset (is_reader p) M) \<le> 1"
      "of_bool (is_reading p t) + size (filter_mset (is_reading p) M)
         + (of_bool (is_send ?e t) + size (filter_mset (is_send ?e) M)) \<le> 1"
      using inv p by (auto simp: turns_inv_def)
    have sum: "size (filter_mset P (mset ts + M)) = length (filter P ts) + size (filter_mset P M)" for P
      by (simp add: filter_mset_mset)
    show ?thesis
    proof (cases "t = RLoop p")
      case True
      have none: "filter_mset (is_reader p) M = {#}" using one(1) True by simp
      then have "filter_mset (is_reading p) M = {#}" "filter_mset (is_send ?e) M = {#}"
        using free [OF True] by (auto simp: filter_mset_eq_mempty_iff is_reading_def)
      then show ?thesis
        unfolding sum using exec_readers [OF ex, of p] exec_sends(1) [OF ex, of ?e] True none
        by (simp del: filter_mset_eq_mempty_iff)
    next
      case False
      then show ?thesis
        unfolding sum using one exec_readers [OF ex, of p] exec_sends(1) [OF ex, of ?e] by simp
    qed
  qed
  moreover have "\<forall>e k. Send e k \<in># mset ts + M \<longrightarrow> e \<in> sess_DID ` set (heap m)"
    using inv exec_sends(2) [OF ex] by (auto simp: turns_inv_def)
  moreover have "sess_DID ` set (heap m') = sess_DID ` set (heap m)"
    using exec_map_heap(1) [OF ex] by (metis image_set)
  ultimately show ?thesis using heap by (simp add: turns_inv_def)
qed

text \<open>A dispatched request: the reader goes back to its loop and the response is to be passed on.\<close>

lemma control_turns_inv:
  assumes inv: "turns_inv m (add_mset (RCtrl p op bs) M)" and p: "p < length (heap m)"
    and table: "did_inv m" "table_inv m" and ex: "exec c (RCtrl p op bs) m = Some (Ret (ts, m'))"
  shows "turns_inv m' (add_mset (Send (sess_DID (heap m ! p)) k) (mset ts + M))"
proof -
  have ts: "ts = [RLoop p]" and heap: "heap m' = heap m" using ex by (auto split: if_splits)
  have other: "sess_DID (heap m ! q) = sess_DID (heap m ! p) \<longleftrightarrow> q = p" if "q < length (heap m)" for q
    using did_inject [OF table(1) _ that p] table(2) by (auto simp: table_inv_def)
  show ?thesis
    using inv p by (auto simp: turns_inv_def ts heap is_reading_def other eq_commute [of "sess_DID (heap m ! p)"])
qed

lemma register_fresh:
  assumes inv: "turns_inv m T" and ok: "\<forall>t \<in># T. thread_ok m t" and reg: "RegisterSession (Some k) m = Ret (r, ts, m')"
    and table: "did_inv m'" "table_inv m'"
  shows "\<And>e. e \<in> sess_DID ` set (heap m) \<Longrightarrow> e \<noteq> sess_DID (heap m' ! length (heap m))"
    and "\<forall>t \<in># T. \<not> is_reader (length (heap m)) t \<and> \<not> is_send (sess_DID (heap m' ! length (heap m))) t"
proof -
  let ?n = "length (heap m)"
  have len: "length (heap m') = Suc ?n" and old: "\<And>q. q < ?n \<Longrightarrow> heap m' ! q = heap m ! q"
    using reg by (auto simp: RegisterSession_Some nth_append)
  show new: "e \<noteq> sess_DID (heap m' ! ?n)" if "e \<in> sess_DID ` set (heap m)" for e
  proof
    assume e: "e = sess_DID (heap m' ! ?n)"
    from that obtain q where q: "q < ?n" "e = sess_DID (heap m' ! q)" using old by (auto simp: set_conv_nth)
    then have "q = ?n" using did_inject [OF table(1)] table(2) e len by (simp add: table_inv_def)
    with q show False by simp
  qed
  have "\<not> is_reader ?n t \<and> \<not> is_send (sess_DID (heap m' ! ?n)) t" if "t \<in># T" for t
  proof -
    have "thread_ok m t" "\<And>e k. t = Send e k \<Longrightarrow> e \<in> sess_DID ` set (heap m)"
      using ok inv that by (auto simp: turns_inv_def)
    then show ?thesis using new by (cases t) (auto simp: thread_ok_def)
  qed
  then show "\<forall>t \<in># T. \<not> is_reader ?n t \<and> \<not> is_send (sess_DID (heap m' ! ?n)) t" by blast
qed

lemma register_turns_inv:
  assumes inv: "turns_inv m T" and ok: "\<forall>t \<in># T. thread_ok m t" and reg: "RegisterSession (Some k) m = Ret (r, ts, m')"
    and table: "did_inv m'" "table_inv m'"
  shows "turns_inv m' (mset ts + T)"
proof -
  let ?n = "length (heap m)"
  have ts: "ts = [RLoop ?n, WLoop ?n]" and len: "length (heap m') = Suc ?n"
    and old: "\<And>q. q < ?n \<Longrightarrow> heap m' ! q = heap m ! q" and sub: "set (heap m) \<subseteq> set (heap m')"
    using reg by (auto simp: RegisterSession_Some nth_append)
  have none: "filter_mset (is_reader ?n) T = {#}" "filter_mset (is_reading ?n) T = {#}"
    "filter_mset (is_send (sess_DID (heap m' ! ?n))) T = {#}"
    using register_fresh(2) [OF assms] by (auto simp: filter_mset_eq_mempty_iff is_reading_def)
  have "size (filter_mset (is_reader p) (mset ts + T)) \<le> 1 \<and> size (filter_mset (is_reading p) (mset ts + T))
      + size (filter_mset (is_send (sess_DID (heap m' ! p))) (mset ts + T)) \<le> 1" if "p < Suc ?n" for p
  proof (cases "p = ?n")
    case True
    then show ?thesis by (simp add: ts none is_reading_def del: filter_mset_eq_mempty_iff)
  next
    case False
    with that have "p < ?n" by simp
    with inv old show ?thesis by (auto simp: ts turns_inv_def is_reading_def)
  qed
  moreover have "e \<in> sess_DID ` set (heap m')" if "Send e k \<in># T" for e k
    using inv that image_mono [OF sub, of sess_DID] unfolding turns_inv_def by blast
  ultimately show ?thesis by (simp add: turns_inv_def len) (auto simp: ts)
qed

section \<open>Requests\<close>

text \<open>What a reader has read and not yet dispatched.\<close>

fun held :: "thread \<Rightarrow> (uint16 \<times> bytes) list" where
  "held (RCtrl p op bs) = [(op, bs)]"
| "held _ = []"

definition exchanges_of :: "nat \<Rightarrow> 'w daemon \<Rightarrow> exchange list" where
  "exchanges_of p s = filter (\<lambda>e. ex_sess e = p) (exchanges s)"

definition requests :: "nat \<Rightarrow> 'w daemon \<Rightarrow> (uint16 \<times> bytes) list" where
  "requests p s = map ex_request (exchanges_of p s)"

definition responses :: "nat \<Rightarrow> 'w daemon \<Rightarrow> outboundPacket list" where
  "responses p s = map ex_answer (exchanges_of p s)"

text \<open>The frames of the dispatched requests are the start of what arrived on the connection; while
  the session has its reader, the bytes between them and what is pending are the request it holds.\<close>

definition request_ok :: "SessionManager \<Rightarrow> thread multiset \<Rightarrow> nat \<Rightarrow> (uint16 \<times> bytes) list \<Rightarrow> bytes \<Rightarrow> bool" where
  "request_ok m T p qs bs \<longleftrightarrow> prefix (concat (map request_frame qs)) bs
     \<and> list_all (\<lambda>q. length (snd q) < 65536) qs
     \<and> (\<forall>t \<in># T. is_reader p t \<longrightarrow> list_all (\<lambda>q. length (snd q) < 65536) (held t)
          \<and> bs = concat (map request_frame (qs @ held t)) @ pending (conn_in (conns m (sess_Conn (heap m ! p)))))"

lemma exec_own_reader:
  assumes "exec c t m = Some (Ret (ts, m'))" "is_reader p t" "\<not> is_control t"
    and "bs = concat (map request_frame qs) @ pending (conn_in (conns m (sess_Conn (heap m ! p))))"
  shows "\<forall>u \<in> set ts. is_reader p u \<longrightarrow> list_all (\<lambda>q. length (snd q) < 65536) (held u)
    \<and> bs = concat (map request_frame (qs @ held u)) @ pending (conn_in (conns m' (sess_Conn (heap m' ! p))))"
  using assms
  by (cases t) (auto simp: Let_def split: if_splits read_result.splits prod.splits dest!: readPacket_Done)

lemma run_request_ok:
  assumes ok: "request_ok m (add_mset t M) p qs bs" and ex: "exec c t m = Some (Ret (ts, m'))"
    and turns: "turns_inv m (add_mset t M)" and p: "p < length (heap m)" and table: "table_inv m"
    and t: "thread_ok m t" "\<not> is_control t"
  shows "request_ok m' (mset ts + M) p qs bs"
proof (cases "is_reader p t")
  case True
  have "size (filter_mset (is_reader p) (add_mset t M)) \<le> 1" using turns p by (simp add: turns_inv_def)
  then have "filter_mset (is_reader p) M = {#}" using True by simp
  then have alone: "\<forall>u \<in># M. \<not> is_reader p u" by (simp add: filter_mset_eq_mempty_iff)
  have "held t = []" using t(2) by (cases t) simp_all
  then have "bs = concat (map request_frame qs) @ pending (conn_in (conns m (sess_Conn (heap m ! p))))"
    using ok True by (simp add: request_ok_def)
  from exec_own_reader [OF ex True t(2) this] show ?thesis using ok alone by (auto simp: request_ok_def)
next
  case False
  have "sess_Conn (heap m ! q) \<noteq> sess_Conn (heap m ! p)" if "t = RRead q" for q
    using that False t(1) p table
    by (auto simp: table_inv_def thread_ok_def distinct_conv_nth)
  then have "conn_in (conns m' (sess_Conn (heap m ! p))) = conn_in (conns m (sess_Conn (heap m ! p)))"
    by (rule exec_conn_in [OF ex])
  moreover have "filter (is_reader p) ts = []" using exec_readers(1) [OF ex, of p] False by simp
  ultimately show ?thesis
    using ok exec_heap [OF ex, of p] by (auto simp: request_ok_def filter_empty_conv)
qed

section \<open>Responses\<close>

fun send_packet :: "thread \<Rightarrow> outboundPacket" where
  "send_packet (Send e k) = k"
| "send_packet (SendLocked q e k) = k"
| "send_packet _ = undefined"

text \<open>No response can reach the session any more.\<close>

definition cut_off :: "SessionManager \<Rightarrow> thread multiset \<Rightarrow> nat \<Rightarrow> bool" where
  "cut_off m T p \<longleftrightarrow> isClosed (heap m ! p) \<or> \<not> in_map m p \<and> (\<forall>t \<in># T. \<not> is_locked p t)"

text \<open>The accepted packets are the responses but for the last ones; before the session is cut off
  only the response being passed on is missing.\<close>

definition answer_ok :: "SessionManager \<Rightarrow> thread multiset \<Rightarrow> nat \<Rightarrow> outboundPacket list \<Rightarrow> bool" where
  "answer_ok m T p ks \<longleftrightarrow> (\<exists>rest. ks = accepted (heap m ! p) @ rest
     \<and> (\<forall>t \<in># T. is_send (sess_DID (heap m ! p)) t \<longrightarrow> rest \<noteq> [] \<and> last rest = send_packet t)
     \<and> (cut_off m T p \<or> length rest = size (filter_mset (is_send (sess_DID (heap m ! p))) T)))"

lemma send_alone:
  assumes "turns_inv m (add_mset t M)" "p < length (heap m)" "is_send (sess_DID (heap m ! p)) t"
  shows "\<forall>u \<in># M. \<not> is_send (sess_DID (heap m ! p)) u"
proof -
  let ?e = "sess_DID (heap m ! p)"
  have "size (filter_mset (is_send ?e) (add_mset t M)) \<le> 1" using assms(1,2) by (auto simp: turns_inv_def)
  then have "filter_mset (is_send ?e) M = {#}" using assms(3) by simp
  then show ?thesis by (simp add: filter_mset_eq_mempty_iff)
qed

text \<open>A thread that holds the write lock of \<open>p\<close> for a response sends to its id.\<close>

lemma locked_send: "thread_ok m t \<Longrightarrow> is_locked p t \<Longrightarrow> is_send (sess_DID (heap m ! p)) t"
  by (cases t) (auto simp: thread_ok_def)

lemma cut_off_run:
  assumes "exec c t m = Some (Ret (ts, m'))" "cut_off m (add_mset t M) p" "map_ok m"
  shows "cut_off m' (mset ts + M) p"
proof (cases "isClosed (heap m ! p)")
  case True
  then show ?thesis using exec_isClosed [OF assms(1)] by (simp add: cut_off_def)
next
  case False
  then have out: "\<not> in_map m p" "\<not> is_locked p t" "\<forall>u \<in># M. \<not> is_locked p u"
    using assms(2) by (auto simp: cut_off_def)
  have "\<not> is_locked p u" if "u \<in> set ts" for u
  proof
    assume "is_locked p u"
    then obtain e k where "u = SendLocked p e k" by (cases u) auto
    with exec_sends(3) [OF assms(1)] that have "sessions m e = Some p" by blast
    with assms(3) out(1) show False by (auto simp: map_ok_def in_map_def)
  qed
  then show ?thesis using out exec_in_map [OF assms(1)] by (auto simp: cut_off_def)
qed

lemma run_answer_other:
  assumes ok: "answer_ok m (add_mset t M) p ks" and ex: "exec c t m = Some (Ret (ts, m'))"
    and "map_ok m" "thread_ok m t" "\<not> is_send (sess_DID (heap m ! p)) t"
  shows "answer_ok m' (mset ts + M) p ks"
proof -
  let ?e = "sess_DID (heap m ! p)"
  have e: "sess_DID (heap m' ! p) = ?e" using exec_heap [OF ex] by simp
  have acc: "accepted (heap m' ! p) = accepted (heap m ! p)"
    using exec_accepted [OF ex] locked_send [OF assms(4)] assms(5) by blast
  have none: "filter (is_send ?e) ts = []" using exec_sends(1) [OF ex, of ?e] assms(5) by simp
  then have "\<forall>u \<in> set ts. \<not> is_send ?e u" by (simp add: filter_empty_conv)
  moreover have "size (filter_mset (is_send ?e) (mset ts + M)) = size (filter_mset (is_send ?e) (add_mset t M))"
    using none assms(5) by (simp add: filter_mset_mset)
  ultimately show ?thesis
    using ok cut_off_run [OF ex _ assms(3)] unfolding answer_ok_def e acc by fastforce
qed

text \<open>The situation in which a response is being passed on.\<close>

lemma answer_pending:
  assumes "answer_ok m (add_mset t M) p ks" "turns_inv m (add_mset t M)" "p < length (heap m)"
    "is_send (sess_DID (heap m ! p)) t"
  obtains rest where "ks = accepted (heap m ! p) @ rest" "rest \<noteq> []" "last rest = send_packet t"
    "cut_off m (add_mset t M) p \<or> rest = [send_packet t]" "\<forall>u \<in># M. \<not> is_send (sess_DID (heap m ! p)) u"
proof -
  let ?e = "sess_DID (heap m ! p)"
  have alone: "\<forall>u \<in># M. \<not> is_send ?e u" using send_alone [OF assms(2-4)] .
  then have "filter_mset (is_send ?e) M = {#}" by (simp add: filter_mset_eq_mempty_iff)
  then have sz: "size (filter_mset (is_send ?e) (add_mset t M)) = 1" using assms(4) by simp
  obtain rest where rest: "ks = accepted (heap m ! p) @ rest" "rest \<noteq> []" "last rest = send_packet t"
    "cut_off m (add_mset t M) p \<or> length rest = 1"
    using assms(1,4) unfolding answer_ok_def sz by auto
  moreover have "rest = [send_packet t]" if "length rest = 1" using that rest(3) by (cases rest) auto
  ultimately show ?thesis using that alone by blast
qed

lemma answer_ok_quiet:
  assumes "ks = accepted (heap m ! p) @ rest" "\<forall>u \<in># T. \<not> is_send (sess_DID (heap m ! p)) u"
    "cut_off m T p \<or> rest = []"
  shows "answer_ok m T p ks"
proof -
  have "filter_mset (is_send (sess_DID (heap m ! p))) T = {#}" using assms(2) by (simp add: filter_mset_eq_mempty_iff)
  then have "size (filter_mset (is_send (sess_DID (heap m ! p))) T) = 0" by simp
  then show ?thesis unfolding answer_ok_def using assms by (intro exI [of _ rest]) auto
qed

lemma run_answer_send:
  assumes ok: "answer_ok m (add_mset t M) p ks" and ex: "exec c t m = Some (Ret (ts, m'))"
    and inv: "map_ok m" "did_inv m" "table_inv m" "turns_inv m (add_mset t M)" "p < length (heap m)"
    and tok: "\<forall>u \<in># M. thread_ok m u" and t: "t = Send (sess_DID (heap m ! p)) k"
  shows "answer_ok m' (mset ts + M) p ks"
proof -
  let ?e = "sess_DID (heap m ! p)"
  obtain rest where rest: "ks = accepted (heap m ! p) @ rest" "rest \<noteq> []" "last rest = k"
    "cut_off m (add_mset t M) p \<or> rest = [k]" and alone: "\<forall>u \<in># M. \<not> is_send ?e u"
    by (rule answer_pending [OF ok inv(4,5)]) (auto simp: t)
  show ?thesis
  proof (cases "sessions m ?e")
    case None
    then have "ts = []" "m' = m" using ex t by auto
    moreover have "cut_off m M p" using None alone tok locked_send by (auto simp: cut_off_def in_map_def)
    ultimately show ?thesis using answer_ok_quiet [OF rest(1) alone] by simp
  next
    case (Some q)
    then have "q = p" using inv did_inject [OF inv(2), of q p] by (auto simp: map_ok_def table_inv_def)
    then have ts: "ts = [SendLocked p ?e k]" "m' = m" using ex t Some by auto
    have "in_map m p" using Some \<open>q = p\<close> by (simp add: in_map_def)
    then have "isClosed (heap m ! p) \<or> length rest = 1" using rest(4) by (auto simp: cut_off_def)
    moreover have "filter_mset (is_send ?e) M = {#}" using alone by (simp add: filter_mset_eq_mempty_iff)
    then have sz: "size (filter_mset (is_send ?e) (mset ts + M)) = 1" by (simp add: ts del: filter_mset_eq_mempty_iff)
    ultimately show ?thesis
      using rest(1-3) alone unfolding answer_ok_def ts(2) sz
      by (intro exI [of _ rest]) (auto simp: ts(1) cut_off_def)
  qed
qed

lemma run_answer_locked:
  assumes ok: "answer_ok m (add_mset t M) p ks" and ex: "exec c t m = Some (Ret (ts, m'))"
    and inv: "turns_inv m (add_mset t M)" "p < length (heap m)" and t: "t = SendLocked p (sess_DID (heap m ! p)) k"
  shows "answer_ok m' (mset ts + M) p ks"
proof -
  let ?e = "sess_DID (heap m ! p)"
  obtain rest where rest: "ks = accepted (heap m ! p) @ rest" "rest \<noteq> []" "last rest = k"
    "cut_off m (add_mset t M) p \<or> rest = [k]" and alone: "\<forall>u \<in># M. \<not> is_send ?e u"
    by (rule answer_pending [OF ok inv]) (auto simp: t)
  have alone': "\<forall>u \<in># mset ts + M. \<not> is_send (sess_DID (heap m' ! p)) u"
    using alone ex exec_heap [OF ex, of p] by (auto simp: t split: go.splits dest!: send_locked_Ret)
  obtain err where sl: "send_locked p ?e k m = Ret (err, ts, m')" using ex by (auto simp: t split: go.splits)
  show ?thesis
  proof (cases "isClosed (heap m' ! p)")
    case True
    have "accepted (heap m' ! p) = accepted (heap m ! p)"
      using send_locked_Ret [OF sl] True inv(2) by auto
    with answer_ok_quiet [OF _ alone'] rest(1) True show ?thesis by (simp add: cut_off_def)
  next
    case False
    then have "accepted (heap m' ! p) = accepted (heap m ! p) @ [k]" "\<not> isClosed (heap m ! p)"
      using send_locked_Ret [OF sl] inv(2) by auto
    moreover from this(2) have "rest = [k]" using rest(4) by (auto simp: cut_off_def t)
    ultimately show ?thesis using answer_ok_quiet [OF _ alone', of ks "[]"] rest(1) by simp
  qed
qed

lemma run_answer_ok:
  assumes ok: "answer_ok m (add_mset t M) p ks" and ex: "exec c t m = Some (Ret (ts, m'))"
    and inv: "map_ok m" "did_inv m" "table_inv m" "turns_inv m (add_mset t M)" "p < length (heap m)"
    and tok: "thread_ok m t" "\<forall>u \<in># M. thread_ok m u"
  shows "answer_ok m' (mset ts + M) p ks"
proof (cases "is_send (sess_DID (heap m ! p)) t")
  case True
  then consider k where "t = Send (sess_DID (heap m ! p)) k"
    | q k where "t = SendLocked q (sess_DID (heap m ! p)) k" by (cases t) auto
  then show ?thesis
  proof cases
    case 1
    then show ?thesis using run_answer_send [OF ok ex inv tok(2)] by blast
  next
    case (2 q k)
    then have "q = p" using tok(1) did_inject [OF inv(2) _ inv(5), of q] inv(3) by (auto simp: thread_ok_def table_inv_def)
    with 2 show ?thesis using run_answer_locked [OF ok ex inv(4,5)] by blast
  qed
qed (rule run_answer_other [OF ok ex inv(1) tok(1)])

section \<open>The invariant of the daemon\<close>

text \<open>Threads that neither read nor send.\<close>

definition idle :: "thread \<Rightarrow> bool" where
  "idle t \<longleftrightarrow> (\<forall>p. \<not> is_reader p t \<and> \<not> is_locked p t) \<and> (\<forall>e. \<not> is_send e t)"

lemma idle_simps [simp]:
  "idle (WLoop p)" "idle (Unreg e ow)" "idle CloseCancel" "idle (CloseConns ps)"
  by (simp_all add: idle_def)

lemma idle_thread [simp]:
  assumes "idle t"
  shows "turns_inv m (add_mset t T) = turns_inv m T" "request_ok m (add_mset t T) p qs bs = request_ok m T p qs bs"
    "answer_ok m (add_mset t T) p ks = answer_ok m T p ks"
proof -
  have "\<And>e k. t \<noteq> Send e k" using assms by (auto simp: idle_def)
  then show "turns_inv m (add_mset t T) = turns_inv m T"
    using assms by (auto simp: turns_inv_def is_reading_def idle_def)
qed (use assms in \<open>simp_all add: request_ok_def answer_ok_def cut_off_def idle_def\<close>)

definition daemon_inv :: "'w daemon \<Rightarrow> bool" where
  "daemon_inv s \<longleftrightarrow> (let m = mgr (sys s); T = threads (sys s) in
     table_inv m \<and> turns_inv m T \<and> (\<forall>e \<in> set (exchanges s). ex_sess e < length (heap m))
   \<and> (\<forall>k. k \<notin> sess_Conn ` set (heap m) \<longrightarrow> received s k = pending (conn_in (conns m k)))
   \<and> (\<forall>p < length (heap m). request_ok m T p (requests p s) (received s (sess_Conn (heap m ! p)))
       \<and> answer_ok m T p (responses p s)))"

lemma exchange_views:
  "requests p (s\<lparr>sys := x\<rparr>) = requests p s" "responses p (s\<lparr>sys := x\<rparr>) = responses p s"
  "requests p (s\<lparr>world := w\<rparr>) = requests p s" "responses p (s\<lparr>world := w\<rparr>) = responses p s"
  "requests p (s\<lparr>received := rc\<rparr>) = requests p s" "responses p (s\<lparr>received := rc\<rparr>) = responses p s"
  by (simp_all add: requests_def responses_def exchanges_of_def)

lemma work_daemon_inv:
  assumes inv: "daemon_inv s" "base_inv (sys s)" "did_inv (mgr (sys s))"
    and t: "threads (sys s) = add_mset t M" and ex: "exec c t (mgr (sys s)) = Some (Ret (ts, m'))"
    and "\<not> is_control t" "\<And>p. t = RLoop p \<Longrightarrow> \<not> in_callback p (sys s)"
  shows "daemon_inv (s\<lparr>sys := (sys s)\<lparr>mgr := m', threads := mset ts + M\<rparr>\<rparr>)"
proof -
  let ?m = "mgr (sys s)"
  have base: "map_ok ?m" "thread_ok ?m t" "\<forall>u \<in># M. thread_ok ?m u" using inv(2) t by (auto simp: base_inv_def)
  have heap: "length (heap m') = length (heap ?m)" "\<And>p. sess_Conn (heap m' ! p) = sess_Conn (heap ?m ! p)"
    using exec_heap [OF ex] by auto
  have old: "table_inv ?m" "turns_inv ?m (add_mset t M)" using inv(1) t by (auto simp: daemon_inv_def Let_def)
  have conns: "sess_Conn ` set (heap m') = sess_Conn ` set (heap ?m)"
    using exec_map_heap(2) [OF ex] by (metis image_set)
  have "conn_in (conns m' k) = conn_in (conns ?m k)" if "k \<notin> sess_Conn ` set (heap ?m)" for k
    by (rule exec_conn_in [OF ex]) (use that base(2) in \<open>auto simp: thread_ok_def\<close>)
  moreover have "turns_inv m' (mset ts + M)"
    by (rule run_turns_inv [OF old(2) ex]) (use assms(7) t in \<open>auto simp: in_callback_def\<close>)
  moreover have "table_inv m'" using old(1) exec_map_heap [OF ex] heap by (simp add: table_inv_def)
  moreover have "request_ok m' (mset ts + M) p qs bs" if "request_ok ?m (add_mset t M) p qs bs" "p < length (heap ?m)" for p qs bs
    using run_request_ok [OF that(1) ex old(2) that(2) old(1) base(2) assms(6)] .
  moreover have "answer_ok m' (mset ts + M) p ks" if "answer_ok ?m (add_mset t M) p ks" "p < length (heap ?m)" for p ks
    using run_answer_ok [OF that(1) ex base(1) inv(3) old that(2) base(2,3)] .
  ultimately show ?thesis
    using inv(1) t heap conns by (simp add: daemon_inv_def Let_def exchange_views)
qed

lemma control_request_ok:
  assumes ok: "request_ok m (add_mset (RCtrl p op bs) M) q qs rc" and turns: "turns_inv m (add_mset (RCtrl p op bs) M)"
    and q: "q < length (heap m)" and m': "heap m' = heap m" "conns m' = conns m"
  shows "request_ok m' (add_mset (Send e k) (add_mset (RLoop p) M)) q (qs @ (if p = q then [(op, bs)] else [])) rc"
proof (cases "p = q")
  case True
  have "size (filter_mset (is_reader q) (add_mset (RCtrl p op bs) M)) \<le> 1" using turns q by (simp add: turns_inv_def)
  then have "filter_mset (is_reader q) M = {#}" using True by simp
  then have "\<forall>u \<in># M. \<not> is_reader q u" by (simp add: filter_mset_eq_mempty_iff)
  then show ?thesis using ok True by (auto simp: request_ok_def m')
qed (use ok in \<open>auto simp: request_ok_def m'\<close>)

lemma control_answer_ok:
  assumes ok: "answer_ok m (add_mset (RCtrl p op bs) M) q ks" and turns: "turns_inv m (add_mset (RCtrl p op bs) M)"
    and pq: "q < length (heap m)" "p < length (heap m)" and table: "did_inv m" "table_inv m"
    and m': "heap m' = heap m" "sessions m' = sessions m"
  shows "answer_ok m' (add_mset (Send (sess_DID (heap m ! p)) k) (add_mset (RLoop p) M)) q
    (ks @ (if p = q then [k] else []))"
proof -
  let ?e = "sess_DID (heap m ! q)"
  have cut: "cut_off m' (add_mset (Send e k) (add_mset (RLoop p) M)) q = cut_off m (add_mset (RCtrl p op bs) M) q" for e
    by (simp add: cut_off_def in_map_def m')
  show ?thesis
  proof (cases "p = q")
    case True
    have "size (filter_mset (is_reading q) (add_mset (RCtrl p op bs) M)) + size (filter_mset (is_send ?e) M) \<le> 1"
      using turns pq(1) by (auto simp: turns_inv_def)
    then have none: "filter_mset (is_send ?e) M = {#}" using True by (simp add: is_reading_def)
    then have "\<forall>u \<in># M. \<not> is_send ?e u" by (simp add: filter_mset_eq_mempty_iff)
    moreover obtain rest where "ks = accepted (heap m ! q) @ rest"
      "cut_off m (add_mset (RCtrl p op bs) M) q \<or> rest = []"
      using ok none by (auto simp: answer_ok_def)
    ultimately show ?thesis
      using True none unfolding answer_ok_def cut
      by (intro exI [of _ "rest @ [k]"]) (auto simp: m' simp del: filter_mset_eq_mempty_iff)
  next
    case False
    then have "sess_DID (heap m ! p) \<noteq> ?e"
      using did_inject [OF table(1) _ pq(2,1)] table(2) by (auto simp: table_inv_def)
    then show ?thesis using ok False unfolding answer_ok_def cut by (simp add: m')
  qed
qed

lemma control_daemon_inv:
  assumes inv: "daemon_inv s" "base_inv (sys s)" "did_inv (mgr (sys s))"
    and t: "threads (sys s) = add_mset (RCtrl p op bs) M"
    and ex: "exec c (RCtrl p op bs) (mgr (sys s)) = Some (Ret (ts, m'))" and did: "did = sess_DID (heap (mgr (sys s)) ! p)"
  shows "daemon_inv (s\<lparr>sys := (sys s)\<lparr>mgr := m', threads := add_mset (Send did k) (mset ts + M)\<rparr>, world := w',
       exchanges := exchanges s @ [\<lparr>ex_sess = p, ex_DID = did, ex_request = (op, bs), ex_answer = k\<rparr>]\<rparr>)"
    (is "daemon_inv ?s'")
proof -
  let ?m = "mgr (sys s)"
  have "requests q ?s' = requests q s @ (if p = q then [(op, bs)] else [])"
    "responses q ?s' = responses q s @ (if p = q then [k] else [])" for q
    by (simp_all add: requests_def responses_def exchanges_of_def)
  note views = this
  have p: "p < length (heap ?m)" using inv(2) t by (auto simp: base_inv_def thread_ok_def)
  have ts: "ts = [RLoop p]" and m': "heap m' = heap ?m" "sessions m' = sessions ?m" "conns m' = conns ?m"
    using ex by (auto split: if_splits)
  have old: "table_inv ?m" "turns_inv ?m (add_mset (RCtrl p op bs) M)" using inv(1) t by (auto simp: daemon_inv_def Let_def)
  have "turns_inv m' (add_mset (Send did k) (add_mset (RLoop p) M))"
    using control_turns_inv [OF old(2) p inv(3) old(1) ex] by (simp add: did ts)
  moreover have "table_inv m'" using old(1) by (simp add: table_inv_def m')
  moreover note control_request_ok [OF _ old(2) _ m'(1,3)] control_answer_ok [OF _ old(2) _ p inv(3) old(1) m'(1,2)]
  ultimately show ?thesis
    using inv(1) t p unfolding daemon_inv_def Let_def views by (simp add: ts did m')
qed

lemma client_daemon_inv:
  assumes inv: "daemon_inv s" and pend: "pending (conn_in cn) = pending (conn_in (conns (mgr (sys s)) k)) @ bs"
  shows "daemon_inv (s\<lparr>sys := (sys s)\<lparr>mgr := upd_conn k cn (mgr (sys s))\<rparr>,
       received := (received s)(k := received s k @ bs)\<rparr>)"
proof -
  let ?m = "mgr (sys s)"
  define rc where "rc = (received s)(k := received s k @ bs)"
  have "answer_ok (upd_conn k cn ?m) T p ks = answer_ok ?m T p ks" for T p ks
    by (simp add: answer_ok_def cut_off_def in_map_def)
  moreover have "request_ok (upd_conn k cn ?m) T p qs (rc (sess_Conn (heap ?m ! p)))"
    if "request_ok ?m T p qs (received s (sess_Conn (heap ?m ! p)))" for T p qs
    using that pend by (auto simp: request_ok_def rc_def)
  moreover have "rc j = pending (conn_in (conns (upd_conn k cn ?m) j))" if "j \<notin> sess_Conn ` set (heap ?m)" for j
    using inv pend that by (auto simp: rc_def daemon_inv_def Let_def)
  moreover have "turns_inv (upd_conn k cn ?m) T = turns_inv ?m T" "table_inv (upd_conn k cn ?m) = table_inv ?m" for T
    by (simp_all add: turns_inv_def table_inv_def)
  ultimately show ?thesis
    using inv unfolding daemon_inv_def Let_def rc_def [symmetric] by (simp add: exchange_views)
qed

lemma register_daemon_inv:
  assumes inv: "daemon_inv s" "base_inv (sys s)" "did_inv m'"
    and new: "k \<notin> sess_Conn ` set (heap (mgr (sys s)))" "Suc (length (heap (mgr (sys s)))) < 2 ^ 32"
    and reg: "RegisterSession (Some k) (mgr (sys s)) = Ret (r, ts, m')"
  shows "daemon_inv (s\<lparr>sys := (sys s)\<lparr>mgr := m', threads := mset ts + threads (sys s)\<rparr>\<rparr>)"
proof -
  let ?m = "mgr (sys s)" let ?T = "threads (sys s)" let ?n = "length (heap ?m)"
  have old: "table_inv ?m" "turns_inv ?m ?T" and tok: "\<forall>t \<in># ?T. thread_ok ?m t"
    using inv by (auto simp: daemon_inv_def Let_def base_inv_def)
  have ts: "mset ts + ?T = add_mset (WLoop ?n) (add_mset (RLoop ?n) ?T)" and len: "length (heap m') = Suc ?n"
    and same: "\<And>q. q < ?n \<Longrightarrow> heap m' ! q = heap ?m ! q" "conns m' = conns ?m"
    and n: "accepted (heap m' ! ?n) = []" "sess_Conn (heap m' ! ?n) = k" "sess_Conn ` set (heap m') = insert k (sess_Conn ` set (heap ?m))"
    and maps: "sessions m' = (sessions ?m)(sess_DID (heap m' ! ?n) \<mapsto> ?n)"
    using reg by (auto simp: RegisterSession_Some nth_append)
  have table: "table_inv m'" using old(1) new reg by (auto simp: table_inv_def RegisterSession_Some)
  note fresh = register_fresh [OF old(2) tok reg inv(3) table]
  have req: "request_ok m' (add_mset (RLoop ?n) ?T) p qs bs = request_ok ?m ?T p qs bs" if "p < ?n" for p qs bs
    using that by (simp add: request_ok_def same)
  have "sess_DID (heap ?m ! p) \<noteq> sess_DID (heap m' ! ?n)" if "p < ?n" for p using that fresh(1) by simp
  then have ans: "answer_ok m' (add_mset (RLoop ?n) ?T) p ks = answer_ok ?m ?T p ks" if "p < ?n" for p ks
    using that by (simp add: answer_ok_def cut_off_def in_map_def same maps)
  have "\<forall>e \<in> set (exchanges s). ex_sess e \<noteq> ?n" using inv(1) by (auto simp: daemon_inv_def Let_def)
  then have none: "requests ?n s = []" "responses ?n s = []"
    by (simp_all add: requests_def responses_def exchanges_of_def)
  have "request_ok m' (add_mset (RLoop ?n) ?T) ?n [] (received s k)"
    using fresh(2) inv(1) new(1) by (simp add: request_ok_def n same daemon_inv_def Let_def)
  moreover have "answer_ok m' (add_mset (RLoop ?n) ?T) ?n []"
    by (rule answer_ok_quiet) (use fresh(2) n in auto)
  moreover have "turns_inv m' (add_mset (RLoop ?n) ?T)"
    using register_turns_inv [OF old(2) tok reg inv(3) table] by (simp add: ts)
  ultimately show ?thesis
    using inv(1) table req ans
    by (auto simp: daemon_inv_def Let_def exchange_views len less_Suc_eq ts none n same)
qed

text \<open>What a reachable state of the daemon inherits from the session manager.\<close>

lemma daemon_manager_inv:
  assumes "daemon_reachable d w s"
  shows "base_inv (sys s)" "did_inv (mgr (sys s))" "order_inv (sys s)"
  using reachable_base_inv [OF daemon_reachable_manager [OF assms]]
    reachable_did_inv [OF daemon_reachable_manager [OF assms]]
    reachable_order_inv [OF daemon_reachable_manager [OF assms]]
  by (simp_all add: order_inv_def)

lemma daemon_inv_frame:
  assumes "daemon_inv s" "heap m' = heap (mgr (sys s))" "sessions m' = sessions (mgr (sys s))" "conns m' = conns (mgr (sys s))"
  shows "daemon_inv (s\<lparr>sys := (sys s)\<lparr>mgr := m'\<rparr>\<rparr>)"
  using assms
  by (simp add: daemon_inv_def Let_def exchange_views table_inv_def turns_inv_def request_ok_def answer_ok_def
      cut_off_def in_map_def)

lemma step_daemon_inv:
  assumes "daemon_step d s s'" "daemon_inv s" "base_inv (sys s)" "did_inv (mgr (sys s))" "did_inv (mgr (sys s'))"
  shows "daemon_inv s'"
  using assms(1)
proof cases
  case (work t M c ts m')
  then show ?thesis using work_daemon_inv [OF assms(2-4) work(2-4)] by blast
next
  case (control p op bs M c ts m' did k w')
  then show ?thesis using control_daemon_inv [OF assms(2-4) control(2-4)] by blast
next
  case (arrival k r ts m')
  then show ?thesis using register_daemon_inv [OF assms(2,3) _ arrival(3-5)] assms(5) by simp
next
  case (client k cn bs)
  then show ?thesis using client_daemon_inv [OF assms(2)] by blast
next
  case (set_on_close b)
  then show ?thesis using daemon_inv_frame [OF assms(2), of "SetOnClose b (mgr (sys s))"] by (simp add: SetOnClose_def)
next
  case parent_cancelled
  then show ?thesis using daemon_inv_frame [OF assms(2), of "(mgr (sys s))\<lparr>ctx_done := True\<rparr>"] by simp
qed (use assms(2) in \<open>simp_all add: daemon_inv_def Let_def exchange_views\<close>)

lemma reachable_daemon_inv: "daemon_reachable d w s \<Longrightarrow> daemon_inv s"
proof (induction rule: daemon_reachable.induct)
  case (init parent_done cs)
  show ?case
    by (simp add: daemon_start_def start_def NewSessionManager_def SetControlCallback_def daemon_inv_def
        table_inv_def turns_inv_def)
next
  case (later s s')
  note now = daemon_manager_inv [OF later.hyps(1)]
  show ?case
    by (rule step_daemon_inv [OF later.hyps(3) later.IH now(1,2)])
      (rule daemon_manager_inv [OF daemon_reachable.later [OF later.hyps]])
qed

section \<open>System calls one after the other\<close>

text \<open>The exchanges run again, in their order, on a world.\<close>

fun replay :: "'w Dispatcher \<Rightarrow> exchange list \<Rightarrow> 'w \<Rightarrow> 'w option" where
  "replay d [] w = Some w"
| "replay d (e # es) w =
     (case control_callback d (ex_DID e) (fst (ex_request e)) (snd (ex_request e)) w of
        (Ret k, w') \<Rightarrow> if k = ex_answer e then replay d es w' else None
      | (Panic x, w') \<Rightarrow> None)"

lemma replay_append: "replay d (es @ fs) w = (case replay d es w of None \<Rightarrow> None | Some w' \<Rightarrow> replay d fs w')"
  by (induction es arbitrary: w) (auto split: prod.splits go.splits)

lemma reachable_replay:
  "daemon_reachable d w s \<Longrightarrow> crashed (sys s) = None \<Longrightarrow> replay d (exchanges s) w = Some (world s)"
proof (induction rule: daemon_reachable.induct)
  case (init parent_done cs)
  then show ?case by (simp add: daemon_start_def)
next
  case (later s s')
  from later.hyps(3) later.prems later.IH [OF later.hyps(2)] show ?case
    by (cases rule: daemon_step.cases) (simp_all add: replay_append)
qed

lemma control_callback_opcode: "control_callback d did op bs w = (Ret k, w') \<Longrightarrow> pkt_opcode k = op"
  by (auto simp: control_callback_def DispatchSysCall_def split: option.splits prod.splits go.splits)

lemma replay_opcodes: "replay d es w = Some w' \<Longrightarrow> e \<in> set es \<Longrightarrow> pkt_opcode (ex_answer e) = fst (ex_request e)"
  by (induction es arbitrary: w) (auto split: prod.splits go.splits if_splits dest: control_callback_opcode)

end
