(* ===== verification/DaemonProps.thy ===== *)
theory DaemonProps
  imports DaemonSafety
begin

text \<open>
  Properties of the wired daemon, with an executable driver for concrete runs.
\<close>

section \<open>Runs\<close>

text \<open>A daemon none of whose clients sends more than it has sent at the start.\<close>

type_synonym 'w daemon_config = "SessionManager \<times> thread list \<times> 'w \<times> exchange list"

datatype daemon_move = Turn nat bool | Join nat

fun answer_of :: "'w Dispatcher \<Rightarrow> SessionManager \<Rightarrow> thread \<Rightarrow> 'w \<Rightarrow> (exchange \<times> 'w) option" where
  "answer_of d m (RCtrl p op bs) w =
     (case control_callback d (sess_DID (heap m ! p)) op bs w of
        (Ret k, w') \<Rightarrow>
          Some (\<lparr>ex_sess = p, ex_DID = sess_DID (heap m ! p), ex_request = (op, bs), ex_answer = k\<rparr>, w')
      | (Panic x, w') \<Rightarrow> None)"
| "answer_of d m _ w = None"

fun must_wait :: "SessionManager \<Rightarrow> thread list \<Rightarrow> thread \<Rightarrow> bool" where
  "must_wait m ts (RLoop p) = list_ex (is_send (sess_DID (heap m ! p))) ts"
| "must_wait m ts _ = False"

fun daemon_move1 :: "'w Dispatcher \<Rightarrow> daemon_move \<Rightarrow> 'w daemon_config \<Rightarrow> 'w daemon_config option" where
  "daemon_move1 d (Turn i c) (m, ts, w, ex) =
     (if \<not> i < length ts \<or> must_wait m ts (ts ! i) then None
      else case exec c (ts ! i) m of
             Some (Ret (us, m')) \<Rightarrow>
               if is_control (ts ! i)
               then (case answer_of d m (ts ! i) w of
                       None \<Rightarrow> None
                     | Some (e, w') \<Rightarrow>
                         Some (m', take i ts @ us @ Send (ex_DID e) (ex_answer e) # drop (Suc i) ts, w', ex @ [e]))
               else Some (m', take i ts @ us @ drop (Suc i) ts, w, ex)
           | _ \<Rightarrow> None)"
| "daemon_move1 d (Join k) (m, ts, w, ex) =
     (if k \<in> sess_Conn ` set (heap m) \<or> 2 ^ 32 \<le> Suc (length (heap m)) then None
      else case RegisterSession (Some k) m of
             Ret (r, us, m') \<Rightarrow> Some (m', ts @ us, w, ex)
           | Panic x \<Rightarrow> None)"

fun daemon_drive :: "'w Dispatcher \<Rightarrow> daemon_move list \<Rightarrow> 'w daemon_config \<Rightarrow> 'w daemon_config option" where
  "daemon_drive d [] cfg = Some cfg"
| "daemon_drive d (x # xs) cfg =
     (case daemon_move1 d x cfg of None \<Rightarrow> None | Some cfg' \<Rightarrow> daemon_drive d xs cfg')"

fun daemon_of :: "(nat \<Rightarrow> conn) \<Rightarrow> 'w daemon_config \<Rightarrow> 'w daemon" where
  "daemon_of cs (m, ts, w, ex) =
     \<lparr>sys = \<lparr>mgr = m, threads = mset ts, closing = False, crashed = None\<rparr>, world = w,
      received = (\<lambda>k. pending (conn_in (cs k))), exchanges = ex\<rparr>"

text \<open>The threads of a configuration with the one that moves in front.\<close>

lemma mset_take_out: "i < length ts \<Longrightarrow> mset ts = add_mset (ts ! i) (mset (take i ts) + mset (drop (Suc i) ts))"
  by (subst id_take_nth_drop [of i ts]) simp_all

lemma turn_control:
  assumes "i < length ts" "exec c (ts ! i) m = Some (Ret (us, m'))" "answer_of d m (ts ! i) w = Some (e, w')"
  shows "daemon_step d (daemon_of cs (m, ts, w, ex))
    (daemon_of cs (m', take i ts @ us @ Send (ex_DID e) (ex_answer e) # drop (Suc i) ts, w', ex @ [e]))"
proof -
  obtain p op bs where t: "ts ! i = RCtrl p op bs" using assms(3) by (cases "ts ! i") simp_all
  then obtain k where k: "control_callback d (sess_DID (heap m ! p)) op bs w = (Ret k, w')"
    "e = \<lparr>ex_sess = p, ex_DID = sess_DID (heap m ! p), ex_request = (op, bs), ex_answer = k\<rparr>"
    using assms(3) by (auto split: prod.splits go.splits)
  show ?thesis
    using daemon_step.control [of "daemon_of cs (m, ts, w, ex)" p op bs "mset (take i ts) + mset (drop (Suc i) ts)"
        c us m' "sess_DID (heap m ! p)" d k w'] assms(2) k mset_take_out [OF assms(1)]
    by (simp add: t ac_simps del: exec.simps)
qed

lemma turn_work:
  assumes "i < length ts" "exec c (ts ! i) m = Some (Ret (us, m'))" "\<not> is_control (ts ! i)"
    "\<not> must_wait m ts (ts ! i)"
  shows "daemon_step d (daemon_of cs (m, ts, w, ex)) (daemon_of cs (m', take i ts @ us @ drop (Suc i) ts, w, ex))"
proof -
  let ?s = "daemon_of cs (m, ts, w, ex)"
  have "\<not> in_callback p (sys ?s)" if "ts ! i = RLoop p" for p
    using assms(4) that by (simp add: in_callback_def list_ex_iff)
  then show ?thesis
    using daemon_step.work [of ?s "ts ! i" "mset (take i ts) + mset (drop (Suc i) ts)" c us m' d] assms(2,3)
      mset_take_out [OF assms(1)]
    by (simp add: ac_simps)
qed

lemma daemon_move1_step:
  assumes "daemon_move1 d x (m, ts, w, ex) = Some cfg'"
  shows "daemon_step d (daemon_of cs (m, ts, w, ex)) (daemon_of cs cfg')"
proof (cases x)
  case (Join k)
  with assms obtain r us m' where "RegisterSession (Some k) m = Ret (r, us, m')" "cfg' = (m', ts @ us, w, ex)"
    "k \<notin> sess_Conn ` set (heap m)" "Suc (length (heap m)) < 2 ^ 32"
    by (auto split: if_splits go.splits)
  then show ?thesis
    using daemon_step.arrival [of "daemon_of cs (m, ts, w, ex)" k r us m' d] by (simp add: ac_simps)
next
  case (Turn i c)
  with assms obtain us m' where i: "i < length ts" and ex: "exec c (ts ! i) m = Some (Ret (us, m'))"
    and wait: "\<not> must_wait m ts (ts ! i)"
    by (auto split: if_splits option.splits go.splits)
  show ?thesis
  proof (cases "is_control (ts ! i)")
    case True
    with assms Turn i ex wait obtain e w' where e: "answer_of d m (ts ! i) w = Some (e, w')"
      and cfg': "cfg' = (m', take i ts @ us @ Send (ex_DID e) (ex_answer e) # drop (Suc i) ts, w', ex @ [e])"
      by (auto split: option.splits)
    show ?thesis unfolding cfg' by (rule turn_control [OF i ex e])
  next
    case False
    with assms Turn i ex wait have "cfg' = (m', take i ts @ us @ drop (Suc i) ts, w, ex)" by simp
    then show ?thesis using turn_work [OF i ex False wait] by metis
  qed
qed

lemma daemon_drive_reachable:
  "daemon_reachable d w0 (daemon_of cs cfg) \<Longrightarrow> daemon_drive d xs cfg = Some cfg' \<Longrightarrow>
   daemon_reachable d w0 (daemon_of cs cfg')"
proof (induction xs arbitrary: cfg)
  case (Cons x xs)
  from Cons.prems(2) obtain c1 where c1: "daemon_move1 d x cfg = Some c1" "daemon_drive d xs c1 = Some cfg'"
    by (auto split: option.splits)
  obtain m ts w ex where cfg: "cfg = (m, ts, w, ex)" by (cases cfg)
  from daemon_move1_step [OF c1(1) [unfolded cfg]]
  have "daemon_reachable d w0 (daemon_of cs c1)"
    by (intro daemon_reachable.later [OF Cons.prems(1)]) (simp_all add: cfg)
  with Cons.IH c1(2) show ?case by blast
qed simp

text \<open>One client, on connection 4, that has sent an egress request for the bytes 7 and 8; the network
  engine records what it is given. The request is read, dispatched, and its response passed on and
  written.\<close>

definition one_client :: "nat \<Rightarrow> conn" where
  "one_client k = (silent k)\<lparr>conn_in := \<lparr>pending = if k = 4 then [0, 1, 0, 4, 0, 2, 7, 8] else [], eof = False\<rparr>\<rparr>"

definition recorder :: "(DID \<times> bytes) list IEgress" where
  "recorder did data w = (None, w @ [(did, data)])"

definition one_dispatcher :: "(DID \<times> bytes) list Dispatcher" where
  "one_dispatcher = the (snd (RegisterDefaultHandlers (Some NewDispatcher) None (Some recorder)))"

definition one_run :: "daemon_move list" where
  "one_run = [Join 4, Turn 0 False, Turn 0 False, Turn 0 False, Turn 1 False, Turn 1 False, Turn 1 False, Turn 1 False]"

definition one_start :: "(DID \<times> bytes) list daemon_config" where
  "one_start = (SetControlCallback True (NewSessionManager False one_client), [], [], [])"

definition one_daemon :: "(DID \<times> bytes) list daemon" where
  "one_daemon = (case daemon_drive one_dispatcher one_run one_start of
     None \<Rightarrow> daemon_of one_client one_start | Some cfg \<Rightarrow> daemon_of one_client cfg)"

lemma one_daemon_reachable: "daemon_reachable one_dispatcher [] one_daemon"
proof -
  have "daemon_reachable one_dispatcher [] (daemon_of one_client one_start)"
    using daemon_reachable.init [of one_dispatcher "[]" False one_client]
    by (simp add: daemon_start_def start_def one_start_def)
  from this daemon_drive_reachable [OF this] show ?thesis
    unfolding one_daemon_def by (cases "daemon_drive one_dispatcher one_run one_start") (simp_all only: option.case)
qed

lemma one_dispatcher_default:
  "RegisterDefaultHandlers (Some NewDispatcher) None (Some recorder) = (None, Some one_dispatcher)"
  by (simp add: one_dispatcher_def RegisterDefaultHandlers_def RegisterSysCall_def NewDispatcher_def)

lemma one_lookup: "syscall_lookup one_dispatcher OpcodeEgressRoute = Some (egress_descriptor (Some recorder))"
  using default_table [OF one_dispatcher_default] by simp

lemma one_callback:
  "control_callback one_dispatcher did OpcodeEgressRoute [0, 2, 7, 8] w
     = (Ret \<lparr>pkt_opcode = OpcodeEgressRoute, pkt_statusCode = Success, pkt_data = []\<rparr>, w @ [(did, [7, 8])])"
  by (simp add: control_callback_def DispatchSysCall_def one_lookup egress_descriptor_def MakeEgressRouteHandler_def
      ReadBytesParam_def recorder_def slice_def Let_def)

lemma one_daemon_end:
  "length (heap (mgr (sys one_daemon))) = 1" "sess_Conn (heap (mgr (sys one_daemon)) ! 0) = 4"
  "sent (heap (mgr (sys one_daemon)) ! 0) = [0, 1, 0, 0, 0, 0]" "world one_daemon = [(1, [7, 8])]"
  "received one_daemon 4 = [0, 1, 0, 4, 0, 2, 7, 8]" "crashed (sys one_daemon) = None"
  by (simp_all add: one_daemon_def one_run_def one_start_def one_client_def run_simps readPacket_def ReadFull_def
      slice_def SetControlCallback_def one_callback [unfolded OpcodeEgressRoute_def] Success_def PutUint16_def)

section \<open>Requests are answered in order\<close>

text \<open>The dispatched requests are the first ones the client sent.\<close>

lemma requests_prefix:
  assumes "daemon_inv s" "p < length (heap (mgr (sys s)))" "list_all (\<lambda>q. length (snd q) < 65536) qs"
    "prefix (received s (sess_Conn (heap (mgr (sys s)) ! p))) (concat (map request_frame qs))"
  shows "prefix (requests p s) qs"
proof -
  let ?rs = "requests p s"
  have ok: "prefix (concat (map request_frame ?rs)) (received s (sess_Conn (heap (mgr (sys s)) ! p)))"
    "list_all (\<lambda>q. length (snd q) < 65536) ?rs"
    using assms(1,2) by (auto simp: daemon_inv_def Let_def request_ok_def)
  have "fst (parse_frames (length ?rs) parse_request (concat (map request_frame ?rs))) = ?rs"
    using request.parse_frames_concat [OF ok(2) order.refl parse_request_Nil] by simp
  moreover have "prefix (fst (parse_frames (length ?rs) parse_request (concat (map request_frame ?rs)))) qs"
    by (rule request.parse_frames_prefix [OF assms(3) prefix_order.trans [OF ok(1) assms(4)] parse_request_Nil])
  ultimately show ?thesis by simp
qed

lemma list_all2_prefixes:
  assumes "prefix rs (map g es)" "prefix (map f es) qs" "\<And>e. e \<in> set es \<Longrightarrow> P (f e) (g e)"
  shows "list_all2 P (take (length rs) qs) rs"
proof -
  have len: "length rs \<le> length es" using prefix_length_le [OF assms(1)] by simp
  have rs: "rs = map g (take (length rs) es)" using assms(1) by (metis append_eq_conv_conj prefix_def take_map)
  have qs: "take (length rs) qs = map f (take (length rs) es)"
    using assms(2) len by (auto simp: prefix_def take_map)
  have "list_all2 P (map f es') (map g es')" if "set es' \<subseteq> set es" for es'
    using that assms(3) nth_mem [of _ es'] by (auto simp: list_all2_conv_all_nth simp del: nth_mem)
  from this [OF set_take_subset] show ?thesis by (subst qs, subst (2) rs)
qed



section \<open>Panics\<close>

lemma default_dispatch_panic:
  assumes "RegisterDefaultHandlers (Some NewDispatcher) km egress = (None, Some d)"
    and "control_callback d did op bs w = (Panic x, w')"
  shows "\<exists>g v. km = Some g \<and> GenerateKey (g w) v = Panic x"
  using assms(2)
  by (auto simp: control_callback_def DispatchSysCall_def default_table [OF assms(1)] egress_descriptor_def
      invite_descriptor_def MakeEgressRouteHandler_def MakeGetInviteKeyHandler_def Let_def
      split: option.splits prod.splits go.splits if_splits sum.splits) blast+



end
