(* ===== verification/GoNet.thy ===== *)
theory GoNet
  imports Interfaces
begin

text \<open>
  The textual form of \<^verbatim>\<open>net.IP\<close> that the STUN client compares: dotted decimal for four-byte
  and IPv4-mapped addresses, the compressed form of RFC 5952 for other sixteen-byte addresses, and
  the two fallbacks for other lengths. Two addresses have the same text exactly when they are the
  same address, an IPv4-mapped address counting as the IPv4 address.
\<close>

section \<open>Definitions\<close>

text \<open>\<^verbatim>\<open>IP.To4\<close>.\<close>

definition To4 :: "bytes \<Rightarrow> bytes option" where
  "To4 ip =
     (if length ip = 4 then Some ip
      else if length ip = 16 \<and> take 12 ip = replicate 10 0 @ [255, 255] then Some (drop 12 ip)
      else None)"

definition canon_ip :: "bytes \<Rightarrow> bytes" where
  "canon_ip ip = (case To4 ip of Some p \<Rightarrow> p | None \<Rightarrow> ip)"

definition hex_digit :: "nat \<Rightarrow> char" where
  "hex_digit n = char_of (if n < 10 then 48 + n else 87 + n)"

fun show_hex :: "nat \<Rightarrow> string" where
  "show_hex n = (if n < 16 then [hex_digit n] else show_hex (n div 16) @ [hex_digit (n mod 16)])"

declare show_hex.simps [simp del]

definition hexString :: "bytes \<Rightarrow> string" where
  "hexString bs = concat (map (\<lambda>b. [hex_digit (unat b div 16), hex_digit (unat b mod 16)]) bs)"

fun join :: "char \<Rightarrow> string list \<Rightarrow> string" where
  "join c [] = []"
| "join c [t] = t"
| "join c (t # u # ts) = t @ c # join c (u # ts)"

definition string4 :: "bytes \<Rightarrow> string" where
  "string4 p = join CHR ''.'' (map (\<lambda>b. show_nat (unat b)) p)"

fun groups :: "bytes \<Rightarrow> uint16 list" where
  "groups (a # b # r) = Uint16 [a, b] # groups r"
| "groups _ = []"

text \<open>The first longest run of at least two zero groups, as its start and end; a start of 255 when
  there is none.\<close>

definition zero_run_step :: "uint16 list \<Rightarrow> nat \<Rightarrow> nat \<times> nat \<Rightarrow> nat \<times> nat" where
  "zero_run_step gs i r =
     (case r of (zs, ze) \<Rightarrow>
        let l = length (takeWhile (\<lambda>g. g = 0) (drop i gs))
        in if l \<ge> 2 \<and> l > ze - zs then (i, i + l) else (zs, ze))"

definition zero_run :: "uint16 list \<Rightarrow> nat \<times> nat" where
  "zero_run gs = fold (zero_run_step gs) [0..<length gs] (255, 255)"

definition string6 :: "uint16 list \<Rightarrow> string" where
  "string6 gs =
     (let hex = map (\<lambda>g. show_hex (unat g)); (zs, ze) = zero_run gs
      in if zs < 255 then join CHR '':'' (hex (take zs gs)) @ ''::'' @ join CHR '':'' (hex (drop ze gs))
         else join CHR '':'' (hex gs))"

definition IP_String :: "bytes \<Rightarrow> string" where
  "IP_String ip =
     (if ip = [] then ''<nil>''
      else if length ip \<noteq> 4 \<and> length ip \<noteq> 16 then CHR ''?'' # hexString ip
      else case To4 ip of Some p \<Rightarrow> string4 p | None \<Rightarrow> string6 (groups ip))"

section \<open>Digits\<close>

lemma of_char_hex_digit: "n < 16 \<Longrightarrow> (of_char (hex_digit n) :: nat) = (if n < 10 then 48 + n else 87 + n)"
  by (simp add: hex_digit_def)

lemma hex_digit_inject:
  assumes "m < 16" "n < 16"
  shows "hex_digit m = hex_digit n \<longleftrightarrow> m = n"
proof
  assume "hex_digit m = hex_digit n"
  then have "(of_char (hex_digit m) :: nat) = of_char (hex_digit n)" by (rule arg_cong)
  then have "(if m < 10 then 48 + m else 87 + m) = (if n < 10 then 48 + n else 87 + n)"
    unfolding of_char_hex_digit [OF assms(1)] of_char_hex_digit [OF assms(2)] .
  then show "m = n" by (cases "m < 10"; cases "n < 10") simp_all
qed simp

text \<open>The characters of numbers, none of which is a separator.\<close>

definition alnum :: "char \<Rightarrow> bool" where
  "alnum c \<longleftrightarrow> (let n = of_char c :: nat in 48 \<le> n \<and> n \<le> 57 \<or> 97 \<le> n \<and> n \<le> 102)"

lemma alnum_not [simp]: "\<not> alnum CHR ''.''" "\<not> alnum CHR '':''" "\<not> alnum CHR ''?''" "\<not> alnum CHR ''<''"
  by (simp_all add: alnum_def)

lemma alnum_hex_digit: "n < 16 \<Longrightarrow> alnum (hex_digit n)"
  by (auto simp: alnum_def of_char_hex_digit Let_def)

lemma show_hex_alnum: "list_all alnum (show_hex n) \<and> show_hex n \<noteq> []"
proof (induction n rule: show_hex.induct)
  case (1 n)
  then show ?case by (cases "n < 16") (simp_all add: show_hex.simps [of n] alnum_hex_digit)
qed

lemma show_nat_alnum: "list_all alnum (show_nat n) \<and> show_nat n \<noteq> []"
proof (induction n rule: show_nat.induct)
  case (1 n)
  have "alnum (char_of (48 + k))" if "k < 10" for k :: nat using that by (simp add: alnum_def Let_def)
  with 1 show ?case by (cases "n < 10") (simp_all add: show_nat.simps [of n])
qed

lemma show_hex_inject: "show_hex m = show_hex n \<longleftrightarrow> m = n"
proof
  show "show_hex m = show_hex n \<Longrightarrow> m = n"
  proof (induction m arbitrary: n rule: show_hex.induct)
    case (1 m)
    have one: "length (show_hex k) = 1 \<longleftrightarrow> k < 16" for k
      using show_hex_alnum [of "k div 16"] by (subst show_hex.simps) simp
    have same: "m < 16 \<longleftrightarrow> n < 16" using 1(2) one by metis
    show ?case
    proof (cases "m < 16")
      case True
      with same 1(2) show ?thesis by (simp add: show_hex.simps [of m] show_hex.simps [of n] hex_digit_inject)
    next
      case False
      with same 1(2) have "show_hex (m div 16) = show_hex (n div 16)" "m mod 16 = n mod 16"
        by (simp_all add: show_hex.simps [of m] show_hex.simps [of n] hex_digit_inject)
      with 1(1) [OF False] show ?thesis by (metis div_mult_mod_eq)
    qed
  qed
qed simp

lemma show_nat_inject: "show_nat m = show_nat n \<longleftrightarrow> m = n"
proof
  have dig: "(char_of (48 + a) :: char) = char_of (48 + b) \<Longrightarrow> a = b" if "a < 10" "b < 10" for a b :: nat
  proof -
    assume "(char_of (48 + a) :: char) = char_of (48 + b)"
    then have "(of_char (char_of (48 + a) :: char) :: nat) = of_char (char_of (48 + b) :: char)" by (rule arg_cong)
    with that show "a = b" by simp
  qed
  show "show_nat m = show_nat n \<Longrightarrow> m = n"
  proof (induction m arbitrary: n rule: show_nat.induct)
    case (1 m)
    have one: "length (show_nat k) = 1 \<longleftrightarrow> k < 10" for k
      using show_nat_alnum [of "k div 10"] by (subst show_nat.simps) simp
    have same: "m < 10 \<longleftrightarrow> n < 10" using 1(2) one by metis
    show ?case
    proof (cases "m < 10")
      case True
      with same 1(2) show ?thesis by (auto simp: show_nat.simps [of m] show_nat.simps [of n] dest: dig)
    next
      case False
      with same 1(2) have "show_nat (m div 10) = show_nat (n div 10)" "m mod 10 = n mod 10"
        by (auto simp: show_nat.simps [of m] show_nat.simps [of n] dest: dig)
      with 1(1) [OF False] show ?thesis by (metis div_mult_mod_eq)
    qed
  qed
qed simp

section \<open>Splitting at a separator\<close>

fun split_at :: "char \<Rightarrow> string \<Rightarrow> string list" where
  "split_at c [] = [[]]"
| "split_at c (x # xs) = (if x = c then [] # split_at c xs
     else (case split_at c xs of [] \<Rightarrow> [[x]] | t # ts \<Rightarrow> (x # t) # ts))"

lemma split_at_neq_Nil [simp]: "split_at c xs \<noteq> []"
  by (cases xs) (auto split: list.splits)

lemma split_at_append: "split_at c (a @ c # b) = split_at c a @ split_at c b"
proof (induction a)
  case (Cons x a)
  then show ?case by (cases "split_at c a") auto
qed simp

lemma split_at_token: "c \<notin> set t \<Longrightarrow> split_at c t = [t]"
  by (induction t) auto

lemma split_at_join: "list_all (\<lambda>t. c \<notin> set t) ts \<Longrightarrow> split_at c (join c ts) = (if ts = [] then [[]] else ts)"
  by (induction c ts rule: join.induct) (simp_all add: split_at_append split_at_token)

lemma join_inject:
  assumes "list_all (\<lambda>t. c \<notin> set t) ts" "list_all (\<lambda>t. c \<notin> set t) us" "length ts = length us" "join c ts = join c us"
  shows "ts = us"
proof -
  have "(if ts = [] then [[]] else ts) = (if us = [] then [[]] else us)"
    unfolding split_at_join [OF assms(1), symmetric] split_at_join [OF assms(2), symmetric] assms(4) ..
  with assms(3) show ?thesis by (cases "ts = []"; cases "us = []") simp_all
qed

lemma set_join: "set (join c ts) \<subseteq> insert c (\<Union>t \<in> set ts. set t)"
  by (induction c ts rule: join.induct) auto

lemma join_sep: "2 \<le> length ts \<Longrightarrow> c \<in> set (join c ts)"
  by (cases "(c, ts)" rule: join.cases) auto

lemma alnum_tokens:
  assumes "\<not> alnum c"
  shows "list_all (\<lambda>t. c \<notin> set t) (map (\<lambda>g. show_hex (unat g)) gs)"
    "list_all (\<lambda>t. c \<notin> set t) (map (\<lambda>b. show_nat (unat b)) bs)"
  using assms show_hex_alnum show_nat_alnum by (fastforce simp: list_all_iff)+

lemma map_unat_inject:
  fixes gs hs :: "uint16 list" and bs cs :: bytes
  shows "map (\<lambda>g. show_hex (unat g)) gs = map (\<lambda>g. show_hex (unat g)) hs \<longleftrightarrow> gs = hs"
    and "map (\<lambda>b. show_nat (unat b)) bs = map (\<lambda>b. show_nat (unat b)) cs \<longleftrightarrow> bs = cs"
proof -
  have "inj (\<lambda>g :: uint16. show_hex (unat g))" "inj (\<lambda>b :: byte. show_nat (unat b))"
    by (auto intro!: injI simp: show_hex_inject show_nat_inject word_unat_eq_iff)
  then show "map (\<lambda>g. show_hex (unat g)) gs = map (\<lambda>g. show_hex (unat g)) hs \<longleftrightarrow> gs = hs"
    "map (\<lambda>b. show_nat (unat b)) bs = map (\<lambda>b. show_nat (unat b)) cs \<longleftrightarrow> bs = cs"
    by (simp_all add: inj_map_eq_map)
qed

section \<open>IPv4\<close>

lemma string4_inject: "length p = length q \<Longrightarrow> string4 p = string4 q \<longleftrightarrow> p = q"
  unfolding string4_def
  using join_inject [OF alnum_tokens(2) alnum_tokens(2), of "CHR ''.''" p q] by (auto simp: map_unat_inject)

section \<open>IPv6\<close>

definition run_ok :: "uint16 list \<Rightarrow> nat \<times> nat \<Rightarrow> bool" where
  "run_ok gs r \<longleftrightarrow> r = (255, 255)
     \<or> (fst r < length gs \<and> fst r < snd r \<and> snd r \<le> length gs \<and> slice (fst r) (snd r) gs = replicate (snd r - fst r) 0)"

lemma zero_run_step_ok: "run_ok gs r \<Longrightarrow> i < length gs \<Longrightarrow> run_ok gs (zero_run_step gs i r)"
proof -
  let ?z = "takeWhile (\<lambda>g. g = 0) (drop i gs)"
  have "slice i (i + length ?z) gs = ?z"
    unfolding slice_def by (metis add_diff_cancel_left' takeWhile_eq_take)
  moreover have "?z = replicate (length ?z) 0"
    by (metis (mono_tags, lifting) replicate_eqI set_takeWhileD)
  moreover have "length ?z \<le> length gs - i" using length_takeWhile_le [of _ "drop i gs"] by simp
  ultimately have "run_ok gs (i, i + length ?z)" if "i < length gs" "2 \<le> length ?z"
    unfolding run_ok_def fst_conv snd_conv using that by (intro disjI2 conjI) (simp, linarith, linarith, simp)
  then show "run_ok gs r \<Longrightarrow> i < length gs \<Longrightarrow> run_ok gs (zero_run_step gs i r)"
    by (cases r) (simp add: zero_run_step_def Let_def)
qed

lemma zero_run_ok: "run_ok gs (zero_run gs)"
proof -
  have "run_ok gs (fold (zero_run_step gs) is r)" if "run_ok gs r" "\<forall>i \<in> set is. i < length gs" for "is" r
    using that by (induction "is" arbitrary: r) (simp_all add: zero_run_step_ok)
  then show ?thesis unfolding zero_run_def by (simp add: run_ok_def)
qed

text \<open>The groups before and after the omitted run; no omission is the split after the last group.\<close>

definition kept :: "uint16 list \<Rightarrow> uint16 list \<times> uint16 list \<times> bool" where
  "kept gs = (case zero_run gs of (zs, ze) \<Rightarrow> if zs < 255 then (take zs gs, drop ze gs, True) else (gs, [], False))"

definition hexes :: "uint16 list \<Rightarrow> string list" where
  "hexes = map (\<lambda>g. show_hex (unat g))"

lemma kept_restores:
  assumes "kept gs = (a, b, om)" "length gs < 255"
  shows "gs = a @ replicate (length gs - (length a + length b)) 0 @ b \<and> (\<not> om \<longrightarrow> a = gs \<and> b = [])"
proof -
  obtain zs ze where r: "zero_run gs = (zs, ze)" by fastforce
  have ok: "run_ok gs (zs, ze)" using zero_run_ok [of gs] r by simp
  show ?thesis
  proof (cases "zs < 255")
    case True
    with ok have z: "zs < ze" "ze \<le> length gs" "slice zs ze gs = replicate (ze - zs) 0" by (auto simp: run_ok_def)
    have "gs = take zs gs @ slice zs ze gs @ drop ze gs" using take_slice_drop [of zs ze gs] z(1) by simp
    with z assms(1) True r show ?thesis by (auto simp: kept_def)
  next
    case False
    with assms(1) r show ?thesis by (simp add: kept_def)
  qed
qed

lemma string6_kept:
  "kept gs = (a, b, om) \<Longrightarrow> string6 gs =
     (if om then join CHR '':'' (hexes a) @ CHR '':'' # CHR '':'' # join CHR '':'' (hexes b) else join CHR '':'' (hexes gs))"
  by (auto simp: kept_def string6_def hexes_def Let_def split: prod.splits if_splits)

lemma hexes_tokens: "list_all (\<lambda>t. CHR '':'' \<notin> set t) (hexes gs)" "[] \<notin> set (hexes gs)"
  using alnum_tokens(1) [of "CHR '':''" gs] show_hex_alnum by (auto simp: hexes_def) metis

text \<open>Splitting the text at the colons gives the kept groups back: those before the first empty
  token and all non-empty tokens.\<close>

lemma split_string6:
  assumes "kept gs = (a, b, om)" "gs \<noteq> []" "length gs < 255"
  defines "L \<equiv> split_at CHR '':'' (string6 gs)"
  shows "takeWhile (\<lambda>t. t \<noteq> []) L = hexes a \<and> filter (\<lambda>t. t \<noteq> []) L = hexes a @ hexes b \<and> ([] \<in> set L \<longleftrightarrow> om)"
proof -
  have nonempty: "filter (\<lambda>t. t \<noteq> []) (hexes g) = hexes g" "takeWhile (\<lambda>t. t \<noteq> []) (hexes g) = hexes g" for g
    using hexes_tokens(2) [of g] by (auto simp: filter_id_conv takeWhile_eq_all_conv)
  have sp: "split_at CHR '':'' (join CHR '':'' (hexes g)) = (if g = [] then [[]] else hexes g)" for g
    using split_at_join [OF hexes_tokens(1)] by (simp add: hexes_def)
  show ?thesis
  proof (cases om)
    case True
    then have L: "L = (if a = [] then [[]] else hexes a) @ [] # (if b = [] then [[]] else hexes b)"
      by (simp add: L_def string6_kept [OF assms(1)] split_at_append sp)
    have "takeWhile (\<lambda>t. t \<noteq> []) (hexes a @ [] # r) = hexes a" for r
      using hexes_tokens(2) [of a] by (subst takeWhile_append2) auto
    then show ?thesis using True nonempty by (auto simp: L hexes_def)
  next
    case False
    then have "L = hexes gs" "a = gs" "b = []"
      using kept_restores [OF assms(1,3)] assms(2) by (simp_all add: L_def string6_kept [OF assms(1)] sp)
    then show ?thesis using False nonempty hexes_tokens(2) by (simp add: hexes_def)
  qed
qed

lemma string6_inject:
  assumes "length gs = 8" "length hs = 8" "string6 gs = string6 hs"
  shows "gs = hs"
proof -
  obtain a b om where g: "kept gs = (a, b, om)" by (cases "kept gs")
  obtain c d on where h: "kept hs = (c, d, on)" by (cases "kept hs")
  have len: "gs \<noteq> []" "length gs < 255" "hs \<noteq> []" "length hs < 255" using assms(1,2) by auto
  note sg = split_string6 [OF g len(1,2)] and sh = split_string6 [OF h len(3,4)]
  have 1: "hexes a = hexes c" using sg sh by (simp add: assms(3))
  have "hexes a @ hexes b = hexes c @ hexes d" using sg sh unfolding assms(3) by (metis (no_types))
  with 1 have "a = c" "b = d" by (simp_all add: hexes_def map_unat_inject)
  moreover have "gs = a @ replicate (8 - (length a + length b)) 0 @ b"
    using kept_restores [OF g len(2)] assms(1) by simp
  moreover have "hs = c @ replicate (8 - (length c + length d)) 0 @ d"
    using kept_restores [OF h len(4)] assms(2) by simp
  ultimately show ?thesis by simp
qed

section \<open>All addresses\<close>

lemma length_groups: "length (groups bs) = length bs div 2"
  by (induction bs rule: groups.induct) auto

lemma groups_inject: "length bs = length cs \<Longrightarrow> even (length bs) \<Longrightarrow> groups bs = groups cs \<Longrightarrow> bs = cs"
proof (induction bs arbitrary: cs rule: groups.induct)
  case (1 a b r)
  then obtain c d s where cs: "cs = c # d # s" by (cases cs rule: groups.cases) auto
  with "1.prems" have "Uint16 [a, b] = Uint16 [c, d]" "groups r = groups s" "length r = length s" "even (length r)"
    by simp_all
  then have "[a, b] = [c, d]" "r = s" using PutUint16_Uint16 [of a b] PutUint16_Uint16 [of c d] "1.IH" by simp_all
  then show ?case by (simp add: cs)
qed auto

lemma hexString_inject: "hexString bs = hexString cs \<longleftrightarrow> bs = cs"
proof
  show "hexString bs = hexString cs \<Longrightarrow> bs = cs"
  proof (induction bs arbitrary: cs)
    case Nil
    then show ?case by (cases cs) (simp_all add: hexString_def)
  next
    case (Cons b bs)
    then obtain c cs' where cs: "cs = c # cs'" by (cases cs) (simp_all add: hexString_def)
    have lt: "unat v div 16 < 16" "unat v mod 16 < 16" for v :: byte
      using less_mult_imp_div_less [of "unat v" 16 16] unat_byte_less [of v] by simp_all
    have eq: "hex_digit (unat b div 16) = hex_digit (unat c div 16)" "hex_digit (unat b mod 16) = hex_digit (unat c mod 16)"
      "hexString bs = hexString cs'"
      using Cons.prems unfolding cs hexString_def by (simp_all del: hex_digit_inject)
    from eq(1,2) have "unat b div 16 = unat c div 16" "unat b mod 16 = unat c mod 16"
      unfolding hex_digit_inject [OF lt(1) lt(1)] hex_digit_inject [OF lt(2) lt(2)] .
    then have "unat b = unat c" by (metis div_mult_mod_eq)
    then show ?case using Cons.IH [OF eq(3)] cs by (simp add: word_unat_eq_iff)
  qed
qed simp

datatype ip_kind = NilIP | BadIP | V4 | V6

definition kind_of :: "bytes \<Rightarrow> ip_kind" where
  "kind_of ip = (if ip = [] then NilIP else if length ip \<noteq> 4 \<and> length ip \<noteq> 16 then BadIP
     else if To4 ip = None then V6 else V4)"

text \<open>The kind of an address shows in its text.\<close>

definition text_kind :: "string \<Rightarrow> ip_kind" where
  "text_kind t = (if hd t = CHR ''<'' then NilIP else if hd t = CHR ''?'' then BadIP
     else if CHR ''.'' \<in> set t then V4 else V6)"

lemma string4_text:
  assumes "length p = 4"
  shows "text_kind (string4 p) = V4"
proof -
  obtain a b c d where p: "p = [a, b, c, d]" using assms by (auto simp: length_Suc_conv numeral_eq_Suc)
  have "hd (string4 p) \<in> set (show_nat (unat a))"
    using show_nat_alnum [of "unat a"] by (simp add: p string4_def)
  then have "alnum (hd (string4 p))" using show_nat_alnum [of "unat a"] by (auto simp: list_all_iff)
  then have "hd (string4 p) \<noteq> CHR ''<''" "hd (string4 p) \<noteq> CHR ''?''" by (metis alnum_not(4), metis alnum_not(3))
  then show ?thesis by (simp add: text_kind_def p string4_def)
qed

lemma string6_chars: "set (string6 gs) \<subseteq> {c. alnum c} \<union> {CHR '':''}"
proof -
  have "set (join CHR '':'' (hexes g)) \<subseteq> {c. alnum c} \<union> {CHR '':''}" for g
    using set_join [of "CHR '':''" "hexes g"] show_hex_alnum by (fastforce simp: hexes_def list_all_iff)
  then show ?thesis by (cases "kept gs") (auto simp: string6_kept)
qed

lemma string6_text:
  assumes "length gs = 8"
  shows "text_kind (string6 gs) = V6"
proof -
  have "string6 gs \<noteq> []"
  proof
    assume "string6 gs = []"
    then have L: "split_at CHR '':'' (string6 gs) = [[]]" by simp
    obtain a b om where k: "kept gs = (a, b, om)" by (cases "kept gs")
    have len: "gs \<noteq> []" "length gs < 255" using assms by auto
    have ab: "a = []" "b = []" "om" using split_string6 [OF k len] by (simp_all add: L hexes_def)
    with \<open>string6 gs = []\<close> show False using string6_kept [OF k] by simp
  qed
  then have "hd (string6 gs) \<in> {c. alnum c} \<union> {CHR '':''}" using string6_chars hd_in_set by blast
  then have "hd (string6 gs) \<noteq> CHR ''<''" "hd (string6 gs) \<noteq> CHR ''?''" by auto
  moreover have "CHR ''.'' \<notin> set (string6 gs)" using string6_chars [of gs] by auto
  ultimately show ?thesis by (simp add: text_kind_def)
qed

lemma length_To4: "To4 ip = Some p \<Longrightarrow> length p = 4"
  by (auto simp: To4_def split: if_splits)

lemma text_kind_String: "text_kind (IP_String ip) = kind_of ip"
proof (cases "ip = [] \<or> length ip \<noteq> 4 \<and> length ip \<noteq> 16")
  case True
  then show ?thesis by (auto simp: IP_String_def kind_of_def text_kind_def)
next
  case False
  show ?thesis
  proof (cases "To4 ip")
    case None
    with False have "length ip = 16" by (auto simp: To4_def)
    with False None string6_text [of "groups ip"] show ?thesis by (simp add: IP_String_def kind_of_def length_groups)
  next
    case (Some p)
    with False string4_text [OF length_To4 [OF Some]] show ?thesis by (auto simp: IP_String_def kind_of_def)
  qed
qed

text \<open>Two addresses have the same text exactly when they are the same up to the IPv4-mapped form.\<close>

lemma IP_String_eq_iff: "IP_String a = IP_String b \<longleftrightarrow> canon_ip a = canon_ip b"
proof
  assume eq: "IP_String a = IP_String b"
  then have kind: "kind_of a = kind_of b" using text_kind_String [of a] text_kind_String [of b] by simp
  show "canon_ip a = canon_ip b"
  proof (cases "kind_of a")
    case NilIP
    then show ?thesis using kind by (auto simp: kind_of_def split: if_splits)
  next
    case BadIP
    then have "IP_String a = CHR ''?'' # hexString a" "IP_String b = CHR ''?'' # hexString b"
      using kind by (auto simp: kind_of_def IP_String_def split: if_splits)
    then have "CHR ''?'' # hexString a = CHR ''?'' # hexString b" using eq by (metis (no_types))
    then show ?thesis by (simp add: hexString_inject)
  next
    case V4
    then obtain p q where pq: "To4 a = Some p" "To4 b = Some q" "IP_String a = string4 p" "IP_String b = string4 q"
      using kind by (auto simp: kind_of_def IP_String_def split: if_splits)
    then have "p = q" using eq string4_inject length_To4 by simp
    then show ?thesis using pq by (simp add: canon_ip_def)
  next
    case V6
    then have v6: "To4 a = None" "To4 b = None" "length a = 16" "length b = 16"
      "IP_String a = string6 (groups a)" "IP_String b = string6 (groups b)"
      using kind by (auto simp: kind_of_def IP_String_def To4_def split: if_splits)
    then have "groups a = groups b" using eq by (intro string6_inject) (simp_all add: length_groups)
    then show ?thesis using v6 groups_inject by (simp add: canon_ip_def)
  qed
next
  have key: "IP_String ip = IP_String (canon_ip ip)" for ip
  proof (cases "To4 ip")
    case (Some p)
    have "IP_String p = string4 p" using length_To4 [OF Some] by (auto simp: IP_String_def To4_def)
    moreover have "IP_String ip = string4 p" using Some by (auto simp: IP_String_def To4_def split: if_splits)
    ultimately show ?thesis by (simp add: canon_ip_def Some)
  qed (simp add: canon_ip_def)
  show "canon_ip a = canon_ip b \<Longrightarrow> IP_String a = IP_String b" using key by metis
qed

end
