(* ===== verification/StunParse.thy ===== *)
theory StunParse
  imports GoNet
begin

text \<open>
  The pure part of \<^verbatim>\<open>src/stun/stun_discoverer.go\<close>: the binding request, the filter that
  picks the server's response out of the packets on the port, and the parser of the response with
  its two address attributes. The parser's loop over the attributes works on indices, as the code
  does; it is shown equal to a structural reading of the attribute list.
\<close>

section \<open>Definitions\<close>

definition magicCookie :: uint32 where
  "magicCookie = 0x2112A442"

datatype stun_error =
    ResponseTooShort
  | UnexpectedType uint16
  | InvalidCookie uint32
  | TransactionMismatch
  | Truncated
  | AttributeOverrun
  | NoMappedAddress
  | AddressTooShort
  | AddressTooShortV6
  | UnsupportedFamily byte
  | NotAnAddress

definition udp_addr :: "bytes \<Rightarrow> uint16 \<Rightarrow> UDPAddr" where
  "udp_addr ip port = \<lparr>addr_IP = ip, addr_Port = uint port, addr_Zone = []\<rparr>"

definition binding_request :: "bytes \<Rightarrow> bytes" where
  "binding_request txID = PutUint16 0x0001 @ PutUint16 0x0000 @ PutUint32 magicCookie @ txID"

text \<open>The subscription callback of \<^verbatim>\<open>queryServer\<close>.\<close>

definition stun_callback :: "UDPAddr \<Rightarrow> bytes \<Rightarrow> UDPAddr \<Rightarrow> bytes \<Rightarrow> bool" where
  "stun_callback serverAddr txID sourceAddr data =
     (if IP_String (addr_IP sourceAddr) \<noteq> IP_String (addr_IP serverAddr)
         \<or> addr_Port sourceAddr \<noteq> addr_Port serverAddr then False
      else if length data < 20 then False
      else if Uint32 (slice 4 8 data) \<noteq> magicCookie then False
      else slice 8 20 data = txID)"

definition parseXORMappedAddress :: "bytes \<Rightarrow> bytes \<Rightarrow> stun_error + UDPAddr" where
  "parseXORMappedAddress val txID =
     (if length val < 8 then Inl AddressTooShort
      else let family = val ! 1; xPort = Uint16 (slice 2 4 val); port = xPort XOR 0x2112
           in if family = 0x01
              then let xAddr = Uint32 (slice 4 8 val); ipVal = xAddr XOR magicCookie
                   in Inr (udp_addr (PutUint32 ipVal) port)
              else if family = 0x02
              then if length val < 20 then Inl AddressTooShortV6
                   else let mask = PutUint32 magicCookie @ txID
                        in Inr (udp_addr (map (\<lambda>i. val ! (4 + i) XOR mask ! i) [0..<16]) port)
              else Inl (UnsupportedFamily family))"

definition parseMappedAddress :: "bytes \<Rightarrow> stun_error + UDPAddr" where
  "parseMappedAddress val =
     (if length val < 8 then Inl AddressTooShort
      else let family = val ! 1; port = Uint16 (slice 2 4 val)
           in if family = 0x01 then Inr (udp_addr (slice 4 8 val) port)
              else if family = 0x02
              then if length val < 20 then Inl AddressTooShortV6 else Inr (udp_addr (slice 4 20 val) port)
              else Inl (UnsupportedFamily family))"

text \<open>The attribute as the \<^verbatim>\<open>switch\<close> sees it: an attribute of another type, like one that
  does not parse, is skipped.\<close>

definition attribute_addr :: "bytes \<Rightarrow> uint16 \<Rightarrow> bytes \<Rightarrow> stun_error + UDPAddr" where
  "attribute_addr txID attrType val =
     (if attrType = 0x0020 then parseXORMappedAddress val txID
      else if attrType = 0x0001 then parseMappedAddress val
      else Inl NotAnAddress)"

text \<open>\<^verbatim>\<open>(int(attrLen) + 3) &^ 3\<close>.\<close>

definition paddedLen :: "nat \<Rightarrow> nat" where
  "paddedLen attrLen = nat ((int attrLen + 3) AND NOT 3)"

function attr_loop :: "bytes \<Rightarrow> bytes \<Rightarrow> nat \<Rightarrow> stun_error + UDPAddr" where
  "attr_loop attrs txID idx =
     (if idx + 4 \<le> length attrs
      then let attrType = Uint16 (slice idx (idx + 2) attrs);
               attrLen = unat (Uint16 (slice (idx + 2) (idx + 4) attrs));
               valStart = idx + 4;
               valEnd = valStart + attrLen
           in if valEnd > length attrs then Inl AttributeOverrun
              else case attribute_addr txID attrType (slice valStart valEnd attrs) of
                     Inr addr \<Rightarrow> Inr addr
                   | Inl _ \<Rightarrow> attr_loop attrs txID (idx + (4 + paddedLen attrLen))
      else Inl NoMappedAddress)"
  by pat_completeness auto
termination by (relation "measure (\<lambda>(attrs, _, idx). length attrs - idx)") auto

declare attr_loop.simps [simp del]

definition parseSTUNResponse :: "bytes \<Rightarrow> bytes \<Rightarrow> (stun_error + UDPAddr) go" where
  "parseSTUNResponse data expectedTxID =
     (if length data < 20 then Ret (Inl ResponseTooShort)
      else let msgType = Uint16 (slice 0 2 data); msgLen = Uint16 (slice 2 4 data);
               cookie = Uint32 (slice 4 8 data); txID = slice 8 20 data
           in if msgType \<noteq> 0x0101 then Ret (Inl (UnexpectedType msgType))
              else if cookie \<noteq> magicCookie then Ret (Inl (InvalidCookie cookie))
              else if txID \<noteq> expectedTxID then Ret (Inl TransactionMismatch)
              else if length data < 20 + unat msgLen then Ret (Inl Truncated)
              else case go_slice 20 (unat (20 + msgLen)) data of
                     Panic x \<Rightarrow> Panic x
                   | Ret attrs \<Rightarrow> Ret (attr_loop attrs txID 0))"

section \<open>The attribute list\<close>

lemma paddedLen_eq: "paddedLen n = (n + 3) div 4 * 4"
proof -
  have "(int n + 3) AND NOT 3 = push_bit 2 (drop_bit 2 (int n + 3))"
  proof (rule bit_eqI)
    fix k
    have "bit (3 :: int) k \<longleftrightarrow> k < 2" using bit_mask_iff [of 2 k, where 'a = int] by (simp add: mask_eq_exp_minus_1)
    moreover have "k - 2 + 2 = k" if "2 \<le> k" using that by (rule le_add_diff_inverse2)
    ultimately show "bit ((int n + 3) AND NOT 3) k = bit (push_bit 2 (drop_bit 2 (int n + 3))) k"
      by (simp only: bit_and_iff bit_not_iff bit_push_bit_iff bit_drop_bit_eq comp_apply add.commute) auto
  qed
  also have "\<dots> = int ((n + 3) div 4 * 4)"
    by (simp add: push_bit_eq_mult drop_bit_eq_div zdiv_int)
  finally show ?thesis by (simp only: paddedLen_def nat_int)
qed

lemma paddedLen_ge: "n \<le> paddedLen n"
  unfolding paddedLen_eq by linarith

text \<open>The attributes of a message body, and whether the last one runs over its end.\<close>

function attrs_of :: "bytes \<Rightarrow> (uint16 \<times> bytes) list \<times> bool" where
  "attrs_of bs =
     (if length bs < 4 then ([], False)
      else let n = unat (Uint16 (drop 2 bs))
           in if length bs < 4 + n then ([], True)
              else case attrs_of (drop (4 + paddedLen n) bs) of
                     (as, over) \<Rightarrow> ((Uint16 bs, slice 4 (4 + n) bs) # as, over))"
  by pat_completeness auto
termination by (relation "measure length") auto

declare attrs_of.simps [simp del]

fun first_addr :: "bytes \<Rightarrow> (uint16 \<times> bytes) list \<Rightarrow> UDPAddr option" where
  "first_addr txID [] = None"
| "first_addr txID ((t, v) # as) = (case attribute_addr txID t v of Inr a \<Rightarrow> Some a | Inl _ \<Rightarrow> first_addr txID as)"

definition address_of :: "bytes \<Rightarrow> bytes \<Rightarrow> stun_error + UDPAddr" where
  "address_of txID bs =
     (case attrs_of bs of (as, over) \<Rightarrow>
        (case first_addr txID as of
           Some a \<Rightarrow> Inr a
         | None \<Rightarrow> Inl (if over then AttributeOverrun else NoMappedAddress)))"

lemma attr_loop_step:
  fixes attrs idx
  defines "n \<equiv> unat (Uint16 (drop (idx + 2) attrs))"
  shows "attr_loop attrs txID idx =
    (if idx + 4 \<le> length attrs
     then if idx + 4 + n > length attrs then Inl AttributeOverrun
          else case attribute_addr txID (Uint16 (drop idx attrs)) (slice (idx + 4) (idx + 4 + n) attrs) of
                 Inr a \<Rightarrow> Inr a
               | Inl _ \<Rightarrow> attr_loop attrs txID (idx + (4 + paddedLen n))
     else Inl NoMappedAddress)"
proof -
  have "Uint16 (slice idx (idx + 2) attrs) = Uint16 (drop idx attrs)"
    "unat (Uint16 (slice (idx + 2) (idx + 4) attrs)) = n"
    using Uint16_take [of "drop (idx + 2) attrs"] Uint16_take [of "drop idx attrs"]
    by (simp_all only: slice_def n_def diff_add_inverse) simp
  then show ?thesis by (subst attr_loop.simps) (simp only: Let_def)
qed

lemma attrs_of_step:
  assumes "4 + unat (Uint16 (drop 2 bs)) \<le> length bs" "attrs_of (drop (4 + paddedLen (unat (Uint16 (drop 2 bs)))) bs) = (as, ov)"
  shows "attrs_of bs = ((Uint16 bs, slice 4 (4 + unat (Uint16 (drop 2 bs))) bs) # as, ov)"
  using assms by (subst attrs_of.simps) (simp add: Let_def)

lemma attr_loop_eq: "attr_loop attrs txID idx = address_of txID (drop idx attrs)"
proof (induction "length attrs - idx" arbitrary: idx rule: less_induct)
  case less
  let ?n = "unat (Uint16 (drop (idx + 2) attrs))" and ?bs = "drop idx attrs"
  have n: "?n = unat (Uint16 (drop 2 ?bs))" by (simp only: drop_drop add.commute)
  show ?case
  proof (cases "idx + 4 + ?n \<le> length attrs")
    case False
    have "attr_loop attrs txID idx = Inl (if idx + 4 \<le> length attrs then AttributeOverrun else NoMappedAddress)"
      using False by (subst attr_loop_step) simp
    moreover have "attrs_of ?bs = ([], idx + 4 \<le> length attrs)"
      using False unfolding n by (subst attrs_of.simps) (auto simp: Let_def)
    ultimately show ?thesis by (simp add: address_of_def)
  next
    case True
    let ?v = "slice (idx + 4) (idx + 4 + ?n) attrs"
    obtain as ov where rest: "attrs_of (drop (4 + paddedLen ?n) ?bs) = (as, ov)" by fastforce
    have v: "slice 4 (4 + ?n) ?bs = ?v" by (simp add: slice_def add.commute)
    have all: "attrs_of ?bs = ((Uint16 ?bs, ?v) # as, ov)"
      unfolding v [symmetric] unfolding n by (rule attrs_of_step) (use True rest n in auto)
    have IH: "attr_loop attrs txID (idx + (4 + paddedLen ?n)) = address_of txID (drop (4 + paddedLen ?n) ?bs)"
      using less [of "idx + (4 + paddedLen ?n)"] True by (simp add: add.commute)
    have "attr_loop attrs txID idx = (case attribute_addr txID (Uint16 ?bs) ?v of
        Inr a \<Rightarrow> Inr a | Inl _ \<Rightarrow> address_of txID (drop (4 + paddedLen ?n) ?bs))"
      using True by (subst attr_loop_step, subst IH) simp
    then show ?thesis
      unfolding address_of_def all rest by (simp split: sum.splits)
  qed
qed

section \<open>Messages\<close>

definition encode_attr :: "uint16 \<times> bytes \<Rightarrow> bytes" where
  "encode_attr a = (case a of (t, v) \<Rightarrow>
     PutUint16 t @ PutUint16 (of_nat (length v)) @ v @ replicate (paddedLen (length v) - length v) 0)"

definition encode_response :: "bytes \<Rightarrow> (uint16 \<times> bytes) list \<Rightarrow> bytes" where
  "encode_response txID as =
     (let body = concat (map encode_attr as)
      in PutUint16 0x0101 @ PutUint16 (of_nat (length body)) @ PutUint32 magicCookie @ txID @ body)"

text \<open>The XOR-MAPPED-ADDRESS value of an address, as the server computes it.\<close>

definition xor_bytes :: "bytes \<Rightarrow> bytes \<Rightarrow> bytes" where
  "xor_bytes a b = map2 (XOR) a b"

definition encode_xor_address :: "bytes \<Rightarrow> bytes \<Rightarrow> uint16 \<Rightarrow> bytes" where
  "encode_xor_address txID ip port =
     [0, if length ip = 4 then 0x01 else 0x02] @ PutUint16 (port XOR 0x2112) @ xor_bytes ip (PutUint32 magicCookie @ txID)"

lemma length_encode_attr: "length (encode_attr (t, v)) = 4 + paddedLen (length v)"
  using paddedLen_ge [of "length v"] by (simp add: encode_attr_def)

lemma unat_len16: "n < 65536 \<Longrightarrow> unat (of_nat n :: uint16) = n"
  by (simp add: unat_of_nat)

lemma attrs_of_encode:
  assumes "length v < 65536"
  shows "attrs_of (encode_attr (t, v) @ r) = ((t, v) # fst (attrs_of r), snd (attrs_of r))"
proof -
  let ?bs = "encode_attr (t, v) @ r"
  have n: "unat (Uint16 (drop 2 ?bs)) = length v" and t: "Uint16 ?bs = t"
    and v: "slice 4 (4 + length v) ?bs = v"
    using assms by (simp_all add: encode_attr_def unat_len16 slice_def)
  have "drop (4 + paddedLen (length v)) ?bs = r"
    using length_encode_attr [of t v] by simp
  moreover have "4 + length v \<le> length ?bs" using length_encode_attr [of t v] paddedLen_ge [of "length v"] by simp
  ultimately show ?thesis
    using attrs_of_step [of ?bs "fst (attrs_of r)" "snd (attrs_of r)"] by (simp only: n t v prod.collapse)
qed

lemma attrs_of_concat:
  "list_all (\<lambda>(t, v). length v < 65536) as \<Longrightarrow> attrs_of (concat (map encode_attr as)) = (as, False)"
proof (induction as)
  case Nil
  show ?case by (simp add: attrs_of.simps)
next
  case (Cons a as)
  then show ?case by (cases a) (simp add: attrs_of_encode)
qed

text \<open>The parser on a message of the size of a UDP packet is the structural reading of its body.\<close>

lemma parse_response_eq:
  assumes "length data < 65536"
  shows "parseSTUNResponse data txID =
    Ret (if length data < 20 then Inl ResponseTooShort
         else if Uint16 (slice 0 2 data) \<noteq> 0x0101 then Inl (UnexpectedType (Uint16 (slice 0 2 data)))
         else if Uint32 (slice 4 8 data) \<noteq> magicCookie then Inl (InvalidCookie (Uint32 (slice 4 8 data)))
         else if slice 8 20 data \<noteq> txID then Inl TransactionMismatch
         else if length data < 20 + unat (Uint16 (slice 2 4 data)) then Inl Truncated
         else address_of txID (slice 20 (20 + unat (Uint16 (slice 2 4 data))) data))"
proof -
  let ?n = "Uint16 (slice 2 4 data)"
  have "unat (20 + ?n) = 20 + unat ?n" if "20 + unat ?n \<le> length data"
    using that assms by (simp add: unat_word_ariths)
  then show ?thesis
    unfolding parseSTUNResponse_def Let_def by (simp add: attr_loop_eq go_slice_def)
qed

section \<open>Addresses\<close>

lemma Uint32_xor:
  assumes "length a = 4" "length b = 4"
  shows "Uint32 (xor_bytes a b) = Uint32 a XOR Uint32 b"
proof -
  obtain a0 a1 a2 a3 where a: "a = [a0, a1, a2, a3]" using assms(1) by (auto simp: length_Suc_conv numeral_eq_Suc)
  obtain b0 b1 b2 b3 where b: "b = [b0, b1, b2, b3]" using assms(2) by (auto simp: length_Suc_conv numeral_eq_Suc)
  show ?thesis
    by (rule bit_word_eqI) (auto simp: a b xor_bytes_def bit_simps bit_byte_high)
qed

lemma PutUint32_Uint32': "length ip = 4 \<Longrightarrow> PutUint32 (Uint32 ip) = ip"
  by (auto simp: length_Suc_conv numeral_eq_Suc PutUint32_Uint32 simp del: Uint32.simps)

lemma xor_bytes_append: "length a = length c \<Longrightarrow> xor_bytes a (c @ d) = xor_bytes a c"
  using zip_append [of a c "[]" d] by (simp add: xor_bytes_def)

lemma length_xor_bytes [simp]: "length (xor_bytes a b) = min (length a) (length b)"
  by (simp add: xor_bytes_def)

lemma nth_xor_bytes: "i < length a \<Longrightarrow> i < length b \<Longrightarrow> xor_bytes a b ! i = a ! i XOR b ! i"
  by (simp add: xor_bytes_def)

lemma parse_encode_xor:
  assumes "length txID = 12" "length ip = 4 \<or> length ip = 16"
  shows "parseXORMappedAddress (encode_xor_address txID ip port) txID = Inr (udp_addr ip port)"
proof -
  let ?m = "PutUint32 magicCookie @ txID"
  let ?v = "encode_xor_address txID ip port"
  have hd: "?v ! 1 = (if length ip = 4 then 1 else 2)" by (simp add: encode_xor_address_def)
  have port: "Uint16 (slice 2 4 ?v) XOR 0x2112 = port"
    by (simp add: encode_xor_address_def slice_def xor.assoc)
  have tail: "drop 4 ?v = xor_bytes ip ?m" by (simp add: encode_xor_address_def)
  have len: "length ?v = 4 + length ip" using assms by (auto simp: encode_xor_address_def)
  show ?thesis
  proof (cases "length ip = 4")
    case True
    have "slice 4 8 ?v = xor_bytes ip (PutUint32 magicCookie)"
      unfolding slice_def tail using True by (simp add: xor_bytes_append)
    then have "PutUint32 (Uint32 (slice 4 8 ?v) XOR magicCookie) = ip"
      using True by (simp add: Uint32_xor xor.assoc PutUint32_Uint32')
    with True len hd port show ?thesis by (simp add: parseXORMappedAddress_def Let_def)
  next
    case False
    then have 16: "length ip = 16" using assms(2) by simp
    have "?v ! (4 + i) XOR ?m ! i = ip ! i" if "i < 16" for i
    proof -
      have "?v ! (4 + i) = xor_bytes ip ?m ! i" using nth_drop [of 4 ?v i] len tail by simp
      also have "\<dots> = ip ! i XOR ?m ! i" using that 16 assms(1) by (intro nth_xor_bytes) simp_all
      finally show ?thesis by (simp only: xor.assoc xor_self_eq xor.right_neutral)
    qed
    then have "map (\<lambda>i. ?v ! (4 + i) XOR ?m ! i) [0..<16] = map ((!) ip) [0..<16]" by (intro map_cong) auto
    also have "\<dots> = ip" using 16 map_nth [of ip] by simp
    finally show ?thesis using False 16 len hd port by (simp only: parseXORMappedAddress_def Let_def) simp
  qed
qed

section \<open>Properties\<close>

text \<open>
  C28: the discoverer reads the address a STUN server reports: in a binding response with any
  attributes that carry no address, followed by the XOR-MAPPED-ADDRESS of an IPv4 or IPv6 address
  and by anything else, the parser finds exactly that address and port.
\<close>

theorem stun_round_trip:
  assumes "length txID = 12" "length ip = 4 \<or> length ip = 16"
    and "list_all (\<lambda>(t, v). length v < 65536) (before @ after)" "first_addr txID before = None"
    and "length (concat (map encode_attr (before @ (0x0020, encode_xor_address txID ip port) # after))) \<le> 65515"
  shows "parseSTUNResponse (encode_response txID (before @ (0x0020, encode_xor_address txID ip port) # after)) txID
    = Ret (Inr (udp_addr ip port))"
proof -
  let ?as = "before @ (0x0020, encode_xor_address txID ip port) # after"
  let ?body = "concat (map encode_attr ?as)" and ?data = "encode_response txID ?as"
  have data: "?data = PutUint16 0x0101 @ PutUint16 (of_nat (length ?body)) @ PutUint32 magicCookie @ txID @ ?body"
    by (simp only: encode_response_def Let_def)
  have len: "length ?data = 20 + length ?body" unfolding data using assms(1) by simp
  have n: "unat (Uint16 (slice 2 4 ?data)) = length ?body"
    unfolding data using assms(5) by (simp add: slice_def unat_len16 del: concat_append map_append)
  have ty: "Uint16 (slice 0 2 ?data) = 0x0101" unfolding data by simp
  have ck: "Uint32 (slice 4 8 ?data) = magicCookie" unfolding data by (simp add: slice_def)
  have tx: "slice 8 20 ?data = txID" unfolding data using assms(1) by (simp add: slice_def)
  have bd: "slice 20 (20 + length ?body) ?data = ?body" unfolding data using assms(1) by (simp add: slice_def)
  have "length (encode_xor_address txID ip port) < 65536" using assms(1,2) by (auto simp: encode_xor_address_def)
  then have "list_all (\<lambda>(t, v). length v < 65536) ?as" using assms(3) by simp
  then have "attrs_of ?body = (?as, False)" by (rule attrs_of_concat)
  moreover have "first_addr txID (before @ r) = first_addr txID r" for r
    using assms(4) by (induction before) (auto split: sum.splits)
  then have "first_addr txID ?as = Some (udp_addr ip port)"
    by (simp add: attribute_addr_def parse_encode_xor [OF assms(1,2)])
  ultimately have "address_of txID ?body = Inr (udp_addr ip port)" unfolding address_of_def by simp
  moreover have "length ?data < 65536" using len assms(5) by simp
  ultimately show ?thesis
    using parse_response_eq [of ?data txID] unfolding ty ck tx n bd len by simp
qed

theorem stun_round_trip_witness:
  "parseSTUNResponse (encode_response [1, 2, 3, 4, 5, 6, 7, 8, 9, 10, 11, 12]
     ([(0x8022, [65, 66, 67])] @ (0x0020, encode_xor_address [1, 2, 3, 4, 5, 6, 7, 8, 9, 10, 11, 12] [192, 0, 2, 1] 54321) # []))
     [1, 2, 3, 4, 5, 6, 7, 8, 9, 10, 11, 12]
   = Ret (Inr (udp_addr [192, 0, 2, 1] 54321))"
  by (rule stun_round_trip)
    (simp_all add: attribute_addr_def length_encode_attr paddedLen_eq encode_xor_address_def)


text \<open>
  Exactly when the parser panics: the 16-bit sum \<open>20 + msgLen\<close> wraps around, which needs a
  packet of at least 65536 bytes. No packet that fits the listener's buffer of 65535 bytes does it.
\<close>

lemma parse_panics_iff:
  "parseSTUNResponse data txID = Panic x \<longleftrightarrow>
     x = SliceBounds \<and> 20 \<le> length data \<and> Uint16 (slice 0 2 data) = 0x0101
     \<and> Uint32 (slice 4 8 data) = magicCookie \<and> slice 8 20 data = txID
     \<and> 65516 \<le> unat (Uint16 (slice 2 4 data)) \<and> 20 + unat (Uint16 (slice 2 4 data)) \<le> length data"
proof -
  let ?n = "Uint16 (slice 2 4 data)"
  have wrap: "unat (20 + ?n) = (20 + unat ?n) mod 65536" by (simp add: unat_word_ariths)
  have "unat (20 + ?n) = (if 65516 \<le> unat ?n then unat ?n - 65516 else 20 + unat ?n)"
    unfolding wrap using unat_uint16_less [of ?n] by (simp add: mod_if)
  then have "go_slice 20 (unat (20 + ?n)) data = Panic x \<longleftrightarrow> x = SliceBounds \<and> 65516 \<le> unat ?n"
    if "20 + unat ?n \<le> length data"
    using that unat_uint16_less [of ?n] by (auto simp: go_slice_panic_iff)
  then show ?thesis
    unfolding parseSTUNResponse_def Let_def by (auto split: go.splits)
qed

text \<open>
  The filter of a query accepts a packet exactly if it comes from the server's address (an
  IPv4-mapped address counting as the IPv4 address) and port and carries the magic cookie and the
  query's transaction id; the comparison of the printed addresses is exact.
\<close>

lemma stun_callback_iff:
  "stun_callback server txID src data \<longleftrightarrow>
     canon_ip (addr_IP src) = canon_ip (addr_IP server) \<and> addr_Port src = addr_Port server
     \<and> 20 \<le> length data \<and> Uint32 (slice 4 8 data) = magicCookie \<and> slice 8 20 data = txID"
  by (auto simp: stun_callback_def IP_String_eq_iff)

end
