(* ===== verification/Identify.thy ===== *)
theory Identify
  imports InviteKeyV1 Interfaces
begin

text \<open>
  \<^verbatim>\<open>src/identify/identifier.go\<close>: the node's keys and public address. The getter and the
  setter of the address copy it \<^emph>\<open>to prevent external modification\<close>; to state that, addresses
  are objects in a store, their IP bytes are slices of shared arrays, and a client is a program
  that may write through every pointer and slice it has been given. The X25519 key derivation of
  \<^verbatim>\<open>crypto/ecdh\<close> is an argument.
\<close>

section \<open>Addresses in a store\<close>

text \<open>A slice of bytes: array, offset and length.\<close>

record byte_slice =
  s_arr :: nat
  s_off :: nat
  s_len :: nat

text \<open>A \<^verbatim>\<open>net.UDPAddr\<close> object; a nil IP is \<open>None\<close>.\<close>

record addr_obj =
  obj_IP :: "byte_slice option"
  obj_Port :: int
  obj_Zone :: string

record store =
  arrays :: "bytes list"
  objs :: "addr_obj list"

definition slice_bytes :: "store \<Rightarrow> byte_slice option \<Rightarrow> bytes" where
  "slice_bytes H sl = (case sl of None \<Rightarrow> [] | Some s \<Rightarrow> take (s_len s) (drop (s_off s) (arrays H ! s_arr s)))"

definition obj_value :: "store \<Rightarrow> addr_obj \<Rightarrow> UDPAddr" where
  "obj_value H a = \<lparr>addr_IP = slice_bytes H (obj_IP a), addr_Port = obj_Port a, addr_Zone = obj_Zone a\<rparr>"

definition addr_value :: "store \<Rightarrow> nat \<Rightarrow> UDPAddr" where
  "addr_value H p = obj_value H (objs H ! p)"

text \<open>\<^verbatim>\<open>append([]byte(nil), s...)\<close>: a fresh array with the bytes of the slice, or nil for none.\<close>

definition append_nil :: "byte_slice option \<Rightarrow> store \<Rightarrow> byte_slice option \<times> store" where
  "append_nil sl H =
     (let bs = slice_bytes H sl
      in if bs = [] then (None, H)
         else (Some \<lparr>s_arr = length (arrays H), s_off = 0, s_len = length bs\<rparr>, H\<lparr>arrays := arrays H @ [bs]\<rparr>))"

text \<open>\<^verbatim>\<open>&net.UDPAddr{IP: append([]byte(nil), a.IP...), Port: a.Port, Zone: a.Zone}\<close>.\<close>

definition copy_addr :: "nat \<Rightarrow> store \<Rightarrow> nat \<times> store" where
  "copy_addr p H =
     (let a = objs H ! p; (ip, H1) = append_nil (obj_IP a) H
      in (length (objs H1), H1\<lparr>objs := objs H1 @ [\<lparr>obj_IP = ip, obj_Port = obj_Port a, obj_Zone = obj_Zone a\<rparr>]\<rparr>))"

section \<open>Identity\<close>

record ('x, 'y) Identity =
  publicAddr :: "nat option"
  x25519Priv :: 'x
  x25519Pub :: 'y
  ed25519Priv :: bytes
  ed25519Pub :: bytes

datatype identity_error = X25519Nil | Ed25519Empty

definition NewIdentity ::
  "('x \<Rightarrow> 'y) \<Rightarrow> 'x option \<Rightarrow> bytes \<Rightarrow> (identity_error + ('x, 'y) Identity) go" where
  "NewIdentity x25519_PublicKey xPriv edPriv =
     (case xPriv of
        None \<Rightarrow> Ret (Inl X25519Nil)
      | Some x \<Rightarrow>
          if length edPriv = 0 then Ret (Inl Ed25519Empty)
          else case ed25519_Public edPriv of
                 Panic e \<Rightarrow> Panic e
               | Ret pub \<Rightarrow>
                   Ret (Inr \<lparr>publicAddr = None, x25519Priv = x, x25519Pub = x25519_PublicKey x,
                             ed25519Priv = edPriv, ed25519Pub = pub\<rparr>))"

definition GetPublicAddr :: "('x, 'y) Identity \<Rightarrow> store \<Rightarrow> nat option \<times> store" where
  "GetPublicAddr iden H =
     (case publicAddr iden of
        None \<Rightarrow> (None, H)
      | Some p \<Rightarrow> (case copy_addr p H of (q, H') \<Rightarrow> (Some q, H')))"

definition SetPublicAddr :: "nat option \<Rightarrow> ('x, 'y) Identity \<Rightarrow> store \<Rightarrow> ('x, 'y) Identity \<times> store" where
  "SetPublicAddr addr iden H =
     (case addr of
        None \<Rightarrow> (iden\<lparr>publicAddr := None\<rparr>, H)
      | Some p \<Rightarrow> (case copy_addr p H of (q, H') \<Rightarrow> (iden\<lparr>publicAddr := Some q\<rparr>, H')))"

definition GetX25519Keys :: "('x, 'y) Identity \<Rightarrow> 'x \<times> 'y" where
  "GetX25519Keys iden = (x25519Priv iden, x25519Pub iden)"

definition GetEd25519Keys :: "('x, 'y) Identity \<Rightarrow> bytes \<times> bytes" where
  "GetEd25519Keys iden = (ed25519Priv iden, ed25519Pub iden)"

section \<open>Clients\<close>

text \<open>
  A client with the arrays and address objects it has references to: it may make a new address,
  set and get the public address, and overwrite any byte of its arrays and any field of its objects,
  the latter with slices of its own arrays.
\<close>

record ('x, 'y) client =
  cl_identity :: "('x, 'y) Identity"
  cl_store :: store
  cl_arrays :: "nat list"
  cl_objs :: "nat list"

datatype client_op =
    NewAddr bytes int string
  | SetAddr "nat option"
  | GetAddr
  | WriteByte nat nat byte
  | WriteObj nat addr_obj

definition client_sees :: "nat list \<Rightarrow> byte_slice option \<Rightarrow> bool" where
  "client_sees as sl \<longleftrightarrow> (case sl of None \<Rightarrow> True | Some s \<Rightarrow> s_arr s \<in> set as)"

fun permitted :: "client_op \<Rightarrow> ('x, 'y) client \<Rightarrow> bool" where
  "permitted (NewAddr ip port zone) cl = True"
| "permitted (SetAddr None) cl = True"
| "permitted (SetAddr (Some p)) cl = (p \<in> set (cl_objs cl))"
| "permitted GetAddr cl = True"
| "permitted (WriteByte a i b) cl = (a \<in> set (cl_arrays cl))"
| "permitted (WriteObj p a) cl = (p \<in> set (cl_objs cl) \<and> client_sees (cl_arrays cl) (obj_IP a))"

text \<open>The references a client gets with a new object.\<close>

definition learn :: "nat \<Rightarrow> store \<Rightarrow> ('x, 'y) client \<Rightarrow> ('x, 'y) client" where
  "learn q H cl = cl\<lparr>cl_store := H, cl_objs := q # cl_objs cl,
     cl_arrays := (case obj_IP (objs H ! q) of None \<Rightarrow> [] | Some s \<Rightarrow> [s_arr s]) @ cl_arrays cl\<rparr>"

fun client_act :: "client_op \<Rightarrow> ('x, 'y) client \<Rightarrow> ('x, 'y) client" where
  "client_act (NewAddr ip port zone) cl =
     (let H = cl_store cl
      in learn (length (objs H))
           (H\<lparr>arrays := arrays H @ [ip],
              objs := objs H @ [\<lparr>obj_IP = Some \<lparr>s_arr = length (arrays H), s_off = 0, s_len = length ip\<rparr>,
                                obj_Port = port, obj_Zone = zone\<rparr>]\<rparr>) cl)"
| "client_act (SetAddr a) cl =
     (case SetPublicAddr a (cl_identity cl) (cl_store cl) of
        (iden, H) \<Rightarrow> cl\<lparr>cl_identity := iden, cl_store := H\<rparr>)"
| "client_act GetAddr cl =
     (case GetPublicAddr (cl_identity cl) (cl_store cl) of
        (None, H) \<Rightarrow> cl\<lparr>cl_store := H\<rparr>
      | (Some q, H) \<Rightarrow> learn q H cl)"
| "client_act (WriteByte a i b) cl =
     (let H = cl_store cl in cl\<lparr>cl_store := H\<lparr>arrays := (arrays H)[a := (arrays H ! a)[i := b]]\<rparr>\<rparr>)"
| "client_act (WriteObj p a) cl = (let H = cl_store cl in cl\<lparr>cl_store := H\<lparr>objs := (objs H)[p := a]\<rparr>\<rparr>)"

definition client_step :: "client_op \<Rightarrow> ('x, 'y) client \<Rightarrow> ('x, 'y) client" where
  "client_step act cl = (if permitted act cl then client_act act cl else cl)"

definition client_run :: "client_op list \<Rightarrow> ('x, 'y) client \<Rightarrow> ('x, 'y) client" where
  "client_run acts cl = fold client_step acts cl"

definition new_client :: "('x, 'y) Identity \<Rightarrow> ('x, 'y) client" where
  "new_client iden = \<lparr>cl_identity = iden\<lparr>publicAddr := None\<rparr>, cl_store = \<lparr>arrays = [], objs = []\<rparr>,
     cl_arrays = [], cl_objs = []\<rparr>"

definition public_value :: "('x, 'y) client \<Rightarrow> UDPAddr option" where
  "public_value cl = map_option (addr_value (cl_store cl)) (publicAddr (cl_identity cl))"

section \<open>Isolation\<close>

definition in_store :: "store \<Rightarrow> byte_slice option \<Rightarrow> bool" where
  "in_store H sl \<longleftrightarrow> (case sl of None \<Rightarrow> True | Some s \<Rightarrow> s_arr s < length (arrays H))"

text \<open>The identity's own object and array are out of the client's reach.\<close>

definition own_ok :: "('x, 'y) client \<Rightarrow> bool" where
  "own_ok cl \<longleftrightarrow>
     (case publicAddr (cl_identity cl) of
        None \<Rightarrow> True
      | Some q \<Rightarrow> q < length (objs (cl_store cl)) \<and> q \<notin> set (cl_objs cl)
          \<and> (case obj_IP (objs (cl_store cl) ! q) of
                None \<Rightarrow> True
              | Some s \<Rightarrow> s_arr s < length (arrays (cl_store cl)) \<and> s_arr s \<notin> set (cl_arrays cl)))"

definition client_ok :: "('x, 'y) client \<Rightarrow> bool" where
  "client_ok cl \<longleftrightarrow> (\<forall>a \<in> set (cl_arrays cl). a < length (arrays (cl_store cl)))
     \<and> (\<forall>p \<in> set (cl_objs cl). p < length (objs (cl_store cl)) \<and> in_store (cl_store cl) (obj_IP (objs (cl_store cl) ! p)))
     \<and> own_ok cl"

lemma copy_addr_arrays:
  "copy_addr p H = (q, H') \<Longrightarrow> arrays H' = arrays H \<or> arrays H' = arrays H @ [slice_bytes H (obj_IP (objs H ! p))]"
  by (auto simp: copy_addr_def append_nil_def Let_def split: if_splits)

lemma copy_addr_objs:
  "copy_addr p H = (q, H') \<Longrightarrow> q = length (objs H) \<and> take q (objs H') = objs H \<and> length (objs H') = Suc q"
  by (auto simp: copy_addr_def append_nil_def Let_def split: if_splits)

lemma copy_addr_new:
  assumes "copy_addr p H = (q, H')"
  shows "obj_IP (objs H' ! q) = None
    \<or> (\<exists>s. obj_IP (objs H' ! q) = Some s \<and> s_arr s = length (arrays H) \<and> length (arrays H') = Suc (length (arrays H)))"
    and copy_addr_value: "addr_value H' q = addr_value H p"
  using assms
  by (auto simp: copy_addr_def append_nil_def Let_def addr_value_def obj_value_def slice_bytes_def split: if_splits)

lemma slice_bytes_mono:
  assumes "in_store H sl" "\<And>a. a < length (arrays H) \<Longrightarrow> arrays H' ! a = arrays H ! a"
  shows "slice_bytes H' sl = slice_bytes H sl"
  using assms by (auto simp: slice_bytes_def in_store_def split: option.splits)

lemma copy_addr_old:
  assumes "copy_addr p H = (q, H')" "r < length (objs H)" "in_store H (obj_IP (objs H ! r))"
  shows "objs H' ! r = objs H ! r" "addr_value H' r = addr_value H r" "in_store H' (obj_IP (objs H ! r))"
    "length (arrays H) \<le> length (arrays H')"
proof -
  have q: "q = length (objs H) \<and> take q (objs H') = objs H" using copy_addr_objs [OF assms(1)] by blast
  then have rq: "r < q" and take: "take q (objs H') = objs H" using assms(2) by blast+
  show old: "objs H' ! r = objs H ! r" using nth_take [OF rq, of "objs H'"] unfolding take by (rule sym)
  note c = copy_addr_arrays [OF assms(1)]
  then have "arrays H' ! a = arrays H ! a" if "a < length (arrays H)" for a using that by (auto simp: nth_append)
  from slice_bytes_mono [OF assms(3) this] show "addr_value H' r = addr_value H r"
    by (simp add: addr_value_def obj_value_def old)
  show "in_store H' (obj_IP (objs H ! r))" using assms(3) c by (auto simp: in_store_def split: option.splits)
  show "length (arrays H) \<le> length (arrays H')" using c by auto
qed

lemma client_ok_objs: "client_ok cl \<Longrightarrow> p \<in> set (cl_objs cl) \<Longrightarrow>
   p < length (objs (cl_store cl)) \<and> in_store (cl_store cl) (obj_IP (objs (cl_store cl) ! p))"
  by (simp add: client_ok_def)

lemma own_in_store: "own_ok cl \<Longrightarrow> publicAddr (cl_identity cl) = Some q \<Longrightarrow>
   q < length (objs (cl_store cl)) \<and> in_store (cl_store cl) (obj_IP (objs (cl_store cl) ! q))"
  by (auto simp: own_ok_def in_store_def split: option.splits)

text \<open>Both operations copy an object into fresh locations; what the client could reach it still
  reaches, with the same contents.\<close>

lemma client_ok_copy:
  assumes "client_ok cl" "copy_addr p (cl_store cl) = (q, H')"
  shows "(\<forall>a \<in> set (cl_arrays cl). a < length (arrays H') \<and> a < length (arrays (cl_store cl)))
    \<and> (\<forall>r \<in> set (cl_objs cl). r < length (objs H') \<and> r \<noteq> q \<and> in_store H' (obj_IP (objs H' ! r)))"
proof -
  let ?H = "cl_store cl"
  have q: "q = length (objs ?H)" "length (objs H') = Suc q" using copy_addr_objs [OF assms(2)] by simp_all
  have "length (arrays ?H) \<le> length (arrays H')" using copy_addr_arrays [OF assms(2)] by auto
  moreover have "r < length (objs H') \<and> r \<noteq> q \<and> in_store H' (obj_IP (objs H' ! r))" if "r \<in> set (cl_objs cl)" for r
    using client_ok_objs [OF assms(1) that] copy_addr_old [OF assms(2), of r] q by simp
  ultimately show ?thesis using assms(1) by (fastforce simp: client_ok_def)
qed

lemma set_step:
  assumes ok: "client_ok cl" and p: "p \<in> set (cl_objs cl)"
  shows "client_ok (client_act (SetAddr (Some p)) cl)
    \<and> public_value (client_act (SetAddr (Some p)) cl) = Some (addr_value (cl_store cl) p)"
proof -
  obtain q H' where c: "copy_addr p (cl_store cl) = (q, H')" by fastforce
  note reach = client_ok_copy [OF ok c]
  have q: "q < length (objs H')" using copy_addr_objs [OF c] by simp
  have "case obj_IP (objs H' ! q) of None \<Rightarrow> True | Some s \<Rightarrow> s_arr s < length (arrays H') \<and> s_arr s \<notin> set (cl_arrays cl)"
    using copy_addr_new(1) [OF c] reach by (auto split: option.splits)
  then have "own_ok (client_act (SetAddr (Some p)) cl)"
    using q reach by (auto simp: own_ok_def SetPublicAddr_def c split: option.splits)
  then show ?thesis
    using reach copy_addr_new(2) [OF c] by (simp add: client_ok_def SetPublicAddr_def c public_value_def)
qed

lemma get_step:
  assumes ok: "client_ok cl"
  shows "client_ok (client_act GetAddr cl) \<and> public_value (client_act GetAddr cl) = public_value cl"
proof (cases "publicAddr (cl_identity cl)")
  case None
  then show ?thesis using ok by (simp add: GetPublicAddr_def)
next
  case (Some p)
  obtain q H' where c: "copy_addr p (cl_store cl) = (q, H')" by fastforce
  have own: "own_ok cl" using ok by (simp add: client_ok_def)
  note reach = client_ok_copy [OF ok c] and old = copy_addr_old [OF c] and p = own_in_store [OF own Some]
  have q: "q = length (objs (cl_store cl))" "length (objs H') = Suc q" using copy_addr_objs [OF c] by simp_all
  have act: "client_act GetAddr cl = learn q H' cl" by (simp add: GetPublicAddr_def Some c)
  have new: "obj_IP (objs H' ! q) = None \<or> (\<exists>s. obj_IP (objs H' ! q) = Some s
      \<and> s_arr s = length (arrays (cl_store cl)) \<and> length (arrays H') = Suc (length (arrays (cl_store cl))))"
    by (rule copy_addr_new(1) [OF c])
  have "own_ok (learn q H' cl)"
    using own Some p old [of p] q new by (auto simp: own_ok_def learn_def split: option.splits)
  moreover have "in_store H' (obj_IP (objs H' ! q))" using new by (auto simp: in_store_def split: option.splits)
  moreover have "\<forall>a \<in> set (cl_arrays (learn q H' cl)). a < length (arrays H')"
    using reach new by (auto simp: learn_def split: option.splits)
  ultimately have "client_ok (learn q H' cl)"
    using reach q by (auto simp: client_ok_def learn_def)
  then show ?thesis using act Some p old(2) [of p] by (simp add: public_value_def learn_def)
qed

lemma new_step:
  assumes ok: "client_ok cl"
  shows "client_ok (client_act (NewAddr ip port zone) cl) \<and> public_value (client_act (NewAddr ip port zone) cl) = public_value cl"
proof -
  let ?H = "cl_store cl"
  let ?H' = "?H\<lparr>arrays := arrays ?H @ [ip],
     objs := objs ?H @ [\<lparr>obj_IP = Some \<lparr>s_arr = length (arrays ?H), s_off = 0, s_len = length ip\<rparr>, obj_Port = port, obj_Zone = zone\<rparr>]\<rparr>"
  have own: "own_ok cl" using ok by (simp add: client_ok_def)
  have mono: "slice_bytes ?H' sl = slice_bytes ?H sl" if "in_store ?H sl" for sl
    by (rule slice_bytes_mono [OF that]) (simp add: nth_append)
  have "own_ok (learn (length (objs ?H)) ?H' cl)"
    using own by (fastforce simp: own_ok_def learn_def nth_append split: option.splits)
  moreover have "\<forall>r \<in> set (cl_objs cl). r < Suc (length (objs ?H)) \<and> in_store ?H' (obj_IP (objs ?H' ! r))"
    using ok by (auto simp: client_ok_def nth_append in_store_def split: option.splits)
  moreover have "\<forall>a \<in> set (cl_arrays cl). a < Suc (length (arrays ?H))" using ok by (auto simp: client_ok_def)
  ultimately have "client_ok (client_act (NewAddr ip port zone) cl)"
    by (simp add: client_ok_def learn_def in_store_def Let_def)
  moreover have "public_value (client_act (NewAddr ip port zone) cl) = public_value cl"
  proof (cases "publicAddr (cl_identity cl)")
    case (Some q)
    with own_in_store [OF own Some] mono show ?thesis
      by (simp add: public_value_def learn_def Let_def addr_value_def obj_value_def nth_append)
  qed (simp add: public_value_def learn_def Let_def)
  ultimately show ?thesis ..
qed

lemma write_byte_step:
  assumes ok: "client_ok cl" and a: "a \<in> set (cl_arrays cl)"
  shows "client_ok (client_act (WriteByte a i b) cl) \<and> public_value (client_act (WriteByte a i b) cl) = public_value cl"
proof -
  let ?H = "cl_store cl" and ?H' = "(cl_store cl)\<lparr>arrays := (arrays (cl_store cl))[a := (arrays (cl_store cl) ! a)[i := b]]\<rparr>"
  have own: "own_ok cl" using ok by (simp add: client_ok_def)
  have act: "client_act (WriteByte a i b) cl = cl\<lparr>cl_store := ?H'\<rparr>" by (simp add: Let_def)
  have ok': "client_ok (cl\<lparr>cl_store := ?H'\<rparr>)" using ok by (auto simp: client_ok_def own_ok_def in_store_def split: option.splits)
  have "public_value (cl\<lparr>cl_store := ?H'\<rparr>) = public_value cl"
  proof (cases "publicAddr (cl_identity cl)")
    case (Some q)
    have "slice_bytes ?H' (obj_IP (objs ?H ! q)) = slice_bytes ?H (obj_IP (objs ?H ! q))"
    proof (cases "obj_IP (objs ?H ! q)")
      case (Some sl)
      have "s_arr sl \<noteq> a" using own \<open>publicAddr (cl_identity cl) = Some q\<close> Some a by (auto simp: own_ok_def)
      with Some show ?thesis by (simp add: slice_bytes_def)
    qed (simp add: slice_bytes_def)
    with Some show ?thesis by (simp add: public_value_def addr_value_def obj_value_def)
  qed (simp add: public_value_def)
  with ok' show ?thesis unfolding act ..
qed

lemma write_obj_step:
  assumes ok: "client_ok cl" and p: "p \<in> set (cl_objs cl)" "client_sees (cl_arrays cl) (obj_IP v)"
  shows "client_ok (client_act (WriteObj p v) cl) \<and> public_value (client_act (WriteObj p v) cl) = public_value cl"
proof -
  let ?H = "cl_store cl" and ?H' = "(cl_store cl)\<lparr>objs := (objs (cl_store cl))[p := v]\<rparr>"
  have own: "own_ok cl" using ok by (simp add: client_ok_def)
  have act: "client_act (WriteObj p v) cl = cl\<lparr>cl_store := ?H'\<rparr>" by (simp add: Let_def)
  have same: "objs ?H' ! q = objs ?H ! q" if "publicAddr (cl_identity cl) = Some q" for q
  proof -
    have "q \<noteq> p" using own that p(1) by (auto simp: own_ok_def)
    then show ?thesis by simp
  qed
  have "in_store ?H (obj_IP v)"
    using ok p(2) by (auto simp: client_ok_def in_store_def client_sees_def split: option.splits)
  then have "in_store ?H' (obj_IP (objs ?H' ! r))" if "r \<in> set (cl_objs cl)" for r
    using client_ok_objs [OF ok that] by (cases "r = p") (auto simp: in_store_def split: option.splits)
  moreover have "own_ok (cl\<lparr>cl_store := ?H'\<rparr>)"
    using own same by (auto simp: own_ok_def split: option.splits)
  ultimately have ok': "client_ok (cl\<lparr>cl_store := ?H'\<rparr>)" using ok by (simp add: client_ok_def)
  have "public_value (cl\<lparr>cl_store := ?H'\<rparr>) = public_value cl"
    using same
    by (cases "publicAddr (cl_identity cl)")
      (auto simp: public_value_def addr_value_def obj_value_def slice_bytes_def split: option.splits)
  with ok' show ?thesis unfolding act ..
qed

lemma client_step_ok:
  assumes "client_ok cl"
  shows "client_ok (client_step act cl) \<and> public_value (client_step act cl) =
    (if permitted act cl then case act of SetAddr a \<Rightarrow> map_option (addr_value (cl_store cl)) a | _ \<Rightarrow> public_value cl
     else public_value cl)"
proof (cases "permitted act cl")
  case True
  show ?thesis
  proof (cases act)
    case (SetAddr a)
    then show ?thesis
      using True assms set_step [OF assms]
      by (cases a) (auto simp: client_step_def SetPublicAddr_def public_value_def client_ok_def own_ok_def)
  next
    case (NewAddr ip port zone)
    with True new_step [OF assms] show ?thesis by (simp add: client_step_def del: client_act.simps)
  next
    case GetAddr
    with True get_step [OF assms] show ?thesis by (simp add: client_step_def del: client_act.simps)
  next
    case (WriteByte a i b)
    with True write_byte_step [OF assms] show ?thesis by (simp add: client_step_def del: client_act.simps)
  next
    case (WriteObj p v)
    with True write_obj_step [OF assms] show ?thesis by (simp add: client_step_def del: client_act.simps)
  qed
next
  case False
  then show ?thesis using assms by (simp add: client_step_def)
qed

lemma client_run_ok: "client_ok (client_run acts (new_client iden))"
proof -
  have "client_ok (fold client_step acts cl)" if "client_ok cl" for cl
    using that client_step_ok by (induction acts arbitrary: cl) auto
  moreover have "client_ok (new_client iden)" by (simp add: new_client_def client_ok_def own_ok_def)
  ultimately show ?thesis unfolding client_run_def by blast
qed

section \<open>Properties\<close>

lemma get_value:
  "case GetPublicAddr (cl_identity cl) (cl_store cl) of (r, H) \<Rightarrow> map_option (addr_value H) r = public_value cl"
  by (cases "publicAddr (cl_identity cl)")
    (auto simp: GetPublicAddr_def public_value_def copy_addr_new(2) split: prod.splits)

text \<open>
  C27: the public address is isolated from its clients. Whatever a client does with the addresses it
  passed to \<open>SetPublicAddr\<close> or got from \<open>GetPublicAddr\<close> (overwriting their bytes and
  fields included), \<open>GetPublicAddr\<close> returns the value the last \<open>SetPublicAddr\<close> was given
  at the time of the call, and no other action changes it.
\<close>

theorem public_addr_isolated:
  fixes acts and iden :: "('x, 'y) Identity"
  defines "cl \<equiv> client_run acts (new_client iden)"
  shows "public_value (client_step act cl) =
      (if permitted act cl
       then case act of SetAddr a \<Rightarrow> map_option (addr_value (cl_store cl)) a | _ \<Rightarrow> public_value cl
       else public_value cl)
    \<and> (case GetPublicAddr (cl_identity cl) (cl_store cl) of (r, H) \<Rightarrow> map_option (addr_value H) r = public_value cl)"
  unfolding cl_def by (rule conjI [OF client_step_ok [OF client_run_ok, THEN conjunct2] get_value])


end
