(* ===== verification/UdpListener.thy ===== *)
theory UdpListener
  imports Interfaces GoChan GoSync "HOL-Library.AList" "HOL-Library.Multiset"
begin

text \<open>
  \<^verbatim>\<open>src/network/udp_listener.go\<close>: the UDP port shared by its subscribers. As for the session
  manager, goroutines are threads that interleave at the critical sections and blocking calls: the
  read loop, one delivery per packet and subscription, and the callers of \<^verbatim>\<open>StartListener\<close> and
  \<^verbatim>\<open>StopListener\<close>. Sockets, contexts and subscriber channels are numbered; the filter of a
  subscription is a function of the source address and the data.
\<close>

section \<open>Data\<close>

record subscription =
  sub_callback :: "UDPAddr \<Rightarrow> bytes \<Rightarrow> bool"
  sub_ch :: nat

text \<open>The subscription map is an association list with distinct keys; its order is never observed.\<close>

record UDPListener =
  udp_conn :: "nat option"
  subscriptions :: "(uint32 \<times> subscription) list"
  nextSubID :: uint32
  isListening :: bool
  udp_cancel :: "nat option"
  udp_wg :: WaitGroup

text \<open>A socket: its port, whether it is open, and what reading it will give: packets, or errors.\<close>

record socket =
  sock_port :: uint16
  sock_open :: bool
  sock_in :: "(UDPAddr \<times> bytes) option list"

text \<open>
  The listener with the sockets, the cancelled contexts and the channels of its subscribers.
  \<open>busy\<close> says which ports other processes hold. The last three fields are histories: packets
  sent, packets read, and all subscriptions ever made.
\<close>

record udp_world =
  listener :: UDPListener
  sockets :: "socket list"
  contexts :: "bool list"
  channels :: "bytes chan list"
  busy :: "uint16 \<Rightarrow> bool"
  outbox :: "(UDPAddr \<times> bytes) list"
  received :: "(UDPAddr \<times> bytes) list"
  subscribed :: "subscription list"

datatype udp_error =
    AlreadyRunning
  | ListenFailed uint16
  | NotRunning
  | WriteFailed
  | NilCallback
  | NilChannel
  | SubscriptionNotFound uint32

datatype uthread =
    UStart nat nat
  | UTop nat nat
  | URead nat nat
  | UCheck nat nat
  | UFan nat nat UDPAddr bytes
  | UDeliver subscription UDPAddr bytes
  | UDone
  | URelease
  | UStopWait
  | UStopBlocked

definition NewUDPListener :: UDPListener where
  "NewUDPListener = \<lparr>udp_conn = None, subscriptions = [], nextSubID = 0, isListening = False,
     udp_cancel = None, udp_wg = new_wg\<rparr>"

section \<open>Operations\<close>

text \<open>\<^verbatim>\<open>net.ListenUDP\<close> on a port: port 0 asks for any free port.\<close>

definition ListenUDP :: "uint16 \<Rightarrow> udp_world \<Rightarrow> nat option \<times> udp_world" where
  "ListenUDP port w =
     (if port \<noteq> 0 \<and> (busy w port \<or> list_ex (\<lambda>s. sock_open s \<and> sock_port s = port) (sockets w)) then (None, w)
      else (Some (length (sockets w)),
            w\<lparr>sockets := sockets w @ [\<lparr>sock_port = port, sock_open = True, sock_in = []\<rparr>]\<rparr>))"

text \<open>The part of \<^verbatim>\<open>StartListener\<close> under the lock; the address of a numeric port always
  resolves. The thread it leaves does the \<^verbatim>\<open>wg.Add\<close> and starts the read loop.\<close>

definition StartListener :: "nat \<Rightarrow> uint16 \<Rightarrow> udp_world \<Rightarrow> udp_error option \<times> uthread list \<times> udp_world" where
  "StartListener ctx port w =
     (if isListening (listener w) then (Some AlreadyRunning, [], w)
      else case ListenUDP port w of
             (None, w1) \<Rightarrow> (Some (ListenFailed port), [], w1)
           | (Some conn, w1) \<Rightarrow>
               (let child = length (contexts w1)
                in (None, [UStart conn child],
                    w1\<lparr>contexts := contexts w1 @ [contexts w1 ! ctx],
                       listener := (listener w1)\<lparr>udp_conn := Some conn, isListening := True,
                         udp_cancel := Some child\<rparr>\<rparr>)))"

definition close_socket :: "nat \<Rightarrow> udp_world \<Rightarrow> udp_world" where
  "close_socket k w = w\<lparr>sockets := (sockets w)[k := (sockets w ! k)\<lparr>sock_open := False\<rparr>]\<rparr>"

definition cancel_context :: "nat \<Rightarrow> udp_world \<Rightarrow> udp_world" where
  "cancel_context c w = w\<lparr>contexts := (contexts w)[c := True]\<rparr>"

text \<open>The part of \<^verbatim>\<open>StopListener\<close> under the lock.\<close>

definition StopListener :: "udp_world \<Rightarrow> uthread list \<times> udp_world" where
  "StopListener w =
     (if \<not> isListening (listener w) then ([], w)
      else let w1 = w\<lparr>listener := (listener w)\<lparr>isListening := False\<rparr>\<rparr>;
               w2 = (case udp_conn (listener w) of None \<Rightarrow> w1 | Some k \<Rightarrow> close_socket k w1);
               w3 = (case udp_cancel (listener w) of None \<Rightarrow> w2 | Some c \<Rightarrow> cancel_context c w2)
           in ([UStopWait], w3))"

text \<open>\<^verbatim>\<open>WriteToUDP\<close> fails on a closed socket; \<open>sends\<close> says which packets the network
  stack takes.\<close>

definition SendPacketTo ::
  "(UDPAddr \<Rightarrow> bytes \<Rightarrow> bool) \<Rightarrow> UDPAddr \<Rightarrow> bytes \<Rightarrow> udp_world \<Rightarrow> udp_error option \<times> udp_world" where
  "SendPacketTo sends targetAddr data w =
     (case udp_conn (listener w) of
        None \<Rightarrow> (Some NotRunning, w)
      | Some k \<Rightarrow>
          if \<not> isListening (listener w) then (Some NotRunning, w)
          else if sock_open (sockets w ! k) \<and> sends targetAddr data
          then (None, w\<lparr>outbox := outbox w @ [(targetAddr, data)]\<rparr>)
          else (Some WriteFailed, w))"

definition SubscribeToPacketReceived ::
  "(UDPAddr \<Rightarrow> bytes \<Rightarrow> bool) option \<Rightarrow> nat option \<Rightarrow> udp_world \<Rightarrow> (udp_error + uint32) \<times> udp_world" where
  "SubscribeToPacketReceived callback packetChannel w =
     (case callback of
        None \<Rightarrow> (Inl NilCallback, w)
      | Some f \<Rightarrow>
          (case packetChannel of
             None \<Rightarrow> (Inl NilChannel, w)
           | Some ch \<Rightarrow>
               let sid = nextSubID (listener w) + 1; sub = \<lparr>sub_callback = f, sub_ch = ch\<rparr>
               in (Inr sid,
                   w\<lparr>listener := (listener w)\<lparr>nextSubID := sid,
                        subscriptions := AList.update sid sub (subscriptions (listener w))\<rparr>,
                     subscribed := subscribed w @ [sub]\<rparr>)))"

definition UnsubscribeFromPacketReceived :: "uint32 \<Rightarrow> udp_world \<Rightarrow> udp_error option \<times> udp_world" where
  "UnsubscribeFromPacketReceived subscriptionID w =
     (if map_of (subscriptions (listener w)) subscriptionID = None
      then (Some (SubscriptionNotFound subscriptionID), w)
      else (None, w\<lparr>listener := (listener w)\<lparr>subscriptions :=
              AList.delete subscriptionID (subscriptions (listener w))\<rparr>\<rparr>))"

section \<open>Goroutines\<close>

definition upd_wg :: "WaitGroup \<Rightarrow> udp_world \<Rightarrow> udp_world" where
  "upd_wg g w = w\<lparr>listener := (listener w)\<lparr>udp_wg := g\<rparr>\<rparr>"

text \<open>\<^verbatim>\<open>ReadFromUDP\<close> into a buffer of 65535 bytes: \<open>None\<close> while nothing has arrived.\<close>

definition ReadFromUDP :: "nat \<Rightarrow> udp_world \<Rightarrow> ((UDPAddr \<times> bytes) option \<times> udp_world) option" where
  "ReadFromUDP k w =
     (let s = sockets w ! k
      in if \<not> sock_open s then Some (None, w)
         else case sock_in s of
                [] \<Rightarrow> None
              | x # xs \<Rightarrow> Some (map_option (\<lambda>(a, d). (a, take 65535 d)) x,
                               w\<lparr>sockets := (sockets w)[k := s\<lparr>sock_in := xs\<rparr>]\<rparr>))"

fun uexec :: "uthread \<Rightarrow> udp_world \<Rightarrow> (uthread list \<times> udp_world) go option" where
  "uexec (UStart k c) w =
     (case wg_Add 1 (udp_wg (listener w)) of
        Panic x \<Rightarrow> Some (Panic x)
      | Ret g \<Rightarrow> Some (Ret ([UTop k c], upd_wg g w)))"
| "uexec (UTop k c) w = Some (Ret ([if contexts w ! c then UDone else URead k c], w))"
| "uexec (URead k c) w =
     (case ReadFromUDP k w of
        None \<Rightarrow> None
      | Some (None, w') \<Rightarrow> Some (Ret ([UCheck k c], w'))
      | Some (Some (a, d), w') \<Rightarrow> Some (Ret ([UFan k c a d], w'\<lparr>received := received w' @ [(a, d)]\<rparr>)))"
| "uexec (UCheck k c) w = Some (Ret ([if isListening (listener w) then UTop k c else UDone], w))"
| "uexec (UFan k c a d) w =
     Some (Ret (map (\<lambda>(sid, sub). UDeliver sub a d) (subscriptions (listener w)) @ [UTop k c], w))"
| "uexec (UDeliver sub a d) w =
     (if \<not> sub_callback sub a d then Some (Ret ([], w))
      else case try_send d (channels w ! sub_ch sub) of
             Panic x \<Rightarrow> Some (Panic x)
           | Ret (_, ch) \<Rightarrow> Some (Ret ([], w\<lparr>channels := (channels w)[sub_ch sub := ch]\<rparr>)))"
| "uexec UDone w =
     (case wg_Done (udp_wg (listener w)) of
        Panic x \<Rightarrow> Some (Panic x)
      | Ret (final, g) \<Rightarrow> Some (Ret (if final then [URelease] else [], upd_wg g w)))"
| "uexec URelease w =
     (case wg_release (udp_wg (listener w)) of
        Panic x \<Rightarrow> Some (Panic x)
      | Ret g \<Rightarrow> Some (Ret ([], upd_wg g w)))"
| "uexec UStopWait w =
     (case wg_Wait (udp_wg (listener w)) of
        (idle, g) \<Rightarrow> Some (Ret (if idle then [] else [UStopBlocked], upd_wg g w)))"
| "uexec UStopBlocked w =
     (case wg_woken (udp_wg (listener w)) of
        None \<Rightarrow> None
      | Some (Panic x) \<Rightarrow> Some (Panic x)
      | Some (Ret g) \<Rightarrow> Some (Ret ([], upd_wg g w)))"

section \<open>The running listener\<close>

record udp_system =
  world :: udp_world
  uthreads :: "uthread multiset"
  ucrashed :: "panic option"

fun stops :: "uthread \<Rightarrow> bool" where
  "stops UStopWait = True"
| "stops UStopBlocked = True"
| "stops _ = False"

fun starts :: "uthread \<Rightarrow> bool" where
  "starts (UStart _ _) = True"
| "starts _ = False"

text \<open>
  One move. With \<open>orderly\<close> set, callers keep to the contracts of the standard library:
  \<^verbatim>\<open>StartListener\<close> and \<^verbatim>\<open>StopListener\<close> are not called concurrently with each other, and
  subscribers do not close their channels. Channels are buffered. Any context may be cancelled at any
  time, which covers the cancellation of a parent context reaching its children.
\<close>

inductive ustep :: "bool \<Rightarrow> udp_system \<Rightarrow> udp_system \<Rightarrow> bool" for orderly :: bool where
  urun: "uthreads s = add_mset t M \<Longrightarrow> uexec t (world s) = Some (Ret (ts, w')) \<Longrightarrow>
     ustep orderly s (s\<lparr>world := w', uthreads := mset ts + M\<rparr>)"
| ucrash: "t \<in># uthreads s \<Longrightarrow> uexec t (world s) = Some (Panic x) \<Longrightarrow> ustep orderly s (s\<lparr>ucrashed := Some x\<rparr>)"
| ucall_start: "(orderly \<Longrightarrow> \<not> (\<exists>t \<in># uthreads s. stops t)) \<Longrightarrow> ctx < length (contexts (world s)) \<Longrightarrow>
     StartListener ctx port (world s) = (err, ts, w') \<Longrightarrow>
     ustep orderly s (s\<lparr>world := w', uthreads := mset ts + uthreads s\<rparr>)"
| ucall_stop: "(orderly \<Longrightarrow> \<not> (\<exists>t \<in># uthreads s. starts t)) \<Longrightarrow> StopListener (world s) = (ts, w') \<Longrightarrow>
     ustep orderly s (s\<lparr>world := w', uthreads := mset ts + uthreads s\<rparr>)"
| ucall_send: "SendPacketTo sends a d (world s) = (err, w') \<Longrightarrow> ustep orderly s (s\<lparr>world := w'\<rparr>)"
| ucall_subscribe: "ch < length (channels (world s)) \<Longrightarrow>
     SubscribeToPacketReceived (Some f) (Some ch) (world s) = (r, w') \<Longrightarrow> ustep orderly s (s\<lparr>world := w'\<rparr>)"
| ucall_unsubscribe: "UnsubscribeFromPacketReceived sid (world s) = (err, w') \<Longrightarrow>
     ustep orderly s (s\<lparr>world := w'\<rparr>)"
| unew_channel: "0 < n \<Longrightarrow> ustep orderly s (s\<lparr>world := (world s)\<lparr>channels := channels (world s) @ [make_chan n]\<rparr>\<rparr>)"
| uchan_recv: "ch < length (channels (world s)) \<Longrightarrow> chan_recv (channels (world s) ! ch) = Some (r, c') \<Longrightarrow>
     ustep orderly s (s\<lparr>world := (world s)\<lparr>channels := (channels (world s))[ch := c']\<rparr>\<rparr>)"
| uchan_close: "\<not> orderly \<Longrightarrow> ch < length (channels (world s)) \<Longrightarrow> close_chan (channels (world s) ! ch) = Ret c' \<Longrightarrow>
     ustep orderly s (s\<lparr>world := (world s)\<lparr>channels := (channels (world s))[ch := c']\<rparr>\<rparr>)"
| unew_context: "ustep orderly s (s\<lparr>world := (world s)\<lparr>contexts := contexts (world s) @ [False]\<rparr>\<rparr>)"
| ucancel: "ustep orderly s (s\<lparr>world := cancel_context c (world s)\<rparr>)"
| upacket: "k < length (sockets (world s)) \<Longrightarrow>
     ustep orderly s (s\<lparr>world := (world s)\<lparr>sockets := (sockets (world s))[k :=
       (sockets (world s) ! k)\<lparr>sock_in := sock_in (sockets (world s) ! k) @ [x]\<rparr>]\<rparr>\<rparr>)"

definition ustart :: "(uint16 \<Rightarrow> bool) \<Rightarrow> udp_system" where
  "ustart taken_ports =
     \<lparr>world = \<lparr>listener = NewUDPListener, sockets = [], contexts = [], channels = [], busy = taken_ports,
        outbox = [], received = [], subscribed = []\<rparr>, uthreads = {#}, ucrashed = None\<rparr>"

inductive ureachable :: "bool \<Rightarrow> udp_system \<Rightarrow> bool" for orderly :: bool where
  uinit: "ureachable orderly (ustart taken_ports)"
| ulater: "ureachable orderly s \<Longrightarrow> ucrashed s = None \<Longrightarrow> ustep orderly s s' \<Longrightarrow> ureachable orderly s'"

section \<open>The listener as a packet port\<close>

definition sub_table :: "udp_world \<Rightarrow> uint32 \<Rightarrow> subscription option" where
  "sub_table w = map_of (subscriptions (listener w))"

interpretation udp_port: packet_port sub_table "\<lambda>f ch. SubscribeToPacketReceived (Some f) (Some ch)"
  UnsubscribeFromPacketReceived SendPacketTo "\<lambda>f ch. \<lparr>sub_callback = f, sub_ch = ch\<rparr>"
  by unfold_locales
    (auto simp: sub_table_def SubscribeToPacketReceived_def UnsubscribeFromPacketReceived_def SendPacketTo_def
      Let_def update_conv' delete_conv' split: if_splits option.splits)

end
