(* ===== verification/StunDiscoverer.thy ===== *)
theory StunDiscoverer
  imports StunParse Identify UdpListener
begin

text \<open>
  The discovery process of \<^verbatim>\<open>src/stun/stun_discoverer.go\<close>, running against the UDP listener of
  \<open>UdpListener\<close> and the identity of \<open>Identify\<close>. The goroutine of \<^verbatim>\<open>discoveryLoop\<close> and
  the callers of \<^verbatim>\<open>Stop\<close> are threads; between their moves the listener, its other subscribers
  and the other users of the identity move as they like. What the process cannot determine (the
  result of the name resolution, the random transaction id, which ready branch a
  \<^verbatim>\<open>select\<close> takes, when a timer fires) is a choice of the move.
\<close>

section \<open>Data\<close>

record Discoverer =
  servers :: "string list"
  interval :: int
  disc_cancel :: "nat option"
  disc_wg :: WaitGroup
  isRunning :: bool

definition NewDiscoverer :: "string list \<Rightarrow> int \<Rightarrow> Discoverer" where
  "NewDiscoverer srvs dur = \<lparr>servers = srvs, interval = dur, disc_cancel = None, disc_wg = new_wg, isRunning = False\<rparr>"

datatype discoverer_error = DiscovererRunning | NoServers

datatype query_error =
    ResolveFailed
  | RandomFailed
  | SubscribeFailed udp_error
  | SendFailed udp_error
  | QueryCancelled
  | ParseFailed stun_error
  | QueryTimeout

text \<open>Where \<^verbatim>\<open>queryAll\<close> is: its context, whether it is the initial query, and the servers
  still to try.\<close>

record query_all =
  qa_ctx :: nat
  qa_first :: bool
  qa_rest :: "string list"

text \<open>The local variables of \<^verbatim>\<open>queryServer\<close>.\<close>

record query =
  serverAddr :: UDPAddr
  txID :: bytes
  packetChan :: nat

datatype dthread =
    DServer query_all
  | DSubscribe query_all query
  | DSend query_all query uint32
  | DWait query_all query uint32
  | DUnsubscribe query_all uint32 "query_error + UDPAddr"
  | DFound query_all UDPAddr
  | DTicker nat
  | DLoop nat
  | DDone
  | DRelease
  | DStopWait
  | DStopBlocked

text \<open>The discoverer with its listener and identity; \<open>queries\<close> is the history of the queries
  made.\<close>

record ('x, 'y) discovery =
  disc :: Discoverer
  port :: udp_system
  account :: "('x, 'y) client"
  queries :: "query list"

datatype branch = BDone | BPacket | BTimer

record choice =
  resolved :: "UDPAddr option"
  random :: "bytes option"
  selects :: branch
  network :: "UDPAddr \<Rightarrow> bytes \<Rightarrow> bool"

section \<open>Operations\<close>

abbreviation net :: "('x, 'y) discovery \<Rightarrow> udp_world" where
  "net d \<equiv> world (port d)"

definition upd_net :: "udp_world \<Rightarrow> ('x, 'y) discovery \<Rightarrow> ('x, 'y) discovery" where
  "upd_net w d = d\<lparr>port := (port d)\<lparr>world := w\<rparr>\<rparr>"

definition upd_disc_wg :: "WaitGroup \<Rightarrow> ('x, 'y) discovery \<Rightarrow> ('x, 'y) discovery" where
  "upd_disc_wg g d = d\<lparr>disc := (disc d)\<lparr>disc_wg := g\<rparr>\<rparr>"

text \<open>\<^verbatim>\<open>Start\<close> runs under the lock to its end, the \<^verbatim>\<open>wg.Add\<close> included.\<close>

definition StartDiscoverer ::
  "nat \<Rightarrow> ('x, 'y) discovery \<Rightarrow> (discoverer_error option \<times> dthread list \<times> ('x, 'y) discovery) go" where
  "StartDiscoverer ctx d =
     (if isRunning (disc d) then Ret (Some DiscovererRunning, [], d)
      else if length (servers (disc d)) = 0 then Ret (Some NoServers, [], d)
      else let child = length (contexts (net d));
               d1 = upd_net ((net d)\<lparr>contexts := contexts (net d) @ [contexts (net d) ! ctx]\<rparr>)
                      (d\<lparr>disc := (disc d)\<lparr>isRunning := True, disc_cancel := Some child\<rparr>\<rparr>)
           in case wg_Add 1 (disc_wg (disc d1)) of
                Panic x \<Rightarrow> Panic x
              | Ret g \<Rightarrow>
                  Ret (None, [DServer \<lparr>qa_ctx = child, qa_first = True, qa_rest = servers (disc d)\<rparr>],
                       upd_disc_wg g d1))"

text \<open>The part of \<^verbatim>\<open>Stop\<close> under the lock.\<close>

definition StopDiscoverer :: "('x, 'y) discovery \<Rightarrow> dthread list \<times> ('x, 'y) discovery" where
  "StopDiscoverer d =
     (if \<not> isRunning (disc d) then ([], d)
      else let d1 = d\<lparr>disc := (disc d)\<lparr>isRunning := False\<rparr>\<rparr>;
               d2 = (case disc_cancel (disc d) of None \<Rightarrow> d1 | Some c \<Rightarrow> upd_net (cancel_context c (net d1)) d1)
           in ([DStopWait], d2))"

text \<open>Back from \<^verbatim>\<open>queryAll\<close> to the loop: the first time the ticker is still to be made.\<close>

definition query_all_returns :: "query_all \<Rightarrow> dthread" where
  "query_all_returns qa = (if qa_first qa then DTicker (qa_ctx qa) else DLoop (qa_ctx qa))"

text \<open>\<^verbatim>\<open>d.identity.SetPublicAddr(addr)\<close> for an address the caller has just allocated.\<close>

definition set_public :: "UDPAddr \<Rightarrow> ('x, 'y) discovery \<Rightarrow> ('x, 'y) discovery" where
  "set_public a d =
     d\<lparr>account := client_step (SetAddr (Some (length (objs (cl_store (account d))))))
        (client_step (NewAddr (addr_IP a) (addr_Port a) (addr_Zone a)) (account d))\<rparr>"

section \<open>The goroutines\<close>

text \<open>
  One move under a choice: \<open>None\<close> when the choice is not possible. The parameter
  \<open>resolves\<close> says which addresses the resolver may return for a server name.
\<close>

fun dexec :: "(string \<Rightarrow> UDPAddr \<Rightarrow> bool) \<Rightarrow> choice \<Rightarrow> dthread \<Rightarrow> ('x, 'y) discovery \<Rightarrow>
    (dthread list \<times> ('x, 'y) discovery) go option" where
  "dexec resolves c (DServer qa) d =
     (case qa_rest qa of
        [] \<Rightarrow> Some (Ret ([query_all_returns qa], d))
      | server # rest \<Rightarrow>
          if contexts (net d) ! qa_ctx qa then Some (Ret ([query_all_returns qa], d))
          else case resolved c of
                 None \<Rightarrow> Some (Ret ([DServer (qa\<lparr>qa_rest := rest\<rparr>)], d))
               | Some addr \<Rightarrow>
                   if \<not> resolves server addr then None
                   else case random c of
                          None \<Rightarrow> Some (Ret ([DServer (qa\<lparr>qa_rest := rest\<rparr>)], d))
                        | Some tx \<Rightarrow>
                            if length tx \<noteq> 12 then None
                            else let q = \<lparr>serverAddr = addr, txID = tx, packetChan = length (channels (net d))\<rparr>
                                 in Some (Ret ([DSubscribe (qa\<lparr>qa_rest := rest\<rparr>) q],
                                      (upd_net ((net d)\<lparr>channels := channels (net d) @ [make_chan 1]\<rparr>) d)
                                        \<lparr>queries := queries d @ [q]\<rparr>)))"
| "dexec resolves c (DSubscribe qa q) d =
     (case SubscribeToPacketReceived (Some (stun_callback (serverAddr q) (txID q))) (Some (packetChan q)) (net d) of
        (Inl e, w) \<Rightarrow> Some (Ret ([DServer qa], upd_net w d))
      | (Inr subID, w) \<Rightarrow> Some (Ret ([DSend qa q subID], upd_net w d)))"
| "dexec resolves c (DSend qa q subID) d =
     (case SendPacketTo (network c) (serverAddr q) (binding_request (txID q)) (net d) of
        (Some e, w) \<Rightarrow> Some (Ret ([DUnsubscribe qa subID (Inl (SendFailed e))], upd_net w d))
      | (None, w) \<Rightarrow> Some (Ret ([DWait qa q subID], upd_net w d)))"
| "dexec resolves c (DWait qa q subID) d =
     (case selects c of
        BDone \<Rightarrow>
          if contexts (net d) ! qa_ctx qa then Some (Ret ([DUnsubscribe qa subID (Inl QueryCancelled)], d)) else None
      | BPacket \<Rightarrow>
          (case chan_recv (channels (net d) ! packetChan q) of
             None \<Rightarrow> None
           | Some (packet, ch) \<Rightarrow>
               (case parseSTUNResponse (case packet of None \<Rightarrow> [] | Some p \<Rightarrow> p) (txID q) of
                  Panic x \<Rightarrow> Some (Panic x)
                | Ret r \<Rightarrow>
                    Some (Ret ([DUnsubscribe qa subID (map_sum ParseFailed id r)],
                      upd_net ((net d)\<lparr>channels := (channels (net d))[packetChan q := ch]\<rparr>) d))))
      | BTimer \<Rightarrow> Some (Ret ([DUnsubscribe qa subID (Inl QueryTimeout)], d)))"
| "dexec resolves c (DUnsubscribe qa subID r) d =
     (case UnsubscribeFromPacketReceived subID (net d) of
        (_, w) \<Rightarrow> Some (Ret ([case r of Inl _ \<Rightarrow> DServer qa | Inr addr \<Rightarrow> DFound qa addr], upd_net w d)))"
| "dexec resolves c (DFound qa addr) d = Some (Ret ([query_all_returns qa], set_public addr d))"
| "dexec resolves c (DTicker ctx) d =
     (if interval (disc d) \<le> 0 then Some (Panic NonPositiveTicker) else Some (Ret ([DLoop ctx], d)))"
| "dexec resolves c (DLoop ctx) d =
     (case selects c of
        BDone \<Rightarrow> if contexts (net d) ! ctx then Some (Ret ([DDone], d)) else None
      | BTimer \<Rightarrow> Some (Ret ([DServer \<lparr>qa_ctx = ctx, qa_first = False, qa_rest = servers (disc d)\<rparr>], d))
      | BPacket \<Rightarrow> None)"
| "dexec resolves c DDone d =
     (case wg_Done (disc_wg (disc d)) of
        Panic x \<Rightarrow> Some (Panic x)
      | Ret (final, g) \<Rightarrow> Some (Ret (if final then [DRelease] else [], upd_disc_wg g d)))"
| "dexec resolves c DRelease d =
     (case wg_release (disc_wg (disc d)) of
        Panic x \<Rightarrow> Some (Panic x)
      | Ret g \<Rightarrow> Some (Ret ([], upd_disc_wg g d)))"
| "dexec resolves c DStopWait d =
     (case wg_Wait (disc_wg (disc d)) of
        (idle, g) \<Rightarrow> Some (Ret (if idle then [] else [DStopBlocked], upd_disc_wg g d)))"
| "dexec resolves c DStopBlocked d =
     (case wg_woken (disc_wg (disc d)) of
        None \<Rightarrow> None
      | Some (Panic x) \<Rightarrow> Some (Panic x)
      | Some (Ret g) \<Rightarrow> Some (Ret ([], upd_disc_wg g d)))"

section \<open>The running discoverer\<close>

record ('x, 'y) disc_system =
  dstate :: "('x, 'y) discovery"
  dthreads :: "dthread multiset"
  dcrashed :: "panic option"

fun dstops :: "dthread \<Rightarrow> bool" where
  "dstops DStopWait = True"
| "dstops DStopBlocked = True"
| "dstops _ = False"

text \<open>The channel of a query is local to it: no other subscription is made with it.\<close>

definition keeps_private :: "query list \<Rightarrow> udp_world \<Rightarrow> udp_world \<Rightarrow> bool" where
  "keeps_private qs w w' \<longleftrightarrow>
     (\<forall>sub \<in> set (drop (length (subscribed w)) (subscribed w')). sub_ch sub \<notin> packetChan ` set qs)"

text \<open>
  One move. The listener moves by itself (its goroutines, its other callers, arriving packets); the
  other users of the identity do anything but set the address. With \<open>orderly\<close> set,
  \<^verbatim>\<open>Start\<close> is not called while a call of \<^verbatim>\<open>Stop\<close> is under way.
\<close>

inductive dstep :: "bool \<Rightarrow> (string \<Rightarrow> UDPAddr \<Rightarrow> bool) \<Rightarrow> ('x, 'y) disc_system \<Rightarrow> ('x, 'y) disc_system \<Rightarrow> bool"
  for orderly :: bool and resolves :: "string \<Rightarrow> UDPAddr \<Rightarrow> bool" where
  drun: "dthreads s = add_mset t M \<Longrightarrow> dexec resolves c t (dstate s) = Some (Ret (ts, d')) \<Longrightarrow>
     dstep orderly resolves s (s\<lparr>dstate := d', dthreads := mset ts + M\<rparr>)"
| dcrash: "t \<in># dthreads s \<Longrightarrow> dexec resolves c t (dstate s) = Some (Panic x) \<Longrightarrow>
     dstep orderly resolves s (s\<lparr>dcrashed := Some x\<rparr>)"
| dcall_start: "(orderly \<Longrightarrow> \<not> (\<exists>t \<in># dthreads s. dstops t)) \<Longrightarrow> ctx < length (contexts (net (dstate s))) \<Longrightarrow>
     StartDiscoverer ctx (dstate s) = Ret (err, ts, d') \<Longrightarrow>
     dstep orderly resolves s (s\<lparr>dstate := d', dthreads := mset ts + dthreads s\<rparr>)"
| dstart_crash: "(orderly \<Longrightarrow> \<not> (\<exists>t \<in># dthreads s. dstops t)) \<Longrightarrow> ctx < length (contexts (net (dstate s))) \<Longrightarrow>
     StartDiscoverer ctx (dstate s) = Panic x \<Longrightarrow> dstep orderly resolves s (s\<lparr>dcrashed := Some x\<rparr>)"
| dcall_stop: "StopDiscoverer (dstate s) = (ts, d') \<Longrightarrow>
     dstep orderly resolves s (s\<lparr>dstate := d', dthreads := mset ts + dthreads s\<rparr>)"
| dlistener: "ustep orderly (port (dstate s)) u \<Longrightarrow>
     keeps_private (queries (dstate s)) (net (dstate s)) (world u) \<Longrightarrow>
     dstep orderly resolves s (s\<lparr>dstate := (dstate s)\<lparr>port := u\<rparr>\<rparr>)"
| dclient: "(\<And>a. act \<noteq> SetAddr a) \<Longrightarrow>
     dstep orderly resolves s (s\<lparr>dstate := (dstate s)\<lparr>account := client_step act (account (dstate s))\<rparr>\<rparr>)"

definition dinit :: "(uint16 \<Rightarrow> bool) \<Rightarrow> string list \<Rightarrow> int \<Rightarrow> ('x, 'y) Identity \<Rightarrow> ('x, 'y) disc_system" where
  "dinit taken_ports srvs dur iden =
     \<lparr>dstate = \<lparr>disc = NewDiscoverer srvs dur, port = ustart taken_ports, account = new_client iden, queries = []\<rparr>,
      dthreads = {#}, dcrashed = None\<rparr>"

inductive dreachable ::
  "bool \<Rightarrow> (string \<Rightarrow> UDPAddr \<Rightarrow> bool) \<Rightarrow> string list \<Rightarrow> int \<Rightarrow> ('x, 'y) disc_system \<Rightarrow> bool"
  for orderly :: bool and resolves :: "string \<Rightarrow> UDPAddr \<Rightarrow> bool" and srvs :: "string list" and dur :: int where
  dstarts: "dreachable orderly resolves srvs dur (dinit taken_ports srvs dur iden)"
| dlater: "dreachable orderly resolves srvs dur s \<Longrightarrow> dcrashed s = None \<Longrightarrow> ucrashed (port (dstate s)) = None \<Longrightarrow>
     dstep orderly resolves s s' \<Longrightarrow> dreachable orderly resolves srvs dur s'"

end
