(* ===== verification/UdpSafety.thy ===== *)
theory UdpSafety
  imports UdpListener "HOL-Library.Sublist"
begin

text \<open>
  Safety and termination of the UDP listener under every interleaving: the state invariant, the
  wait group, the origin of every delivered packet, and the end of the read loop after
  \<^verbatim>\<open>StopListener\<close>.
\<close>

section \<open>Frame of a step\<close>

lemma upd_wg_frame [simp]:
  "sockets (upd_wg g w) = sockets w" "contexts (upd_wg g w) = contexts w" "channels (upd_wg g w) = channels w"
  "received (upd_wg g w) = received w" "subscribed (upd_wg g w) = subscribed w"
  "listener (upd_wg g w) = (listener w)\<lparr>udp_wg := g\<rparr>"
  by (simp_all add: upd_wg_def)

lemma ReadFromUDP_Some:
  assumes "ReadFromUDP k w = Some (r, w')"
  shows "\<exists>ss. w' = w\<lparr>sockets := ss\<rparr> \<and> length ss = length (sockets w)
    \<and> (\<forall>j. sock_open (ss ! j) = sock_open (sockets w ! j)) \<and> (r \<noteq> None \<longrightarrow> sock_open (sockets w ! k))"
proof (cases "sock_open (sockets w ! k)")
  case True
  with assms obtain x xs where "sock_in (sockets w ! k) = x # xs"
    "w' = w\<lparr>sockets := (sockets w)[k := (sockets w ! k)\<lparr>sock_in := xs\<rparr>]\<rparr>"
    by (auto simp: ReadFromUDP_def Let_def split: list.splits)
  moreover have "sock_open ((sockets w)[k := (sockets w ! k)\<lparr>sock_in := xs\<rparr>] ! j) = sock_open (sockets w ! j)" for j
    by (cases "k < length (sockets w)"; cases "k = j") (simp_all add: list_update_beyond)
  ultimately show ?thesis using True by auto
next
  case False
  with assms have "w' = w" "r = None" by (simp_all add: ReadFromUDP_def)
  then show ?thesis by (intro exI [of _ "sockets w"]) simp
qed

lemmas uexec_splits = if_splits option.splits prod.splits go.splits

text \<open>What a step may change: the wait group, the input of the sockets, the packets read and the
  contents of the channels.\<close>

definition udp_frame :: "udp_world \<Rightarrow> udp_world \<Rightarrow> bool" where
  "udp_frame w w' \<longleftrightarrow> length (sockets w') = length (sockets w) \<and> contexts w' = contexts w
     \<and> length (channels w') = length (channels w) \<and> subscribed w' = subscribed w
     \<and> (\<exists>g. listener w' = (listener w)\<lparr>udp_wg := g\<rparr>)
     \<and> (\<forall>k. sock_open (sockets w' ! k) = sock_open (sockets w ! k)) \<and> prefix (received w) (received w')"

lemma udp_frame_wg [simp]: "udp_frame w (upd_wg g w)"
  by (auto simp: udp_frame_def)

lemma listener_same: "\<exists>g. listener w = (listener w)\<lparr>udp_wg := g\<rparr>"
  by (rule exI [of _ "udp_wg (listener w)"]) simp

lemma udp_frame_refl [simp]: "udp_frame w w"
  using listener_same by (simp add: udp_frame_def)

lemma uexec_frame:
  assumes "uexec t w = Some (Ret (ts, w'))"
  shows "udp_frame w w'"
proof (cases t)
  case (URead k c)
  then obtain r w1 where r: "ReadFromUDP k w = Some (r, w1)"
    using assms by (auto split: option.splits)
  have "w' = w1 \<or> (\<exists>x. w' = w1\<lparr>received := received w1 @ [x]\<rparr>)"
    using assms URead r by (cases r) (simp, fastforce)
  moreover obtain ss where ss: "w1 = w\<lparr>sockets := ss\<rparr>" "length ss = length (sockets w)"
    "\<forall>j. sock_open (ss ! j) = sock_open (sockets w ! j)" using ReadFromUDP_Some [OF r] by blast
  ultimately consider "w' = w\<lparr>sockets := ss\<rparr>" | x where "w' = w\<lparr>sockets := ss, received := received w @ [x]\<rparr>" by auto
  then show ?thesis by cases (simp_all add: udp_frame_def listener_same ss(2,3))
next
  case (UDeliver sub a d)
  then show ?thesis using assms by (auto simp: udp_frame_def listener_same split: uexec_splits)
qed (use assms in \<open>auto split: uexec_splits\<close>)

section \<open>The state invariant\<close>

text \<open>The threads counted by the wait group: the read loops.\<close>

fun looping :: "uthread \<Rightarrow> bool" where
  "looping (UTop _ _) = True"
| "looping (URead _ _) = True"
| "looping (UCheck _ _) = True"
| "looping (UFan _ _ _ _) = True"
| "looping UDone = True"
| "looping _ = False"

text \<open>The socket and context a read loop works on.\<close>

fun loop_on :: "uthread \<Rightarrow> (nat \<times> nat) option" where
  "loop_on (UStart k c) = Some (k, c)"
| "loop_on (UTop k c) = Some (k, c)"
| "loop_on (URead k c) = Some (k, c)"
| "loop_on (UCheck k c) = Some (k, c)"
| "loop_on (UFan k c _ _) = Some (k, c)"
| "loop_on _ = None"

text \<open>A read loop belongs to the current run of the listener, or its socket is closed and its
  context cancelled.\<close>

definition loop_ok :: "udp_world \<Rightarrow> nat \<times> nat \<Rightarrow> bool" where
  "loop_ok w kc = (case kc of (k, c) \<Rightarrow> k < length (sockets w) \<and> c < length (contexts w)
     \<and> (isListening (listener w) \<and> udp_conn (listener w) = Some k \<and> udp_cancel (listener w) = Some c
        \<or> \<not> sock_open (sockets w ! k) \<and> contexts w ! c))"

definition sub_ok :: "udp_world \<Rightarrow> subscription \<Rightarrow> bool" where
  "sub_ok w sub \<longleftrightarrow> sub_ch sub < length (channels w) \<and> sub \<in> set (subscribed w)"

fun uthread_ok :: "udp_world \<Rightarrow> uthread \<Rightarrow> bool" where
  "uthread_ok w (UFan k c a d) = ((a, d) \<in> set (received w))"
| "uthread_ok w (UDeliver sub a d) = (sub_ok w sub \<and> (a, d) \<in> set (received w))"
| "uthread_ok w _ = True"

text \<open>What a channel holds was read from the socket and wanted by a subscription to the channel.\<close>

definition wanted :: "udp_world \<Rightarrow> nat \<Rightarrow> bytes \<Rightarrow> bool" where
  "wanted w ch d \<longleftrightarrow> (\<exists>sub \<in> set (subscribed w). sub_ch sub = ch \<and> (\<exists>a. (a, d) \<in> set (received w) \<and> sub_callback sub a d))"

definition chans_ok :: "udp_world \<Rightarrow> bool" where
  "chans_ok w \<longleftrightarrow> (\<forall>ch < length (channels w). length (chan_buf (channels w ! ch)) \<le> chan_cap (channels w ! ch)
     \<and> (\<forall>d \<in> set (chan_buf (channels w ! ch)). wanted w ch d))"

definition subs_ok :: "udp_world \<Rightarrow> bool" where
  "subs_ok w \<longleftrightarrow> distinct (map fst (subscriptions (listener w)))
     \<and> (\<forall>(sid, sub) \<in> set (subscriptions (listener w)). sub_ok w sub)"

definition conn_ok :: "udp_world \<Rightarrow> bool" where
  "conn_ok w \<longleftrightarrow> (isListening (listener w) \<longrightarrow>
     (\<exists>k c. udp_conn (listener w) = Some k \<and> udp_cancel (listener w) = Some c \<and> k < length (sockets w) \<and> c < length (contexts w)))"

definition udp_inv :: "udp_system \<Rightarrow> bool" where
  "udp_inv s \<longleftrightarrow> chans_ok (world s) \<and> subs_ok (world s) \<and> conn_ok (world s)
     \<and> (\<forall>t \<in># uthreads s. uthread_ok (world s) t \<and> (\<forall>kc. loop_on t = Some kc \<longrightarrow> loop_ok (world s) kc))
     \<and> wg_agrees (udp_wg (listener (world s))) (size (filter_mset looping (uthreads s)))
         (count (uthreads s) UStopBlocked) (count (uthreads s) URelease)"

section \<open>One step of a thread\<close>

lemma udp_frameD:
  assumes "udp_frame w w'"
  shows "length (sockets w') = length (sockets w)" "contexts w' = contexts w" "length (channels w') = length (channels w)"
    "subscribed w' = subscribed w" "sock_open (sockets w' ! k) = sock_open (sockets w ! k)"
    "prefix (received w) (received w')" "subscriptions (listener w') = subscriptions (listener w)"
    "udp_conn (listener w') = udp_conn (listener w)" "udp_cancel (listener w') = udp_cancel (listener w)"
    "isListening (listener w') = isListening (listener w)"
proof -
  obtain g where g: "listener w' = (listener w)\<lparr>udp_wg := g\<rparr>" using assms unfolding udp_frame_def by blast
  show "subscriptions (listener w') = subscriptions (listener w)"
    "udp_conn (listener w') = udp_conn (listener w)" "udp_cancel (listener w') = udp_cancel (listener w)"
    "isListening (listener w') = isListening (listener w)" by (simp_all add: g)
qed (use assms in \<open>auto simp: udp_frame_def\<close>)

lemma frame_received: "udp_frame w w' \<Longrightarrow> set (received w) \<subseteq> set (received w')"
  using udp_frameD(6) set_mono_prefix by blast

lemma frame_ok:
  assumes "udp_frame w w'"
  shows "loop_ok w' kc = loop_ok w kc" "sub_ok w' sub = sub_ok w sub" "conn_ok w' = conn_ok w" "subs_ok w' = subs_ok w"
    "uthread_ok w t \<Longrightarrow> uthread_ok w' t" "wanted w ch d \<Longrightarrow> wanted w' ch d"
proof -
  show "loop_ok w' kc = loop_ok w kc" by (cases kc) (simp add: loop_ok_def udp_frameD [OF assms])
  show sub: "sub_ok w' sub = sub_ok w sub" for sub by (simp add: sub_ok_def udp_frameD [OF assms])
  show "conn_ok w' = conn_ok w" by (simp add: conn_ok_def udp_frameD [OF assms])
  show "subs_ok w' = subs_ok w" by (simp add: subs_ok_def sub udp_frameD [OF assms])
  show "uthread_ok w t \<Longrightarrow> uthread_ok w' t" using frame_received [OF assms] sub by (cases t) auto
  show "wanted w ch d \<Longrightarrow> wanted w' ch d"
    using frame_received [OF assms] by (auto simp: wanted_def udp_frameD(4) [OF assms])
qed

lemma uexec_loop_on:
  assumes "uexec t w = Some (Ret (ts, w'))" "u \<in> set ts" "loop_on u = Some kc"
  shows "loop_on t = Some kc"
  using assms by (cases t) (auto split: uexec_splits)

lemma uexec_threads_ok:
  assumes "uexec t w = Some (Ret (ts, w'))" "uthread_ok w t" "subs_ok w" "u \<in> set ts"
  shows "uthread_ok w' u"
proof -
  have "uthread_ok w u \<or> (\<exists>k c a d. u = UFan k c a d \<and> (a, d) \<in> set (received w'))"
    using assms by (cases t) (auto simp: subs_ok_def split: uexec_splits)
  then show ?thesis using frame_ok(5) [OF uexec_frame [OF assms(1)]] by auto
qed

lemma uexec_chans:
  assumes "uexec t w = Some (Ret (ts, w'))"
  shows "channels w' = channels w \<or> (\<exists>sub a d b ch. t = UDeliver sub a d \<and> sub_callback sub a d
    \<and> try_send d (channels w ! sub_ch sub) = Ret (b, ch) \<and> channels w' = (channels w)[sub_ch sub := ch])"
proof (cases t)
  case (URead k c)
  then obtain r w1 where r: "ReadFromUDP k w = Some (r, w1)" "channels w' = channels w1"
    using assms by (auto split: option.splits)
  then show ?thesis using ReadFromUDP_Some [OF r(1)] by auto
next
  case (UDeliver sub a d)
  with assms show ?thesis by (auto split: uexec_splits)
qed (use assms in \<open>auto split: uexec_splits\<close>)

lemma uexec_chans_ok:
  assumes ex: "uexec t w = Some (Ret (ts, w'))" and ok: "chans_ok w" "uthread_ok w t"
  shows "chans_ok w'"
proof -
  note frame = uexec_frame [OF ex]
  note keep = frame_ok(6) [OF frame] and len = udp_frameD(3) [OF frame]
  from uexec_chans [OF ex] show ?thesis
  proof (elim disjE exE conjE)
    assume "channels w' = channels w"
    then show ?thesis using ok(1) keep by (simp add: chans_ok_def)
  next
    fix sub a d b ch
    assume t: "t = UDeliver sub a d" and cb: "sub_callback sub a d"
      and send: "try_send d (channels w ! sub_ch sub) = Ret (b, ch)" and upd: "channels w' = (channels w)[sub_ch sub := ch]"
    have sub: "sub_ch sub < length (channels w)" and want: "wanted w (sub_ch sub) d"
      using ok(2) cb by (auto simp: t sub_ok_def wanted_def)
    have old: "length (chan_buf (channels w ! sub_ch sub)) \<le> chan_cap (channels w ! sub_ch sub)"
      "\<forall>e \<in> set (chan_buf (channels w ! sub_ch sub)). wanted w (sub_ch sub) e"
      using ok(1) sub by (auto simp: chans_ok_def)
    have "length (chan_buf ch) \<le> chan_cap ch" by (rule gochan.send_keeps_bound [OF old(1) send])
    moreover have "\<forall>e \<in> set (chan_buf ch). wanted w (sub_ch sub) e"
      using old(2) want gochan.send_taken [of d "channels w ! sub_ch sub" ch] gochan.send_refused [of d "channels w ! sub_ch sub" ch] send
      by (cases b) auto
    ultimately show ?thesis
      using ok(1) keep sub unfolding chans_ok_def upd by (auto simp: nth_list_update)
  qed
qed

lemma looping_map_deliver [simp]:
  "filter looping (map (\<lambda>(sid, sub). UDeliver sub a d) xs) = []"
  "UStopBlocked \<notin> (\<lambda>(sid, sub). UDeliver sub a d) ` X" "URelease \<notin> (\<lambda>(sid, sub). UDeliver sub a d) ` X"
  by (induction xs) auto

lemma uexec_wg:
  assumes "uexec t w = Some (Ret (ts, w'))"
    and wg: "wg_agrees (udp_wg (listener w)) (k + of_bool (looping t)) (b + of_bool (t = UStopBlocked)) (r + of_bool (t = URelease))"
  shows "wg_agrees (udp_wg (listener w')) (k + length (filter looping ts)) (b + count (mset ts) UStopBlocked)
           (r + count (mset ts) URelease)"
proof (cases "t = URelease \<or> t = UStopWait \<or> t = UStopBlocked \<or> t = UDone \<or> (\<exists>k c. t = UStart k c)")
  case True
  with assms show ?thesis
    by (auto split: uexec_splits) (erule (1) wg_agrees_intros)+
next
  case False
  with assms(1) have "udp_wg (listener w') = udp_wg (listener w) \<and> length (filter looping ts) = of_bool (looping t)
      \<and> UStopBlocked \<notin> set ts \<and> URelease \<notin> set ts"
    by (cases t) (auto split: uexec_splits dest!: ReadFromUDP_Some)
  with wg False show ?thesis by (simp add: count_mset_0)
qed

section \<open>Preservation\<close>

lemma udp_inv_wg:
  assumes "udp_inv s" "uthreads s = add_mset t M"
  shows "wg_agrees (udp_wg (listener (world s))) (size (filter_mset looping M) + of_bool (looping t))
    (count M UStopBlocked + of_bool (t = UStopBlocked)) (count M URelease + of_bool (t = URelease))"
  using assms by (auto simp: udp_inv_def)

lemma urun_inv:
  assumes inv: "udp_inv s" and t: "uthreads s = add_mset t M" and ex: "uexec t (world s) = Some (Ret (ts, w'))"
  shows "udp_inv (s\<lparr>world := w', uthreads := mset ts + M\<rparr>)"
proof -
  note frame = uexec_frame [OF ex]
  have ok: "chans_ok (world s)" "subs_ok (world s)" "conn_ok (world s)" "uthread_ok (world s) t"
    using inv t by (simp_all add: udp_inv_def)
  have "uthread_ok w' u \<and> (\<forall>kc. loop_on u = Some kc \<longrightarrow> loop_ok w' kc)" if "u \<in># mset ts + M" for u
  proof (cases "u \<in> set ts")
    case True
    have "\<forall>kc. loop_on t = Some kc \<longrightarrow> loop_ok (world s) kc" using inv t by (simp add: udp_inv_def)
    then show ?thesis
      using uexec_threads_ok [OF ex ok(4,2) True] uexec_loop_on [OF ex True] frame_ok(1) [OF frame] by auto
  next
    case False
    with that have "u \<in># uthreads s" using t by simp
    then show ?thesis using inv frame_ok(1,5) [OF frame] by (auto simp: udp_inv_def)
  qed
  moreover have "wg_agrees (udp_wg (listener w')) (size (filter_mset looping (mset ts + M)))
      (count (mset ts + M) UStopBlocked) (count (mset ts + M) URelease)"
    using uexec_wg [OF ex udp_inv_wg [OF inv t]] by (simp add: filter_mset_mset add.commute)
  ultimately show ?thesis
    using ok frame_ok(3,4) [OF frame] uexec_chans_ok [OF ex ok(1,4)] by (simp add: udp_inv_def)
qed

text \<open>A call that changes the world and adds a thread which the wait group does not count.\<close>

lemma udp_inv_call:
  assumes "udp_inv s" "chans_ok w'" "subs_ok w'" "conn_ok w'"
    and "\<And>t. t \<in># uthreads s \<Longrightarrow> uthread_ok (world s) t \<Longrightarrow> uthread_ok w' t"
    and "\<And>kc. loop_ok (world s) kc \<Longrightarrow> loop_ok w' kc"
    and "udp_wg (listener w') = udp_wg (listener (world s))"
    and "\<And>t. t \<in> set ts \<Longrightarrow> t = UStopWait \<or> (\<exists>k c. t = UStart k c \<and> loop_ok w' (k, c))"
  shows "udp_inv (s\<lparr>world := w', uthreads := mset ts + uthreads s\<rparr>)"
proof -
  have new: "uthread_ok w' t \<and> (\<forall>kc. loop_on t = Some kc \<longrightarrow> loop_ok w' kc) \<and> \<not> looping t \<and> t \<noteq> UStopBlocked \<and> t \<noteq> URelease"
    if "t \<in> set ts" for t
    using assms(8) [OF that] by auto
  then have "filter looping ts = []" "count (mset ts) UStopBlocked = 0" "count (mset ts) URelease = 0"
    by (auto simp: filter_empty_conv)
  then have "wg_agrees (udp_wg (listener w')) (size (filter_mset looping (mset ts + uthreads s)))
      (count (mset ts + uthreads s) UStopBlocked) (count (mset ts + uthreads s) URelease)"
    using assms(1,7) by (simp only: udp_inv_def filter_union_mset size_union filter_mset_mset count_union) simp
  then show ?thesis using assms(1-6) new by (auto simp: udp_inv_def)
qed

lemma wanted_mono:
  "wanted w ch d \<Longrightarrow> set (subscribed w) \<subseteq> set (subscribed w') \<Longrightarrow> received w' = received w \<Longrightarrow> wanted w' ch d"
  by (auto simp: wanted_def)

lemma StartListener_cases:
  assumes "StartListener ctx port w = (err, ts, w')"
  shows "ts = [] \<and> w' = w \<or> \<not> isListening (listener w) \<and> ts = [UStart (length (sockets w)) (length (contexts w))]
    \<and> w' = w\<lparr>sockets := sockets w @ [\<lparr>sock_port = port, sock_open = True, sock_in = []\<rparr>],
              contexts := contexts w @ [contexts w ! ctx],
              listener := (listener w)\<lparr>udp_conn := Some (length (sockets w)), isListening := True,
                udp_cancel := Some (length (contexts w))\<rparr>\<rparr>"
  using assms by (auto simp: StartListener_def ListenUDP_def Let_def split: if_splits option.splits)

lemma start_inv:
  assumes inv: "udp_inv s" and st: "StartListener ctx port (world s) = (err, ts, w')"
  shows "udp_inv (s\<lparr>world := w', uthreads := mset ts + uthreads s\<rparr>)"
proof (cases "ts = [] \<and> w' = world s")
  case True
  then show ?thesis using inv by (simp add: udp_inv_def)
next
  case False
  let ?w = "world s"
  have new: "\<not> isListening (listener ?w)" "ts = [UStart (length (sockets ?w)) (length (contexts ?w))]"
    "w' = ?w\<lparr>sockets := sockets ?w @ [\<lparr>sock_port = port, sock_open = True, sock_in = []\<rparr>],
              contexts := contexts ?w @ [contexts ?w ! ctx],
              listener := (listener ?w)\<lparr>udp_conn := Some (length (sockets ?w)), isListening := True,
                udp_cancel := Some (length (contexts ?w))\<rparr>\<rparr>"
    using StartListener_cases [OF st] False by blast+
  have wanted: "wanted w' ch d = wanted ?w ch d" for ch d by (simp add: new(3) wanted_def)
  have sub: "sub_ok w' sub = sub_ok ?w sub" for sub by (simp add: new(3) sub_ok_def)
  have "chans_ok w'" using inv unfolding udp_inv_def chans_ok_def wanted by (simp add: new(3))
  moreover have "subs_ok w'" using inv unfolding udp_inv_def subs_ok_def sub by (simp add: new(3))
  moreover have "conn_ok w'" by (simp add: new(3) conn_ok_def)
  moreover have "uthread_ok w' t = uthread_ok ?w t" for t by (cases t) (simp_all add: sub_ok_def new(3))
  moreover have "loop_ok ?w kc \<Longrightarrow> loop_ok w' kc" for kc
    using new(1) by (cases kc) (auto simp: loop_ok_def new(3) nth_append)
  ultimately show ?thesis
    by (intro udp_inv_call [OF inv]) (auto simp: new(2) loop_ok_def new(3))
qed

lemma stop_inv:
  assumes inv: "udp_inv s" and st: "StopListener (world s) = (ts, w')"
  shows "udp_inv (s\<lparr>world := w', uthreads := mset ts + uthreads s\<rparr>)"
proof (cases "isListening (listener (world s))")
  case False
  then show ?thesis using st inv by (simp add: StopListener_def udp_inv_def)
next
  case True
  let ?w = "world s"
  obtain k c where kc: "udp_conn (listener ?w) = Some k" "udp_cancel (listener ?w) = Some c"
    "k < length (sockets ?w)" "c < length (contexts ?w)"
    using inv True by (auto simp: udp_inv_def conn_ok_def)
  have new: "ts = [UStopWait]" "w' = ?w\<lparr>listener := (listener ?w)\<lparr>isListening := False\<rparr>,
      sockets := (sockets ?w)[k := (sockets ?w ! k)\<lparr>sock_open := False\<rparr>], contexts := (contexts ?w)[c := True]\<rparr>"
    using st True kc by (auto simp: StopListener_def Let_def close_socket_def cancel_context_def)
  have wanted: "wanted w' ch d = wanted ?w ch d" for ch d by (simp add: new(2) wanted_def)
  have sub: "sub_ok w' sub = sub_ok ?w sub" for sub by (simp add: new(2) sub_ok_def)
  have "chans_ok w'" using inv unfolding udp_inv_def chans_ok_def wanted by (simp add: new(2))
  moreover have "subs_ok w'" using inv unfolding udp_inv_def subs_ok_def sub by (simp add: new(2))
  moreover have "conn_ok w'" by (simp add: new(2) conn_ok_def)
  moreover have "uthread_ok w' t = uthread_ok ?w t" for t by (cases t) (simp_all add: sub_ok_def new(2))
  moreover have "loop_ok ?w q \<Longrightarrow> loop_ok w' q" for q
    using kc by (cases q) (auto simp: loop_ok_def new(2) nth_list_update)
  ultimately show ?thesis by (intro udp_inv_call [OF inv]) (auto simp: new)
qed

lemma udp_inv_world:
  assumes "udp_inv s" "chans_ok w'" "subs_ok w'" "conn_ok w'"
    and "\<And>t. uthread_ok (world s) t \<Longrightarrow> uthread_ok w' t" "\<And>kc. loop_ok (world s) kc \<Longrightarrow> loop_ok w' kc"
    and "udp_wg (listener w') = udp_wg (listener (world s))"
  shows "udp_inv (s\<lparr>world := w'\<rparr>)"
  using udp_inv_call [OF assms(1-4), of "[]"] assms(5-7) by simp

lemma same_ok:
  assumes "listener w' = listener w" "length (sockets w') = length (sockets w)"
    "\<And>k. sock_open (sockets w' ! k) = sock_open (sockets w ! k)" "length (contexts w) \<le> length (contexts w')"
    "\<And>c. c < length (contexts w) \<Longrightarrow> contexts w ! c \<Longrightarrow> contexts w' ! c"
    "length (channels w) \<le> length (channels w')" "subscribed w' = subscribed w" "received w' = received w"
  shows "subs_ok w \<Longrightarrow> subs_ok w'" "conn_ok w \<Longrightarrow> conn_ok w'" "uthread_ok w t \<Longrightarrow> uthread_ok w' t"
    "loop_ok w kc \<Longrightarrow> loop_ok w' kc" "wanted w' ch d = wanted w ch d"
proof -
  have sub: "sub_ok w sub \<Longrightarrow> sub_ok w' sub" for sub using assms(6,7) by (simp add: sub_ok_def)
  show "subs_ok w \<Longrightarrow> subs_ok w'" using sub by (fastforce simp: subs_ok_def assms(1))
  show "conn_ok w \<Longrightarrow> conn_ok w'" using assms(2,4) by (fastforce simp: conn_ok_def assms(1))
  show "uthread_ok w t \<Longrightarrow> uthread_ok w' t" using sub by (cases t) (simp_all add: assms(8))
  show "loop_ok w kc \<Longrightarrow> loop_ok w' kc" using assms(2-5) by (cases kc) (auto simp: loop_ok_def assms(1))
  show "wanted w' ch d = wanted w ch d" by (simp add: wanted_def assms(7,8))
qed

lemma subscribe_inv:
  assumes inv: "udp_inv s" and ch: "ch < length (channels (world s))"
    and sub: "SubscribeToPacketReceived (Some f) (Some ch) (world s) = (r, w')"
  shows "udp_inv (s\<lparr>world := w'\<rparr>)"
proof -
  let ?w = "world s" and ?sub = "\<lparr>sub_callback = f, sub_ch = ch\<rparr>"
  have w': "w' = ?w\<lparr>listener := (listener ?w)\<lparr>nextSubID := nextSubID (listener ?w) + 1,
      subscriptions := AList.update (nextSubID (listener ?w) + 1) ?sub (subscriptions (listener ?w))\<rparr>,
      subscribed := subscribed ?w @ [?sub]\<rparr>"
    using sub by (simp add: SubscribeToPacketReceived_def Let_def)
  have old: "sub_ok ?w x \<Longrightarrow> sub_ok w' x" for x by (simp add: w' sub_ok_def)
  have "sub_ok w' ?sub" using ch by (simp add: w' sub_ok_def)
  moreover have "set (AList.update k x ys) \<subseteq> insert (k, x) (set ys)" for k :: uint32 and x :: subscription and ys
    by (induction ys) auto
  ultimately have "subs_ok w'"
    using inv old unfolding udp_inv_def subs_ok_def by (auto simp: w' distinct_update) blast
  moreover have "wanted ?w c d \<Longrightarrow> wanted w' c d" for c d by (erule wanted_mono) (auto simp: w')
  then have "chans_ok w'" using inv unfolding udp_inv_def chans_ok_def by (simp add: w')
  moreover have "uthread_ok ?w t \<Longrightarrow> uthread_ok w' t" for t using old by (cases t) (auto simp: w')
  ultimately show ?thesis
    using inv by (intro udp_inv_world [OF inv]) (auto simp: w' conn_ok_def loop_ok_def udp_inv_def)
qed

lemma unsubscribe_inv:
  assumes inv: "udp_inv s" and un: "UnsubscribeFromPacketReceived sid (world s) = (err, w')"
  shows "udp_inv (s\<lparr>world := w'\<rparr>)"
proof (cases "w' = world s")
  case False
  let ?w = "world s"
  have w': "w' = ?w\<lparr>listener := (listener ?w)\<lparr>subscriptions := AList.delete sid (subscriptions (listener ?w))\<rparr>\<rparr>"
    using un False by (auto simp: UnsubscribeFromPacketReceived_def split: if_splits)
  have sub: "sub_ok w' x = sub_ok ?w x" for x by (simp add: w' sub_ok_def)
  have "subs_ok w'"
    using inv unfolding udp_inv_def subs_ok_def sub by (auto simp: w' AList.delete_eq intro: distinct_map_filter)
  moreover have "wanted w' c d = wanted ?w c d" for c d by (simp add: wanted_def w')
  then have "chans_ok w'" using inv unfolding udp_inv_def chans_ok_def by (simp add: w')
  moreover have "uthread_ok w' t = uthread_ok ?w t" for t using sub by (cases t) (auto simp: w' sub_ok_def)
  ultimately show ?thesis
    using inv by (intro udp_inv_world [OF inv]) (auto simp: w' conn_ok_def loop_ok_def udp_inv_def)
qed (use inv in \<open>simp add: udp_inv_def\<close>)

lemma chan_step_inv:
  assumes inv: "udp_inv s" and ch: "ch < length (channels (world s))"
    and new: "length (chan_buf c') \<le> chan_cap c'" "set (chan_buf c') \<subseteq> set (chan_buf (channels (world s) ! ch))"
  shows "udp_inv (s\<lparr>world := (world s)\<lparr>channels := (channels (world s))[ch := c']\<rparr>\<rparr>)"
proof -
  let ?w' = "(world s)\<lparr>channels := (channels (world s))[ch := c']\<rparr>"
  have same: "subs_ok (world s) \<Longrightarrow> subs_ok ?w'" "conn_ok (world s) \<Longrightarrow> conn_ok ?w'" "uthread_ok (world s) t \<Longrightarrow> uthread_ok ?w' t"
    "loop_ok (world s) kc \<Longrightarrow> loop_ok ?w' kc" "wanted ?w' c d = wanted (world s) c d" for t kc c d
    by (rule same_ok [where w = "world s"]; simp)+
  have ok: "chans_ok (world s)" "subs_ok (world s)" "conn_ok (world s)" using inv by (simp_all add: udp_inv_def)
  have "chans_ok ?w'" using ok(1) new ch unfolding chans_ok_def same(5) by (auto simp: nth_update_if)
  then show ?thesis using same ok by (intro udp_inv_world [OF inv]) auto
qed

lemma env_inv:
  assumes inv: "udp_inv s" and "listener w' = listener (world s)" "length (sockets w') = length (sockets (world s))"
    "\<And>k. sock_open (sockets w' ! k) = sock_open (sockets (world s) ! k)"
    "length (contexts (world s)) \<le> length (contexts w')"
    "\<And>c. c < length (contexts (world s)) \<Longrightarrow> contexts (world s) ! c \<Longrightarrow> contexts w' ! c"
    "\<exists>n. channels w' = channels (world s) @ map make_chan n" "subscribed w' = subscribed (world s)"
    "received w' = received (world s)"
  shows "udp_inv (s\<lparr>world := w'\<rparr>)"
proof -
  from assms(7) obtain n where n: "channels w' = channels (world s) @ map make_chan n" ..
  have same: "subs_ok (world s) \<Longrightarrow> subs_ok w'" "conn_ok (world s) \<Longrightarrow> conn_ok w'" "uthread_ok (world s) t \<Longrightarrow> uthread_ok w' t"
    "loop_ok (world s) kc \<Longrightarrow> loop_ok w' kc" "wanted w' c d = wanted (world s) c d" for t kc c d
    by (rule same_ok [where w = "world s"]; use assms n in simp)+
  have ok: "chans_ok (world s)" "subs_ok (world s)" "conn_ok (world s)" using inv by (simp_all add: udp_inv_def)
  have "chans_ok w'"
    using ok(1) unfolding chans_ok_def same(5) by (auto simp: n nth_append make_chan_def)
  then show ?thesis using same ok assms(2) by (intro udp_inv_world [OF inv]) auto
qed

lemma ustep_inv: "ustep orderly s s' \<Longrightarrow> udp_inv s \<Longrightarrow> udp_inv s'"
proof (induction rule: ustep.induct)
  case (urun s t M ts w')
  then show ?case by (simp add: urun_inv)
next
  case (ucrash t s x)
  then show ?case by (simp add: udp_inv_def)
next
  case (ucall_start s ctx port err ts w')
  then show ?case by (simp add: start_inv)
next
  case (ucall_stop s ts w')
  then show ?case by (simp add: stop_inv)
next
  case (ucall_send sends a d s err w')
  then show ?case
    by (intro env_inv) (auto simp: SendPacketTo_def intro: exI [of _ "[]"] split: option.splits if_splits)
next
  case (ucall_subscribe ch s f r w')
  then show ?case by (simp add: subscribe_inv)
next
  case (ucall_unsubscribe sid s err w')
  then show ?case by (simp add: unsubscribe_inv)
next
  case (unew_channel n s)
  then show ?case by (intro env_inv) (auto intro: exI [of _ "[n]"])
next
  case (uchan_recv ch s r c')
  have "length (chan_buf (channels (world s) ! ch)) \<le> chan_cap (channels (world s) ! ch)"
    using uchan_recv by (simp add: udp_inv_def chans_ok_def)
  then have "length (chan_buf c') \<le> chan_cap c'" by (rule gochan.recv_keeps_bound) (rule uchan_recv.hyps(2))
  moreover have "set (chan_buf c') \<subseteq> set (chan_buf (channels (world s) ! ch))"
    using uchan_recv.hyps(2) by (auto simp: chan_recv_def split: list.splits if_splits)
  ultimately show ?case using uchan_recv by (intro chan_step_inv)
next
  case (uchan_close ch s c')
  then show ?case
    by (intro chan_step_inv) (auto simp: close_chan_def udp_inv_def chans_ok_def split: if_splits)
next
  case (unew_context s)
  then show ?case by (intro env_inv) (auto simp: nth_append intro: exI [of _ "[]"])
next
  case (ucancel s c)
  then show ?case by (intro env_inv) (auto simp: cancel_context_def nth_update_if intro: exI [of _ "[]"])
next
  case (upacket k s x)
  then show ?case by (intro env_inv) (auto simp: nth_list_update intro: exI [of _ "[]"])
qed

lemma ureachable_inv: "ureachable orderly s \<Longrightarrow> udp_inv s"
proof (induction rule: ureachable.induct)
  case (uinit taken_ports)
  show ?case by (simp add: ustart_def NewUDPListener_def udp_inv_def chans_ok_def subs_ok_def conn_ok_def)
next
  case (ulater s s')
  then show ?case by (blast intro: ustep_inv)
qed

end
