(* ===== verification/UdpProps.thy ===== *)
theory UdpProps
  imports UdpSafety
begin

text \<open>
  The properties of the UDP listener, over every reachable state: panics, the origin of delivered
  packets, the subscription table and the end of a stopped listener.
\<close>

section \<open>Panics\<close>

definition urest :: "bool \<Rightarrow> udp_system \<Rightarrow> bool" where
  "urest orderly s \<longleftrightarrow>
     (orderly \<longrightarrow> \<not> ((\<exists>t \<in># uthreads s. starts t) \<and> (\<exists>t \<in># uthreads s. stops t))
        \<and> list_all (\<lambda>ch. \<not> chan_closed ch) (channels (world s))
        \<and> (wg_sema (udp_wg (listener (world s))) \<noteq> 0 \<longrightarrow>
             wg_count (udp_wg (listener (world s))) = 0 \<and> wg_waiters (udp_wg (listener (world s))) = 0))
     \<and> (ucrashed s = None \<or> (ucrashed s = Some ClosedChannel \<or> ucrashed s = Some WaitGroupMisuse) \<and> orderly = False)"

lemma uexec_starts_stops:
  assumes "uexec t w = Some (Ret (ts, w'))" "u \<in> set ts"
  shows "\<not> starts u" "stops u \<Longrightarrow> stops t"
  using assms by (cases t; auto split: uexec_splits)+

lemma uexec_rest:
  assumes "uexec t w = Some (Ret (ts, w'))" "\<not> starts t" "wg_sema (udp_wg (listener w')) \<noteq> 0"
    and "wg_sema (udp_wg (listener w)) \<noteq> 0 \<Longrightarrow>
      wg_count (udp_wg (listener w)) = 0 \<and> wg_waiters (udp_wg (listener w)) = 0"
  shows "wg_count (udp_wg (listener w')) = 0 \<and> wg_waiters (udp_wg (listener w')) = 0"
proof (cases t)
  case (URead k c)
  with assms have "udp_wg (listener w') = udp_wg (listener w)"
    by (auto split: uexec_splits dest!: ReadFromUDP_Some)
  with assms(3,4) show ?thesis by simp
qed (use assms in \<open>auto simp: wg_Done_def wg_release_def wg_Wait_def wg_woken_def split: uexec_splits\<close>)

lemma try_send_keeps: "try_send x ch = Ret (b, ch') \<Longrightarrow> chan_closed ch' = chan_closed ch"
  by (auto simp: try_send_def split: if_splits)

lemma uexec_open:
  assumes "uexec t w = Some (Ret (ts, w'))" "list_all (\<lambda>ch. \<not> chan_closed ch) (channels w)" "uthread_ok w t"
  shows "list_all (\<lambda>ch. \<not> chan_closed ch) (channels w')"
  using uexec_chans [OF assms(1)] assms(2,3)
  by (auto simp: list_all_length nth_update_if sub_ok_def split: if_splits dest!: try_send_keeps)

lemma stops_zero: "udp_inv s \<Longrightarrow> \<not> (\<exists>t \<in># uthreads s. stops t) \<Longrightarrow>
   wg_sema (udp_wg (listener (world s))) = 0 \<and> wg_waiters (udp_wg (listener (world s))) = 0"
proof -
  assume "udp_inv s" "\<not> (\<exists>t \<in># uthreads s. stops t)"
  then have "count (uthreads s) UStopBlocked = 0" by (auto simp: count_eq_zero_iff)
  with \<open>udp_inv s\<close> show ?thesis by (simp add: udp_inv_def wg_agrees_def)
qed

lemma urun_rest:
  assumes inv: "udp_inv s" "urest orderly s" and t: "uthreads s = add_mset t M"
    and ex: "uexec t (world s) = Some (Ret (ts, w'))"
  shows "urest orderly (s\<lparr>world := w', uthreads := mset ts + M\<rparr>)"
proof -
  have "wg_sema (udp_wg (listener w')) = 0" if "orderly" "starts t"
  proof -
    have "\<not> (\<exists>u \<in># uthreads s. stops u)" using inv(2) t that by (auto simp: urest_def)
    from stops_zero [OF inv(1) this] ex that(2) show ?thesis
      by (cases t) (auto simp: wg_Add_def split: go.splits if_splits)
  qed
  moreover have "wg_count (udp_wg (listener w')) = 0 \<and> wg_waiters (udp_wg (listener w')) = 0"
    if "orderly" "\<not> starts t" "wg_sema (udp_wg (listener w')) \<noteq> 0"
    by (rule uexec_rest [OF ex that(2,3)]) (use inv(2) that(1) in \<open>auto simp: urest_def\<close>)
  ultimately have wg: "orderly \<longrightarrow> wg_sema (udp_wg (listener w')) \<noteq> 0 \<longrightarrow>
      wg_count (udp_wg (listener w')) = 0 \<and> wg_waiters (udp_wg (listener w')) = 0"
    by (cases "starts t") simp_all
  have "uthread_ok (world s) t" using inv(1) t by (simp add: udp_inv_def)
  with inv(2) t uexec_starts_stops [OF ex] uexec_open [OF ex]
  have "orderly \<longrightarrow> \<not> ((\<exists>u \<in># mset ts + M. starts u) \<and> (\<exists>u \<in># mset ts + M. stops u))
      \<and> list_all (\<lambda>ch. \<not> chan_closed ch) (channels w')"
    unfolding urest_def by auto
  with wg inv(2) show ?thesis unfolding urest_def by simp
qed

lemma uexec_panic:
  assumes inv: "udp_inv s" and rest: "urest orderly s" and t: "uthreads s = add_mset t M"
    and ex: "uexec t (world s) = Some (Panic x)"
  shows "(x = ClosedChannel \<or> x = WaitGroupMisuse) \<and> \<not> orderly"
proof -
  note wg = udp_inv_wg [OF inv t]
  have ok: "uthread_ok (world s) t" using inv t by (simp add: udp_inv_def)
  show ?thesis
  proof (cases t)
    case (UStart k c)
    have "\<not> orderly"
    proof
      assume orderly
      then have "\<not> (\<exists>u \<in># uthreads s. stops u)" using rest t UStart by (auto simp: urest_def)
      from stops_zero [OF inv this] ex UStart show False by (auto simp: wg_Add_def split: go.splits if_splits)
    qed
    with ex UStart show ?thesis by (auto simp: wg_Add_def split: go.splits if_splits)
  next
    case (UDeliver sub a d)
    then show ?thesis
      using ex rest ok by (auto simp: try_send_def urest_def list_all_length sub_ok_def split: go.splits if_splits)
  next
    case UDone
    then show ?thesis using ex wg by (auto dest: wg_Done_counted split: go.splits prod.splits)
  next
    case URelease
    then show ?thesis using ex wg by (auto dest: wg_release_due split: go.splits)
  next
    case UStopBlocked
    then show ?thesis
      using ex rest by (auto simp: wg_woken_def urest_def split: if_splits)
  qed (use ex in \<open>auto split: uexec_splits\<close>)
qed

lemma ustep_rest: "ustep orderly s s' \<Longrightarrow> udp_inv s \<Longrightarrow> urest orderly s \<Longrightarrow> urest orderly s'"
proof (induction rule: ustep.induct)
  case (urun s t M ts w')
  then show ?case by (simp add: urun_rest)
next
  case (ucrash t s x)
  then obtain M where "uthreads s = add_mset t M" by (blast dest: multi_member_split)
  from uexec_panic [OF ucrash.prems this ucrash.hyps(2)] ucrash.prems(2) show ?case by (auto simp: urest_def)
next
  case (ucall_start s ctx port err ts w')
  from StartListener_cases [OF ucall_start.hyps(3)] ucall_start.hyps(1) ucall_start.prems(2)
  show ?case by (auto simp: urest_def)
next
  case (ucall_stop s ts w')
  then show ?case
    by (auto simp: urest_def StopListener_def Let_def close_socket_def cancel_context_def split: if_splits option.splits)
next
  case (uchan_recv ch s r c')
  then show ?case by (auto simp: urest_def list_all_length nth_update_if dest: chan_recv_keeps)
qed (auto simp: urest_def SendPacketTo_def SubscribeToPacketReceived_def UnsubscribeFromPacketReceived_def Let_def
    make_chan_def cancel_context_def split: option.splits if_splits)

lemma ureachable_rest: "ureachable orderly s \<Longrightarrow> urest orderly s"
proof (induction rule: ureachable.induct)
  case (uinit taken_ports)
  show ?case by (simp add: ustart_def NewUDPListener_def urest_def new_wg_def)
next
  case (ulater s s')
  then show ?case by (blast intro: ustep_rest ureachable_inv)
qed

section \<open>The end of a stopped listener\<close>

lemma uexec_blocked:
  assumes "uexec t w = None"
  shows "(\<exists>k c. t = URead k c \<and> sock_open (sockets w ! k)) \<or> t = UStopBlocked \<and> wg_woken (udp_wg (listener w)) = None"
  using assms by (cases t) (auto simp: ReadFromUDP_def Let_def split: uexec_splits list.splits)

lemma uprogress:
  assumes inv: "udp_inv s" and stopped: "\<not> isListening (listener (world s))" and left: "uthreads s \<noteq> {#}"
  shows "\<exists>t \<in># uthreads s. uexec t (world s) \<noteq> None"
proof (rule ccontr)
  assume "\<not> ?thesis"
  then have "uexec t (world s) = None" if "t \<in># uthreads s" for t using that by blast
  note kinds = uexec_blocked [OF this]
  have all: "t = UStopBlocked" "wg_woken (udp_wg (listener (world s))) = None" if t: "t \<in># uthreads s" for t
  proof -
    have "t \<noteq> URead k c" if "sock_open (sockets (world s) ! k)" for k c
      using inv t stopped that by (auto simp: udp_inv_def loop_ok_def)
    with kinds [OF t] show "t = UStopBlocked" "wg_woken (udp_wg (listener (world s))) = None" by auto
  qed
  have "wg_agrees (udp_wg (listener (world s))) (size (filter_mset looping (uthreads s)))
      (count (uthreads s) UStopBlocked) (count (uthreads s) URelease)" using inv by (simp add: udp_inv_def)
  from wg_no_deadlock [OF this left] all show False by auto
qed

text \<open>The moves a goroutine has left once the listener is stopped, at most; \<open>n\<close> is the number of
  subscriptions.\<close>

fun uweight :: "nat \<Rightarrow> uthread \<Rightarrow> nat" where
  "uweight n (UStart _ _) = 4"
| "uweight n (UTop _ _) = 3"
| "uweight n (URead _ _) = 4"
| "uweight n (UCheck _ _) = 3"
| "uweight n (UFan _ _ _ _) = n + 4"
| "uweight n (UDeliver _ _ _) = 1"
| "uweight n UDone = 2"
| "uweight n URelease = 1"
| "uweight n UStopWait = 2"
| "uweight n UStopBlocked = 1"

definition stop_bound :: "udp_system \<Rightarrow> nat" where
  "stop_bound s = (\<Sum>t\<in>#uthreads s. uweight (length (subscriptions (listener (world s)))) t)"

lemma uweight_fan: "sum_list (map (\<lambda>x. uweight n (case x of (sid, sub) \<Rightarrow> UDeliver sub a d)) xs) = length xs"
  by (induction xs) auto

lemma uexec_weight:
  assumes "uexec t w = Some (Ret (ts, w'))" "\<not> isListening (listener w)"
    and "\<And>kc. loop_on t = Some kc \<Longrightarrow> loop_ok w kc"
  shows "sum_list (map (uweight (length (subscriptions (listener w)))) ts) < uweight (length (subscriptions (listener w))) t"
  using assms
  by (cases t) (auto simp: loop_ok_def ReadFromUDP_def uweight_fan o_def split: uexec_splits)

text \<open>\<open>uschedule s n s'\<close>: \<open>n\<close> moves of goroutines, in any order, lead from \<open>s\<close>
  to \<open>s'\<close>.\<close>

inductive uschedule :: "udp_system \<Rightarrow> nat \<Rightarrow> udp_system \<Rightarrow> bool" for s where
  uschedule_0: "uschedule s 0 s"
| uschedule_Suc: "uschedule s n s' \<Longrightarrow> uthreads s' = add_mset t M \<Longrightarrow> uexec t (world s') = Some (Ret (ts, w')) \<Longrightarrow>
     uschedule s (Suc n) (s'\<lparr>world := w', uthreads := mset ts + M\<rparr>)"

lemma urun_bound:
  assumes "udp_inv s" "\<not> isListening (listener (world s))" "uthreads s = add_mset t M"
    "uexec t (world s) = Some (Ret (ts, w'))"
  shows "stop_bound (s\<lparr>world := w', uthreads := mset ts + M\<rparr>) < stop_bound s"
proof -
  have "loop_ok (world s) kc" if "loop_on t = Some kc" for kc
    using assms(1,3) that by (cases kc) (simp add: udp_inv_def)
  from uexec_weight [OF assms(4,2) this] show ?thesis
    using udp_frameD(7) [OF uexec_frame [OF assms(4)]]
    by (simp add: stop_bound_def assms(3) sum_mset_sum_list flip: mset_map)
qed

lemma uschedule_keeps:
  assumes "uschedule s n s'" "ureachable orderly s" "ucrashed s = None" "\<not> isListening (listener (world s))"
  shows "ureachable orderly s' \<and> ucrashed s' = None \<and> \<not> isListening (listener (world s')) \<and> n + stop_bound s' \<le> stop_bound s"
  using assms
proof (induction rule: uschedule.induct)
  case (uschedule_Suc n s' t M ts w')
  then have IH: "ureachable orderly s'" "ucrashed s' = None" "\<not> isListening (listener (world s'))"
    "n + stop_bound s' \<le> stop_bound s" by simp_all
  have "ustep orderly s' (s'\<lparr>world := w', uthreads := mset ts + M\<rparr>)" by (rule ustep.urun) fact+
  then show ?case
    using IH ureachable.ulater [OF IH(1,2)] urun_bound [OF ureachable_inv [OF IH(1)] IH(3) uschedule_Suc.hyps(2,3)]
      udp_frameD(10) [OF uexec_frame [OF uschedule_Suc.hyps(3)]] by simp
qed simp

section \<open>A driver for concrete runs\<close>

type_synonym uconfig = "udp_world \<times> uthread list"

datatype umove =
    UGo nat
  | NewContext
  | NewChannel nat
  | CloseChannel nat
  | CallStart nat uint16
  | CallStop
  | Subscribe "UDPAddr \<Rightarrow> bytes \<Rightarrow> bool" nat
  | Arrives nat UDPAddr bytes

fun umove1 :: "bool \<Rightarrow> umove \<Rightarrow> uconfig \<Rightarrow> uconfig option" where
  "umove1 orderly (UGo i) (w, ts) =
     (if i < length ts
      then case uexec (ts ! i) w of
             Some (Ret (us, w')) \<Rightarrow> Some (w', take i ts @ us @ drop (Suc i) ts)
           | _ \<Rightarrow> None
      else None)"
| "umove1 orderly NewContext (w, ts) = Some (w\<lparr>contexts := contexts w @ [False]\<rparr>, ts)"
| "umove1 orderly (NewChannel n) (w, ts) =
     (if n = 0 then None else Some (w\<lparr>channels := channels w @ [make_chan n]\<rparr>, ts))"
| "umove1 orderly (CloseChannel ch) (w, ts) =
     (if orderly \<or> \<not> ch < length (channels w) then None
      else case close_chan (channels w ! ch) of
             Panic x \<Rightarrow> None
           | Ret c' \<Rightarrow> Some (w\<lparr>channels := (channels w)[ch := c']\<rparr>, ts))"
| "umove1 orderly (CallStart ctx port) (w, ts) =
     (if orderly \<and> list_ex stops ts \<or> \<not> ctx < length (contexts w) then None
      else case StartListener ctx port w of (err, us, w') \<Rightarrow> Some (w', ts @ us))"
| "umove1 orderly CallStop (w, ts) =
     (if orderly \<and> list_ex starts ts then None
      else case StopListener w of (us, w') \<Rightarrow> Some (w', ts @ us))"
| "umove1 orderly (Subscribe f ch) (w, ts) =
     (if \<not> ch < length (channels w) then None
      else case SubscribeToPacketReceived (Some f) (Some ch) w of (r, w') \<Rightarrow> Some (w', ts))"
| "umove1 orderly (Arrives k a d) (w, ts) =
     (if \<not> k < length (sockets w) then None
      else Some (w\<lparr>sockets := (sockets w)[k := (sockets w ! k)\<lparr>sock_in := sock_in (sockets w ! k) @ [Some (a, d)]\<rparr>]\<rparr>, ts))"

fun udrive :: "bool \<Rightarrow> umove list \<Rightarrow> uconfig \<Rightarrow> uconfig option" where
  "udrive orderly [] cfg = Some cfg"
| "udrive orderly (x # xs) cfg =
     (case umove1 orderly x cfg of None \<Rightarrow> None | Some cfg' \<Rightarrow> udrive orderly xs cfg')"

fun usystem_of :: "uconfig \<Rightarrow> udp_system" where
  "usystem_of (w, ts) = \<lparr>world = w, uthreads = mset ts, ucrashed = None\<rparr>"

lemma umove1_step:
  assumes "umove1 orderly x (w, ts) = Some cfg'"
  shows "ustep orderly (usystem_of (w, ts)) (usystem_of cfg')"
proof -
  let ?s = "usystem_of (w, ts)"
  show ?thesis
  proof (cases x)
    case (UGo i)
    with assms obtain us w' where i: "i < length ts" and ex: "uexec (ts ! i) w = Some (Ret (us, w'))"
      and cfg': "cfg' = (w', take i ts @ us @ drop (Suc i) ts)"
      by (auto split: if_splits option.splits go.splits)
    have "mset ts = mset (take i ts @ ts ! i # drop (Suc i) ts)" using i by (simp add: id_take_nth_drop [symmetric])
    then have "uthreads ?s = add_mset (ts ! i) (mset (take i ts) + mset (drop (Suc i) ts))" by simp
    from ustep.urun [OF this, of us w'] ex show ?thesis by (simp add: cfg' ac_simps)
  next
    case NewContext
    with assms ustep.unew_context [of orderly ?s] show ?thesis by auto
  next
    case (NewChannel n)
    with assms ustep.unew_channel [of n orderly ?s] show ?thesis by (auto split: if_splits)
  next
    case (CloseChannel ch)
    with assms ustep.uchan_close [of orderly ch ?s] show ?thesis by (auto split: if_splits go.splits)
  next
    case (CallStart ctx port)
    obtain err us w' where r: "StartListener ctx port w = (err, us, w')" by (cases "StartListener ctx port w") auto
    with assms CallStart have "orderly \<Longrightarrow> \<not> (\<exists>t \<in># uthreads ?s. stops t)" "ctx < length (contexts (world ?s))"
      "cfg' = (w', ts @ us)" by (auto simp: list_ex_iff split: if_splits)
    with ustep.ucall_start [of orderly ?s ctx port err us w'] r show ?thesis by (simp add: ac_simps)
  next
    case CallStop
    obtain us w' where r: "StopListener w = (us, w')" by (cases "StopListener w") auto
    with assms CallStop have "orderly \<Longrightarrow> \<not> (\<exists>t \<in># uthreads ?s. starts t)" "cfg' = (w', ts @ us)"
      by (auto simp: list_ex_iff split: if_splits)
    with ustep.ucall_stop [of orderly ?s us w'] r show ?thesis by (simp add: ac_simps)
  next
    case (Subscribe f ch)
    obtain r w' where r: "SubscribeToPacketReceived (Some f) (Some ch) w = (r, w')" by fastforce
    with assms Subscribe ustep.ucall_subscribe [of ch ?s f r w' orderly] show ?thesis by (auto split: if_splits)
  next
    case (Arrives k a d)
    with assms ustep.upacket [of k ?s orderly "Some (a, d)"] show ?thesis by (auto split: if_splits)
  qed
qed

lemma udrive_reachable:
  "ureachable orderly (usystem_of cfg) \<Longrightarrow> udrive orderly xs cfg = Some cfg' \<Longrightarrow> ureachable orderly (usystem_of cfg')"
proof (induction xs arbitrary: cfg)
  case (Cons x xs)
  from Cons.prems(2) obtain c1 where c1: "umove1 orderly x cfg = Some c1" "udrive orderly xs c1 = Some cfg'"
    by (auto split: option.splits)
  obtain w ts where cfg: "cfg = (w, ts)" by (cases cfg)
  have "ureachable orderly (usystem_of c1)"
    by (rule ureachable.ulater [OF Cons.prems(1) _ umove1_step [OF c1(1) [unfolded cfg], folded cfg]]) (simp add: cfg)
  with Cons.IH c1(2) show ?case by blast
qed simp

definition ufresh :: uconfig where
  "ufresh = (\<lparr>listener = NewUDPListener, sockets = [], contexts = [], channels = [], busy = (\<lambda>_. False),
        outbox = [], received = [], subscribed = []\<rparr>, [])"

definition urun_of :: "bool \<Rightarrow> umove list \<Rightarrow> udp_system" where
  "urun_of orderly xs = (case udrive orderly xs ufresh of None \<Rightarrow> usystem_of ufresh | Some cfg \<Rightarrow> usystem_of cfg)"

lemma urun_of_reachable: "ureachable orderly (urun_of orderly xs)"
proof -
  have "ureachable orderly (usystem_of ufresh)"
    using ureachable.uinit [of orderly "\<lambda>_. False"] by (simp add: ufresh_def ustart_def)
  then show ?thesis using udrive_reachable by (auto simp: urun_of_def split: option.splits)
qed

section \<open>Runs\<close>

definition peer :: UDPAddr where
  "peer = \<lparr>addr_IP = [10, 0, 0, 1], addr_Port = 3478, addr_Zone = []\<rparr>"

text \<open>A subscription for every packet on a channel of one place, then two packets: the first is in
  the channel, the second is with its delivery goroutine.\<close>

definition two_packets :: "umove list" where
  "two_packets = [NewContext, NewChannel 1, Subscribe (\<lambda>_ _. True) 0, CallStart 0 7, UGo 0, UGo 0,
     Arrives 0 peer [1], UGo 0, UGo 0, UGo 0, UGo 0, Arrives 0 peer [2], UGo 0, UGo 0]"

text \<open>\<^verbatim>\<open>StopListener\<close> has been called while the loop reads, and waits for it.\<close>

definition stopping_run :: "umove list" where
  "stopping_run = [NewContext, CallStart 0 7, UGo 0, UGo 0, CallStop, UGo 1]"

text \<open>The loop has ended and woken the caller of \<^verbatim>\<open>StopListener\<close>.\<close>

definition stopped_run :: "umove list" where
  "stopped_run = stopping_run @ [UGo 0, UGo 0, UGo 0, UGo 0]"

lemmas urun_simps = urun_of_def ufresh_def NewUDPListener_def StartListener_def ListenUDP_def StopListener_def
  SubscribeToPacketReceived_def close_socket_def cancel_context_def upd_wg_def ReadFromUDP_def Let_def new_wg_def
  wg_Add_def wg_Done_def wg_release_def wg_Wait_def wg_woken_def make_chan_def try_send_def close_chan_def

lemma two_packets_end:
  "channels (world (urun_of b two_packets)) = [\<lparr>chan_buf = [[1]], chan_cap = 1, chan_closed = False\<rparr>]"
  "received (world (urun_of b two_packets)) = [(peer, [1]), (peer, [2])]"
  "uthreads (urun_of b two_packets) = {#UDeliver \<lparr>sub_callback = \<lambda>_ _. True, sub_ch = 0\<rparr> peer [2], UTop 0 1#}"
  by (simp_all add: two_packets_def urun_simps)

lemma stopping_run_end:
  "uthreads (urun_of b stopping_run) = {#URead 0 1, UStopBlocked#}"
  "isListening (listener (world (urun_of b stopping_run))) = False"
  by (simp_all add: stopping_run_def urun_simps)

lemma stopped_run_end:
  "uthreads (urun_of b stopped_run) = {#UStopBlocked#}"
  "udp_wg (listener (world (urun_of b stopped_run))) = \<lparr>wg_count = 0, wg_waiters = 0, wg_sema = 1\<rparr>"
  by (simp_all add: stopped_run_def stopping_run_def urun_simps)

lemma urun_of_crash:
  assumes "t \<in># uthreads (urun_of b xs)" "uexec t (world (urun_of b xs)) = Some (Panic x)"
  shows "\<exists>s. ureachable b s \<and> ucrashed s = Some x"
proof -
  have "ucrashed (urun_of b xs) = None"
    by (cases "udrive b xs ufresh") (auto simp: urun_of_def ufresh_def)
  from ureachable.ulater [OF urun_of_reachable this ustep.ucrash [OF assms]] show ?thesis by fastforce
qed

lemma closed_channel_crash: "\<exists>s. ureachable False s \<and> ucrashed s = Some ClosedChannel"
  by (rule urun_of_crash [where xs = "two_packets @ [CloseChannel 0]" and t = "UDeliver \<lparr>sub_callback = \<lambda>_ _. True, sub_ch = 0\<rparr> peer [2]"])
    (simp_all add: two_packets_def urun_simps)

lemma restart_crash: "\<exists>s. ureachable False s \<and> ucrashed s = Some WaitGroupMisuse"
  by (rule urun_of_crash [where xs = "stopped_run @ [CallStart 0 7, UGo 1]" and t = UStopBlocked])
    (simp_all add: stopped_run_def stopping_run_def urun_simps)

section \<open>Properties\<close>

text \<open>
  C8: the panics of the UDP listener, exactly. While its callers do not run \<open>StartListener\<close> and
  \<open>StopListener\<close> at the same time and subscribers leave their channels open, no interleaving
  panics. Without that discipline the listener can panic in two ways only, and does: a delivery to a
  closed channel, and a restart that overtakes a \<open>StopListener\<close> still returning from
  \<open>wg.Wait\<close>.
\<close>

theorem udp_panics_iff:
  "(\<exists>s. ureachable orderly s \<and> ucrashed s = Some x) \<longleftrightarrow> \<not> orderly \<and> (x = ClosedChannel \<or> x = WaitGroupMisuse)"
proof
  assume "\<exists>s. ureachable orderly s \<and> ucrashed s = Some x"
  then show "\<not> orderly \<and> (x = ClosedChannel \<or> x = WaitGroupMisuse)"
    using ureachable_rest by (fastforce simp: urest_def)
next
  assume "\<not> orderly \<and> (x = ClosedChannel \<or> x = WaitGroupMisuse)"
  then show "\<exists>s. ureachable orderly s \<and> ucrashed s = Some x"
    using closed_channel_crash restart_crash by auto
qed

text \<open>
  C20: where packets come from. In every reachable state every packet in a subscriber's channel was
  read from a socket of the listener and accepted by the filter of a subscription that was made with
  this very channel, for the address the packet came from; and the channel is never filled beyond
  its capacity.
\<close>

theorem udp_delivery_sound:
  assumes "ureachable orderly s" "ch < length (channels (world s))"
  shows "length (chan_buf (channels (world s) ! ch)) \<le> chan_cap (channels (world s) ! ch)
    \<and> (\<forall>d \<in> set (chan_buf (channels (world s) ! ch)). \<exists>a sub. (a, d) \<in> set (received (world s))
          \<and> sub \<in> set (subscribed (world s)) \<and> sub_ch sub = ch \<and> sub_callback sub a d)"
  using ureachable_inv [OF assms(1)] assms(2) by (fastforce simp: udp_inv_def chans_ok_def wanted_def)

theorem udp_delivery_sound_witness:
  "chan_buf (channels (world (urun_of True two_packets)) ! 0) = [[1]]
   \<and> (\<exists>a sub. (a, [1]) \<in> set (received (world (urun_of True two_packets)))
        \<and> sub \<in> set (subscribed (world (urun_of True two_packets))) \<and> sub_ch sub = 0 \<and> sub_callback sub a [1])"
  using udp_delivery_sound [OF urun_of_reachable [of True two_packets], of 0]
  by (simp add: two_packets_end(1))

text \<open>
  \<open>StopListener\<close> returns with no reader left: when the wait of a call of
  \<open>StopListener\<close> is over, no read loop of any run of the listener is left, whether the wait was
  short-cut or blocked.
\<close>

theorem stop_waits_for_loop:
  assumes "ureachable True s" "uthreads s = add_mset t M" "stops t" "uexec t (world s) = Some (Ret ([], w'))"
  shows "filter_mset looping (uthreads s) = {#} \<and> filter_mset starts (uthreads s) = {#}"
proof -
  let ?g = "udp_wg (listener (world s))"
  have inv: "udp_inv s" and rest: "urest True s" using assms(1) ureachable_inv ureachable_rest by auto
  have "wg_count ?g = 0"
  proof (cases "t = UStopWait")
    case True
    with assms(4) show ?thesis by (auto simp: wg_Wait_def split: if_splits prod.splits)
  next
    case False
    with assms(3) have "t = UStopBlocked" by (cases t) auto
    with assms(4) have "wg_sema ?g \<noteq> 0" by (auto simp: wg_woken_def split: option.splits go.splits if_splits)
    with rest show ?thesis by (simp add: urest_def)
  qed
  with inv have "filter_mset looping (uthreads s) = {#}" by (auto simp: udp_inv_def wg_agrees_def)
  moreover have "\<forall>u \<in># uthreads s. \<not> starts u" using rest assms(2,3) by (auto simp: urest_def)
  ultimately show ?thesis by (simp add: filter_mset_eq_mempty_iff)
qed

theorem stop_waits_for_loop_witness:
  "\<exists>w'. uexec UStopBlocked (world (urun_of True stopped_run)) = Some (Ret ([], w'))
     \<and> filter_mset looping (uthreads (urun_of True stopped_run)) = {#}
     \<and> filter_mset starts (uthreads (urun_of True stopped_run)) = {#}"
proof -
  obtain w' where "uexec UStopBlocked (world (urun_of True stopped_run)) = Some (Ret ([], w'))"
    by (simp add: stopped_run_end wg_woken_def)
  with stop_waits_for_loop [OF urun_of_reachable _ _ this] stopped_run_end(1) [of True] show ?thesis by auto
qed

text \<open>
  C14: a stopped listener comes to rest. From any reachable state in which the listener is not
  listening, every schedule of its goroutines is at most \<open>stop_bound\<close> moves long, and it can
  always be continued until no goroutine is left: the read loop ends, all deliveries are made or
  dropped and every call of \<open>StopListener\<close> returns.
\<close>

theorem stop_terminates:
  assumes "ureachable True s" "\<not> isListening (listener (world s))" "uschedule s n s'"
  shows "n \<le> stop_bound s \<and> (uthreads s' = {#} \<or> (\<exists>s''. uschedule s (Suc n) s''))"
proof -
  have "ucrashed s = None" using ureachable_rest [OF assms(1)] by (simp add: urest_def)
  note keeps = uschedule_keeps [OF assms(3,1) this assms(2)]
  then have s': "ureachable True s'" "udp_inv s'" "urest True s'" "\<not> isListening (listener (world s'))"
    using ureachable_inv ureachable_rest by auto
  have "\<exists>s''. uschedule s (Suc n) s''" if "uthreads s' \<noteq> {#}"
  proof -
    have "\<exists>t \<in># uthreads s'. uexec t (world s') \<noteq> None" by (rule uprogress [OF s'(2,4) that])
    then obtain t r where t: "t \<in># uthreads s'" "uexec t (world s') = Some r" by blast
    then obtain M where M: "uthreads s' = add_mset t M" by (blast dest: multi_member_split)
    from uexec_panic [OF s'(2,3) M] t(2) obtain ts w' where "uexec t (world s') = Some (Ret (ts, w'))"
      by (cases r) auto
    with uschedule.uschedule_Suc [OF assms(3) M] show ?thesis by blast
  qed
  with keeps show ?thesis by auto
qed

theorem stop_terminates_witness:
  "0 \<le> stop_bound (urun_of True stopping_run)
   \<and> (uthreads (urun_of True stopping_run) = {#} \<or> (\<exists>s''. uschedule (urun_of True stopping_run) (Suc 0) s''))
   \<and> UStopBlocked \<in># uthreads (urun_of True stopping_run)"
  using stop_terminates [OF urun_of_reachable [of True stopping_run] _ uschedule.uschedule_0] stopping_run_end [of True]
  by simp

end
