(* ===== verification/StunSafety.thy ===== *)
theory StunSafety
  imports StunDiscoverer UdpProps
begin

text \<open>
  The discoverer under every interleaving with its listener. Each of its moves is also a move of the
  listener's own transition system, so that the listener's invariants hold in the composed system;
  on top of them the address in the identity is traced back to a packet from a configured server,
  and the subscriptions of the queries to the goroutines that hold them.
\<close>

section \<open>Histories of the listener\<close>

text \<open>What a move of the listener leaves behind.\<close>

definition grows :: "udp_world \<Rightarrow> udp_world \<Rightarrow> bool" where
  "grows w w' \<longleftrightarrow> set (outbox w) \<subseteq> set (outbox w') \<and> set (received w) \<subseteq> set (received w')
     \<and> prefix (subscribed w) (subscribed w') \<and> length (channels w) \<le> length (channels w')
     \<and> length (contexts w) \<le> length (contexts w')
     \<and> (\<forall>c < length (contexts w). contexts w ! c \<longrightarrow> contexts w' ! c)"

lemma grows_refl [simp]: "grows w w"
  by (simp add: grows_def)

lemma grows_trans: "grows w w' \<Longrightarrow> grows w' w'' \<Longrightarrow> grows w w''"
  unfolding grows_def by (auto intro: prefix_order.trans)

lemma uexec_outbox: "uexec t w = Some (Ret (ts, w')) \<Longrightarrow> outbox w' = outbox w"
proof (cases t)
  case (URead k c)
  assume "uexec t w = Some (Ret (ts, w'))"
  with URead show ?thesis by (auto split: uexec_splits dest!: ReadFromUDP_Some)
qed (auto simp: upd_wg_def split: uexec_splits)

lemma ustep_grows: "ustep orderly s s' \<Longrightarrow> grows (world s) (world s')"
proof (induction rule: ustep.induct)
  case (urun s t M ts w')
  then show ?case
    using udp_frameD [OF uexec_frame] frame_received [OF uexec_frame] uexec_outbox by (simp add: grows_def)
next
  case (ucall_start s ctx port err ts w')
  with StartListener_cases [OF ucall_start.hyps(3)] show ?case by (auto simp: grows_def nth_append)
qed (auto simp: grows_def StopListener_def SendPacketTo_def SubscribeToPacketReceived_def
    UnsubscribeFromPacketReceived_def Let_def close_socket_def cancel_context_def nth_append nth_update_if
    split: if_splits option.splits)

text \<open>Subscriptions are to existing channels; a packet fits the read buffer.\<close>

definition hist_ok :: "udp_world \<Rightarrow> bool" where
  "hist_ok w \<longleftrightarrow> (\<forall>sub \<in> set (subscribed w). sub_ch sub < length (channels w))
     \<and> (\<forall>(a, d) \<in> set (received w). length d \<le> 65535)"

lemma uexec_received:
  assumes "uexec t w = Some (Ret (ts, w'))"
  shows "received w' = received w \<or> (\<exists>a d. received w' = received w @ [(a, d)] \<and> length d \<le> 65535)"
proof (cases t)
  case (URead k c)
  with assms show ?thesis
    by (auto simp: ReadFromUDP_def Let_def split: if_splits option.splits list.splits prod.splits)
qed (use assms in \<open>auto split: uexec_splits\<close>)

lemma ureachable_hist: "ureachable orderly s \<Longrightarrow> hist_ok (world s)"
proof (induction rule: ureachable.induct)
  case (uinit taken_ports)
  show ?case by (simp add: ustart_def hist_ok_def)
next
  case (ulater s s')
  from ulater.hyps(3) ulater.IH show ?case
  proof (induction rule: ustep.induct)
    case (urun s t M ts w')
    then show ?case
      using udp_frameD(3,4) [OF uexec_frame [OF urun.hyps(2)]] uexec_received [OF urun.hyps(2)]
      by (auto simp: hist_ok_def)
  next
    case (ucall_start s ctx port err ts w')
    with StartListener_cases [OF ucall_start.hyps(3)] show ?case by (auto simp: hist_ok_def)
  qed (auto simp: hist_ok_def StopListener_def SendPacketTo_def SubscribeToPacketReceived_def
    UnsubscribeFromPacketReceived_def Let_def close_socket_def cancel_context_def
    split: if_splits option.splits)
qed

lemma ustep_table:
  assumes "ustep orderly s s'" "sub_table (world s') k = Some sub"
  shows "sub_table (world s) k = Some sub \<or> sub \<in> set (drop (length (subscribed (world s))) (subscribed (world s')))"
  using assms
proof (induction rule: ustep.induct)
  case (urun s t M ts w')
  then show ?case using udp_frameD(7) [OF uexec_frame [OF urun.hyps(2)]] by (simp add: sub_table_def)
next
  case (ucall_start s ctx port err ts w')
  with StartListener_cases [OF ucall_start.hyps(3)] show ?case by (auto simp: sub_table_def)
next
  case (ucall_subscribe ch s f r w')
  then show ?case
    by (auto simp: SubscribeToPacketReceived_def Let_def sub_table_def update_conv' split: if_splits)
next
  case (ucall_unsubscribe sid s err w')
  then show ?case using udp_port.unsubscribe_entry by fastforce
next
  case (ucall_send sends a d s err w')
  then show ?case using udp_port.send_table by fastforce
qed (auto simp: sub_table_def StopListener_def Let_def close_socket_def cancel_context_def
    split: if_splits option.splits)

section \<open>The invariant\<close>

text \<open>An address a query may report: it is what the response parser makes of a packet that arrived
  from a configured server, in answer to a request that was sent there.\<close>

definition genuine :: "(string \<Rightarrow> UDPAddr \<Rightarrow> bool) \<Rightarrow> string list \<Rightarrow> udp_world \<Rightarrow> UDPAddr \<Rightarrow> bool" where
  "genuine resolves srvs w a \<longleftrightarrow>
     (\<exists>server srv tx src p. server \<in> set srvs \<and> resolves server srv \<and> length tx = 12
        \<and> (srv, binding_request tx) \<in> set (outbox w) \<and> (src, p) \<in> set (received w)
        \<and> stun_callback srv tx src p \<and> parseSTUNResponse p tx = Ret (Inr a))"

lemma genuine_mono: "genuine resolves srvs w a \<Longrightarrow> grows w w' \<Longrightarrow> genuine resolves srvs w' a"
  unfolding genuine_def grows_def by blast

text \<open>The queries made so far: each has a channel of its own, to which only its own filter was
  subscribed.\<close>

definition queries_ok :: "(string \<Rightarrow> UDPAddr \<Rightarrow> bool) \<Rightarrow> ('x, 'y) discovery \<Rightarrow> bool" where
  "queries_ok resolves d \<longleftrightarrow> distinct (map packetChan (queries d))
     \<and> (\<forall>q \<in> set (queries d). packetChan q < length (channels (net d)) \<and> length (txID q) = 12
          \<and> (\<exists>server \<in> set (servers (disc d)). resolves server (serverAddr q))
          \<and> (\<forall>sub \<in> set (subscribed (net d)). sub_ch sub = packetChan q \<longrightarrow>
                sub_callback sub = stun_callback (serverAddr q) (txID q)))"

fun dthread_ok :: "(string \<Rightarrow> UDPAddr \<Rightarrow> bool) \<Rightarrow> ('x, 'y) discovery \<Rightarrow> dthread \<Rightarrow> bool" where
  "dthread_ok resolves d (DServer qa) = (set (qa_rest qa) \<subseteq> set (servers (disc d)))"
| "dthread_ok resolves d (DSubscribe qa q) = (set (qa_rest qa) \<subseteq> set (servers (disc d)) \<and> q \<in> set (queries d))"
| "dthread_ok resolves d (DSend qa q subID) = (set (qa_rest qa) \<subseteq> set (servers (disc d)) \<and> q \<in> set (queries d))"
| "dthread_ok resolves d (DWait qa q subID) = (set (qa_rest qa) \<subseteq> set (servers (disc d)) \<and> q \<in> set (queries d)
     \<and> (serverAddr q, binding_request (txID q)) \<in> set (outbox (net d)))"
| "dthread_ok resolves d (DUnsubscribe qa subID r) = (set (qa_rest qa) \<subseteq> set (servers (disc d))
     \<and> (\<forall>a. r = Inr a \<longrightarrow> genuine resolves (servers (disc d)) (net d) a))"
| "dthread_ok resolves d (DFound qa a) = genuine resolves (servers (disc d)) (net d) a"
| "dthread_ok resolves d _ = True"

text \<open>The context a goroutine works under, which is that of the current run or cancelled.\<close>

fun dctx :: "dthread \<Rightarrow> nat option" where
  "dctx (DServer qa) = Some (qa_ctx qa)"
| "dctx (DSubscribe qa q) = Some (qa_ctx qa)"
| "dctx (DSend qa q subID) = Some (qa_ctx qa)"
| "dctx (DWait qa q subID) = Some (qa_ctx qa)"
| "dctx (DUnsubscribe qa subID r) = Some (qa_ctx qa)"
| "dctx (DFound qa a) = Some (qa_ctx qa)"
| "dctx (DTicker c) = Some c"
| "dctx (DLoop c) = Some c"
| "dctx _ = None"

definition ctx_ok :: "('x, 'y) discovery \<Rightarrow> nat \<Rightarrow> bool" where
  "ctx_ok d c \<longleftrightarrow> c < length (contexts (net d))
     \<and> (isRunning (disc d) \<and> disc_cancel (disc d) = Some c \<or> contexts (net d) ! c)"

text \<open>The subscription a goroutine holds; the goroutines the wait group counts.\<close>

fun holds :: "dthread \<Rightarrow> uint32 option" where
  "holds (DSend qa q subID) = Some subID"
| "holds (DWait qa q subID) = Some subID"
| "holds (DUnsubscribe qa subID r) = Some subID"
| "holds _ = None"

definition counted :: "dthread \<Rightarrow> bool" where
  "counted t \<longleftrightarrow> dctx t \<noteq> None \<or> t = DDone"

definition subs_held :: "('x, 'y) discovery \<Rightarrow> dthread multiset \<Rightarrow> bool" where
  "subs_held d M \<longleftrightarrow> (\<forall>k sub. sub_table (net d) k = Some sub \<longrightarrow> sub_ch sub \<in> packetChan ` set (queries d) \<longrightarrow>
     (\<exists>t \<in># M. holds t = Some k))"

definition account_ok :: "(string \<Rightarrow> UDPAddr \<Rightarrow> bool) \<Rightarrow> ('x, 'y) discovery \<Rightarrow> bool" where
  "account_ok resolves d \<longleftrightarrow> client_ok (account d)
     \<and> (\<forall>a. public_value (account d) = Some a \<longrightarrow> genuine resolves (servers (disc d)) (net d) a)"

definition disc_inv :: "bool \<Rightarrow> (string \<Rightarrow> UDPAddr \<Rightarrow> bool) \<Rightarrow> string list \<Rightarrow> int \<Rightarrow> ('x, 'y) disc_system \<Rightarrow> bool" where
  "disc_inv orderly resolves srvs dur s \<longleftrightarrow> ureachable orderly (port (dstate s))
     \<and> servers (disc (dstate s)) = srvs \<and> interval (disc (dstate s)) = dur
     \<and> queries_ok resolves (dstate s) \<and> account_ok resolves (dstate s) \<and> subs_held (dstate s) (dthreads s)
     \<and> (\<forall>t \<in># dthreads s. dthread_ok resolves (dstate s) t \<and> (\<forall>c. dctx t = Some c \<longrightarrow> ctx_ok (dstate s) c))
     \<and> wg_agrees (disc_wg (disc (dstate s))) (size (filter_mset counted (dthreads s)))
         (count (dthreads s) DStopBlocked) (count (dthreads s) DRelease)"

lemma dthread_ok_mono:
  assumes "dthread_ok resolves d t" "servers (disc d') = servers (disc d)" "grows (net d) (net d')"
    "set (queries d) \<subseteq> set (queries d')"
  shows "dthread_ok resolves d' t"
  using assms genuine_mono [OF _ assms(3)] by (cases t) (auto simp: grows_def)

lemma ctx_ok_mono:
  assumes "ctx_ok d c" "isRunning (disc d') = isRunning (disc d)" "disc_cancel (disc d') = disc_cancel (disc d)"
    "grows (net d) (net d')"
  shows "ctx_ok d' c"
  using assms by (auto simp: ctx_ok_def grows_def)

section \<open>A move of a goroutine\<close>

lemma net_upds [simp]:
  "net (upd_net w d) = w" "disc (upd_net w d) = disc d" "account (upd_net w d) = account d"
  "queries (upd_net w d) = queries d" "net (upd_disc_wg g d) = net d" "port (upd_disc_wg g d) = port d"
  "disc (upd_disc_wg g d) = (disc d)\<lparr>disc_wg := g\<rparr>" "account (upd_disc_wg g d) = account d"
  "queries (upd_disc_wg g d) = queries d" "port (upd_net w d) = (port d)\<lparr>world := w\<rparr>"
  "disc (set_public a d) = disc d" "port (set_public a d) = port d" "queries (set_public a d) = queries d"
  by (simp_all add: upd_net_def upd_disc_wg_def set_public_def)

lemmas dexec_splits = if_splits option.splits prod.splits go.splits list.splits sum.splits branch.splits

text \<open>Every move is none or one of the listener.\<close>

lemma dexec_port:
  assumes "dexec resolves c t d = Some (Ret (ts, d'))" "dthread_ok resolves d t" "queries_ok resolves d"
  shows "port d' = port d \<or> ustep orderly (port d) (port d')"
proof (cases t)
  case (DServer qa)
  with assms(1) have "port d' = port d \<or> port d' = (port d)\<lparr>world := (net d)\<lparr>channels := channels (net d) @ [make_chan 1]\<rparr>\<rparr>"
    by (auto simp: Let_def split: dexec_splits)
  then show ?thesis using ustep.unew_channel [of 1 orderly "port d"] by auto
next
  case (DSubscribe qa q)
  then have "packetChan q < length (channels (net d))" using assms(2,3) by (auto simp: queries_ok_def)
  from ustep.ucall_subscribe [OF this] show ?thesis
    using assms(1) DSubscribe by (fastforce split: dexec_splits)
next
  case (DSend qa q subID)
  with assms(1) ustep.ucall_send [of "network c" "serverAddr q" "binding_request (txID q)" "port d"]
  show ?thesis by (fastforce split: dexec_splits)
next
  case (DWait qa q subID)
  then have "packetChan q < length (channels (net d))" using assms(2,3) by (auto simp: queries_ok_def)
  from ustep.uchan_recv [OF this] show ?thesis
    using assms(1) DWait by (fastforce split: dexec_splits)
next
  case (DUnsubscribe qa subID r)
  with assms(1) ustep.ucall_unsubscribe [of subID "port d"] show ?thesis by (fastforce split: dexec_splits)
qed (use assms(1) in \<open>auto split: dexec_splits\<close>)

lemma dexec_disc:
  assumes "dexec resolves c t d = Some (Ret (ts, d'))"
  shows "servers (disc d') = servers (disc d)" "interval (disc d') = interval (disc d)"
    "isRunning (disc d') = isRunning (disc d)" "disc_cancel (disc d') = disc_cancel (disc d)"
    "set (queries d) \<subseteq> set (queries d')"
  using assms by (cases t; auto simp: Let_def split: dexec_splits)+

lemma dexec_grows:
  assumes "dexec resolves c t d = Some (Ret (ts, d'))" "dthread_ok resolves d t" "queries_ok resolves d"
  shows "grows (net d) (net d')"
  using dexec_port [OF assms, of True] ustep_grows [of True "port d" "port d'"] by auto

lemma dexec_ctx: "dexec resolves c t d = Some (Ret (ts, d')) \<Longrightarrow> u \<in> set ts \<Longrightarrow> dctx u = Some k \<Longrightarrow> dctx t = Some k"
  by (cases t) (auto simp: Let_def query_all_returns_def split: dexec_splits)

text \<open>The packet a query receives was accepted by its own filter.\<close>

lemma query_packet:
  assumes inv: "udp_inv (port d)" and q: "queries_ok resolves d" "q \<in> set (queries d)"
    and p: "p \<in> set (chan_buf (channels (net d) ! packetChan q))"
  shows "\<exists>src. (src, p) \<in> set (received (net d)) \<and> stun_callback (serverAddr q) (txID q) src p"
proof -
  have "packetChan q < length (channels (net d))" using q by (auto simp: queries_ok_def)
  then have "wanted (net d) (packetChan q) p" using inv p by (auto simp: udp_inv_def chans_ok_def)
  then obtain sub src where "sub \<in> set (subscribed (net d))" "sub_ch sub = packetChan q"
    "(src, p) \<in> set (received (net d))" "sub_callback sub src p" by (auto simp: wanted_def)
  with q show ?thesis by (fastforce simp: queries_ok_def)
qed

lemma parse_nil [simp]: "parseSTUNResponse [] tx = Ret (Inl ResponseTooShort)"
  by (simp add: parseSTUNResponse_def)

lemma map_sum_Inr [simp]: "map_sum f id r = Inr a \<longleftrightarrow> r = Inr a" "Inr a = map_sum f id r \<longleftrightarrow> r = Inr a"
  by (cases r; auto)+

lemma wait_genuine:
  assumes ok: "dthread_ok resolves d (DWait qa q subID)" "queries_ok resolves d" "udp_inv (port d)"
    and recv: "chan_recv (channels (net d) ! packetChan q) = Some (Some p, ch)"
    and parse: "parseSTUNResponse p (txID q) = Ret (Inr a)"
  shows "genuine resolves (servers (disc d)) (net d) a"
proof -
  have q: "q \<in> set (queries d)" "(serverAddr q, binding_request (txID q)) \<in> set (outbox (net d))" using ok(1) by simp_all
  have "p \<in> set (chan_buf (channels (net d) ! packetChan q))" using gochan.recv_some recv by fastforce
  from query_packet [OF ok(3,2) q(1) this] obtain src where
    "(src, p) \<in> set (received (net d))" "stun_callback (serverAddr q) (txID q) src p" by blast
  moreover obtain server where "server \<in> set (servers (disc d))" "resolves server (serverAddr q)" "length (txID q) = 12"
    using q(1) ok(2) by (auto simp: queries_ok_def)
  ultimately show ?thesis using q(2) parse unfolding genuine_def by blast
qed

lemma dexec_threads_ok:
  assumes ex: "dexec resolves c t d = Some (Ret (ts, d'))" and ok: "dthread_ok resolves d t" "queries_ok resolves d"
    "udp_inv (port d)" and u: "u \<in> set ts"
  shows "dthread_ok resolves d' u"
proof (cases "\<exists>qa q subID. t = DWait qa q subID")
  case True
  then obtain qa q subID where t: "t = DWait qa q subID" by blast
  note old = dthread_ok_mono [OF _ dexec_disc(1) [OF ex] dexec_grows [OF ex ok(1,2)] dexec_disc(5) [OF ex]]
  from ex u t ok(1) have "dthread_ok resolves d u"
    using wait_genuine [OF ok(1,2,3) [unfolded t]] by (auto split: dexec_splits)
  then show ?thesis by (rule old)
next
  case False
  note gen = genuine_mono [OF _ dexec_grows [OF ex ok(1,2)]]
  from False ex u ok(1) gen show ?thesis
    by (cases t) (auto simp: Let_def query_all_returns_def SendPacketTo_def split: dexec_splits)
qed

lemma Subscribe_new:
  "SubscribeToPacketReceived (Some f) (Some ch) w = (r, w') \<Longrightarrow>
     (\<exists>sid. r = Inr sid) \<and> channels w' = channels w \<and> subscribed w' = subscribed w @ [\<lparr>sub_callback = f, sub_ch = ch\<rparr>]"
  by (auto simp: SubscribeToPacketReceived_def Let_def)

lemma port_calls_keep:
  "SendPacketTo sends a b w = (e, w') \<Longrightarrow> channels w' = channels w \<and> subscribed w' = subscribed w"
  "UnsubscribeFromPacketReceived sid w = (e, w') \<Longrightarrow> channels w' = channels w \<and> subscribed w' = subscribed w"
  by (auto simp: SendPacketTo_def UnsubscribeFromPacketReceived_def split: option.splits if_splits)

lemma queries_ok_same:
  assumes "queries_ok resolves d" "queries d' = queries d" "servers (disc d') = servers (disc d)"
    "length (channels (net d)) \<le> length (channels (net d'))"
    "\<And>sub. sub \<in> set (subscribed (net d')) \<Longrightarrow> sub \<in> set (subscribed (net d))
      \<or> sub_ch sub \<notin> packetChan ` set (queries d)
      \<or> (\<exists>q \<in> set (queries d). sub = \<lparr>sub_callback = stun_callback (serverAddr q) (txID q), sub_ch = packetChan q\<rparr>)"
  shows "queries_ok resolves d'"
  unfolding queries_ok_def assms(2,3)
proof (intro conjI ballI impI)
  show "distinct (map packetChan (queries d))" using assms(1) by (simp add: queries_ok_def)
next
  fix q sub assume q: "q \<in> set (queries d)" and sub: "sub \<in> set (subscribed (net d'))" "sub_ch sub = packetChan q"
  from assms(5) [OF sub(1)] show "sub_callback sub = stun_callback (serverAddr q) (txID q)"
  proof (elim disjE bexE)
    fix q' assume q': "q' \<in> set (queries d)" "sub = \<lparr>sub_callback = stun_callback (serverAddr q') (txID q'), sub_ch = packetChan q'\<rparr>"
    have "inj_on packetChan (set (queries d))" using assms(1) by (simp add: queries_ok_def distinct_map)
    with q q' sub(2) have "q' = q" by (auto dest: inj_onD)
    with q'(2) show ?thesis by simp
  qed (use q sub assms(1) in \<open>auto simp: queries_ok_def\<close>)
qed (use assms(1,4) in \<open>auto simp: queries_ok_def\<close>)

lemma dexec_subscribed:
  assumes ex: "dexec resolves c t d = Some (Ret (ts, d'))"
  shows "subscribed (net d') = subscribed (net d) \<or> (\<exists>qa q. t = DSubscribe qa q
    \<and> subscribed (net d') = subscribed (net d) @ [\<lparr>sub_callback = stun_callback (serverAddr q) (txID q), sub_ch = packetChan q\<rparr>])"
proof (cases t)
  case (DSubscribe qa q)
  with ex show ?thesis by (auto split: dexec_splits dest!: Subscribe_new)
next
  case (DSend qa q subID)
  with ex show ?thesis by (auto split: dexec_splits dest!: port_calls_keep(1))
next
  case (DUnsubscribe qa subID r)
  with ex show ?thesis by (auto split: dexec_splits dest!: port_calls_keep(2))
qed (use ex in \<open>auto simp: Let_def split: dexec_splits\<close>)

lemma DServer_new:
  assumes "dexec resolves c (DServer qa) d = Some (Ret (ts, d'))" "d' \<noteq> d"
  shows "\<exists>server addr tx. server \<in> set (qa_rest qa) \<and> resolves server addr \<and> length tx = 12
    \<and> d' = (upd_net ((net d)\<lparr>channels := channels (net d) @ [make_chan 1]\<rparr>) d)
        \<lparr>queries := queries d @ [\<lparr>serverAddr = addr, txID = tx, packetChan = length (channels (net d))\<rparr>]\<rparr>"
proof -
  obtain server rest addr tx where "qa_rest qa = server # rest" "resolved c = Some addr" "random c = Some tx"
    "\<not> contexts (net d) ! qa_ctx qa"
    using assms by (simp split: list.splits if_splits option.splits)
  with assms show ?thesis
    by (intro exI [of _ server] exI [of _ addr] exI [of _ tx]) (simp add: Let_def split: if_splits)
qed

lemma dexec_queries_ok:
  assumes ex: "dexec resolves c t d = Some (Ret (ts, d'))" and ok: "dthread_ok resolves d t" "queries_ok resolves d"
    and hist: "hist_ok (net d)"
  shows "queries_ok resolves d'"
proof (cases "queries d' = queries d")
  case True
  have "sub \<in> set (subscribed (net d)) \<or> (\<exists>q \<in> set (queries d).
      sub = \<lparr>sub_callback = stun_callback (serverAddr q) (txID q), sub_ch = packetChan q\<rparr>)"
    if "sub \<in> set (subscribed (net d'))" for sub
    using dexec_subscribed [OF ex] ok(1) that by auto
  then show ?thesis
    using dexec_grows [OF ex ok] by (intro queries_ok_same [OF ok(2) True dexec_disc(1) [OF ex]]) (auto simp: grows_def)
next
  case False
  then obtain qa where t: "t = DServer qa" using ex by (cases t) (auto split: dexec_splits)
  with False have "d' \<noteq> d" by auto
  from DServer_new [OF ex [unfolded t] this] obtain server addr tx where
    server: "server \<in> set (qa_rest qa)" and new: "resolves server addr" "length tx = 12"
    "d' = (upd_net ((net d)\<lparr>channels := channels (net d) @ [make_chan 1]\<rparr>) d)
        \<lparr>queries := queries d @ [\<lparr>serverAddr = addr, txID = tx, packetChan = length (channels (net d))\<rparr>]\<rparr>"
    by blast
  have "server \<in> set (servers (disc d))" using server ok(1) t by auto
  then show ?thesis
    using ok(2) hist new(1,2) by (auto simp: queries_ok_def hist_ok_def new(3) upd_net_def less_Suc_eq)
qed

text \<open>The subscriptions of queries in the table, each held by a goroutine.\<close>

lemma subs_heldI:
  assumes "subs_held d (add_mset t M)"
    "\<And>k sub. sub_table (net d') k = Some sub \<Longrightarrow> sub_ch sub \<in> packetChan ` set (queries d') \<Longrightarrow>
       sub_table (net d) k = Some sub \<and> sub_ch sub \<in> packetChan ` set (queries d) \<and> holds t \<noteq> Some k
       \<or> (\<exists>u \<in> set ts. holds u = Some k)"
  shows "subs_held d' (mset ts + M)"
  unfolding subs_held_def
proof (intro allI impI)
  fix k sub assume "sub_table (net d') k = Some sub" "sub_ch sub \<in> packetChan ` set (queries d')"
  from assms(2) [OF this] assms(1) show "\<exists>u \<in># mset ts + M. holds u = Some k"
    by (fastforce simp: subs_held_def)
qed

lemma table_channels:
  assumes "udp_inv u" "sub_table (world u) k = Some sub"
  shows "sub_ch sub < length (channels (world u))"
proof -
  from assms(2) have "(k, sub) \<in> set (subscriptions (listener (world u)))" by (auto simp: sub_table_def dest: map_of_SomeD)
  with assms(1) show ?thesis by (auto simp: udp_inv_def subs_ok_def sub_ok_def)
qed

lemma subs_held_same:
  assumes "subs_held d (add_mset t M)" "sub_table (net d') = sub_table (net d)" "queries d' = queries d"
    "\<And>k. holds t = Some k \<Longrightarrow> \<exists>u \<in> set ts. holds u = Some k"
  shows "subs_held d' (mset ts + M)"
  by (rule subs_heldI [OF assms(1)]) (use assms(2-4) in \<open>auto\<close>)

lemma DServer_subs_held:
  assumes ex: "dexec resolves c (DServer qa) d = Some (Ret (ts, d'))" and inv: "udp_inv (port d)"
    and held: "subs_held d (add_mset (DServer qa) M)"
  shows "subs_held d' (mset ts + M)"
proof (cases "d' = d")
  case True
  then show ?thesis by (intro subs_held_same [OF held]) simp_all
next
  case False
  from DServer_new [OF ex this] obtain q where
    d': "d' = (upd_net ((net d)\<lparr>channels := channels (net d) @ [make_chan 1]\<rparr>) d)\<lparr>queries := queries d @ [q]\<rparr>"
      "packetChan q = length (channels (net d))" by auto
  have table: "sub_table (net d') = sub_table (net d)" by (simp add: d'(1) upd_net_def sub_table_def)
  have queries: "set (queries d') = insert q (set (queries d))" by (simp add: d'(1))
  show ?thesis
  proof (rule subs_heldI [OF held])
    fix k sub assume "sub_table (net d') k = Some sub" and ch: "sub_ch sub \<in> packetChan ` set (queries d')"
    then have k: "sub_table (net d) k = Some sub" by (simp only: table)
    then have "sub_ch sub \<noteq> packetChan q" using table_channels [OF inv, of k sub] by (simp add: d'(2))
    with k ch queries show "sub_table (net d) k = Some sub \<and> sub_ch sub \<in> packetChan ` set (queries d) \<and> holds (DServer qa) \<noteq> Some k
       \<or> (\<exists>u \<in> set ts. holds u = Some k)" by auto
  qed
qed

lemma dexec_subs_held:
  assumes ex: "dexec resolves c t d = Some (Ret (ts, d'))" and inv: "udp_inv (port d)"
    and held: "subs_held d (add_mset t M)"
  shows "subs_held d' (mset ts + M)"
proof (cases t)
  case (DServer qa)
  with DServer_subs_held [OF _ inv] ex held show ?thesis by metis
next
  case (DSubscribe qa q)
  with ex obtain sid w where w: "SubscribeToPacketReceived (Some (stun_callback (serverAddr q) (txID q))) (Some (packetChan q)) (net d) = (Inr sid, w)"
    "ts = [DSend qa q sid]" "d' = upd_net w d" by (auto split: dexec_splits dest!: Subscribe_new)
  show ?thesis
    by (rule subs_heldI [OF held]) (use udp_port.subscribe_entry [OF w(1)] w(2,3) DSubscribe in \<open>auto simp: upd_net_def\<close>)
next
  case (DSend qa q subID)
  with ex obtain e w where w: "SendPacketTo (network c) (serverAddr q) (binding_request (txID q)) (net d) = (e, w)"
    "\<exists>u. ts = [u] \<and> holds u = Some subID" "d' = upd_net w d" by (auto split: dexec_splits)
  show ?thesis
    by (rule subs_held_same [OF held]) (use udp_port.send_table [OF w(1)] w(2,3) DSend in \<open>auto\<close>)
next
  case (DWait qa q subID)
  with ex have "\<exists>u. ts = [u] \<and> holds u = Some subID" "sub_table (net d') = sub_table (net d)" "queries d' = queries d"
    by (auto simp: sub_table_def split: dexec_splits)
  with DWait show ?thesis by (intro subs_held_same [OF held]) auto
next
  case (DUnsubscribe qa subID r)
  with ex obtain e w where w: "UnsubscribeFromPacketReceived subID (net d) = (e, w)" "d' = upd_net w d"
    by (auto split: dexec_splits)
  show ?thesis
    by (rule subs_heldI [OF held]) (use udp_port.unsubscribe_entry [OF w(1)] w(2) DUnsubscribe in \<open>auto\<close>)
qed (rule subs_held_same [OF held]; use ex in \<open>auto split: dexec_splits\<close>)+

lemma set_public_value:
  assumes "client_ok (account d)"
  shows "client_ok (account (set_public a d)) \<and> public_value (account (set_public a d)) = Some a"
proof -
  let ?cl = "client_step (NewAddr (addr_IP a) (addr_Port a) (addr_Zone a)) (account d)"
  let ?p = "length (objs (cl_store (account d)))"
  have ok: "client_ok ?cl" using client_step_ok [OF assms] by blast
  have "?p \<in> set (cl_objs ?cl)" "addr_value (cl_store ?cl) ?p = a"
    by (simp_all add: client_step_def Let_def learn_def addr_value_def obj_value_def slice_bytes_def)
  then show ?thesis
    using client_step_ok [OF ok, of "SetAddr (Some ?p)"] by (simp add: set_public_def)
qed

lemma dexec_account_ok:
  assumes ex: "dexec resolves c t d = Some (Ret (ts, d'))" and ok: "dthread_ok resolves d t" "queries_ok resolves d"
    and acc: "account_ok resolves d"
  shows "account_ok resolves d'"
proof (cases "\<exists>qa a. t = DFound qa a")
  case True
  with ex ok(1) acc show ?thesis by (auto simp: account_ok_def set_public_value)
next
  case False
  with ex have "account d' = account d" by (cases t) (auto simp: Let_def split: dexec_splits)
  with acc show ?thesis
    using genuine_mono [OF _ dexec_grows [OF ex ok]] by (auto simp: account_ok_def dexec_disc(1) [OF ex])
qed

lemma query_all_returns_counted [simp]: "counted (query_all_returns qa)" "query_all_returns qa \<noteq> DStopBlocked"
  "query_all_returns qa \<noteq> DRelease" "holds (query_all_returns qa) = None"
  by (simp_all add: query_all_returns_def counted_def)

lemma counted_simps [simp]:
  "counted (DServer qa)" "counted (DSubscribe qa q)" "counted (DSend qa q sid)" "counted (DWait qa q sid)"
  "counted (DUnsubscribe qa sid r)" "counted (DFound qa a)" "counted (DTicker k)" "counted (DLoop k)" "counted DDone"
  "\<not> counted DRelease" "\<not> counted DStopWait" "\<not> counted DStopBlocked"
  by (simp_all add: counted_def)

lemma dexec_wg:
  assumes ex: "dexec resolves c t d = Some (Ret (ts, d'))"
    and wg: "wg_agrees (disc_wg (disc d)) (k + of_bool (counted t)) (b + of_bool (t = DStopBlocked)) (r + of_bool (t = DRelease))"
  shows "wg_agrees (disc_wg (disc d')) (k + length (filter counted ts)) (b + count (mset ts) DStopBlocked)
           (r + count (mset ts) DRelease)"
proof (cases "dctx t = None")
  case True
  then show ?thesis using ex wg
    by (cases t) (auto split: dexec_splits, (erule (1) wg_agrees_intros)+)
next
  case False
  with ex have "disc_wg (disc d') = disc_wg (disc d) \<and> (\<exists>u. ts = [u] \<and> counted u \<and> u \<noteq> DStopBlocked \<and> u \<noteq> DRelease)"
    by (cases t) (auto simp: Let_def split: dexec_splits)
  with wg False show ?thesis by (cases t) auto
qed

section \<open>Preservation\<close>

lemma disc_inv_wg:
  assumes "disc_inv orderly resolves srvs dur s" "dthreads s = add_mset t M"
  shows "wg_agrees (disc_wg (disc (dstate s))) (size (filter_mset counted M) + of_bool (counted t))
    (count M DStopBlocked + of_bool (t = DStopBlocked)) (count M DRelease + of_bool (t = DRelease))"
  using assms by (auto simp: disc_inv_def)

lemma drun_inv:
  assumes inv: "disc_inv orderly resolves srvs dur s" and t: "dthreads s = add_mset t M"
    and ex: "dexec resolves c t (dstate s) = Some (Ret (ts, d'))" and live: "ucrashed (port (dstate s)) = None"
  shows "disc_inv orderly resolves srvs dur (s\<lparr>dstate := d', dthreads := mset ts + M\<rparr>)"
proof -
  have ok: "dthread_ok resolves (dstate s) t" "queries_ok resolves (dstate s)" and acc: "account_ok resolves (dstate s)"
    and reach: "ureachable orderly (port (dstate s))" and held: "subs_held (dstate s) (add_mset t M)"
    and ctx: "\<And>k. dctx t = Some k \<Longrightarrow> ctx_ok (dstate s) k"
    using inv t by (simp_all add: disc_inv_def)
  note uinv = ureachable_inv [OF reach] and grow = dexec_grows [OF ex ok] and same = dexec_disc [OF ex]
  have "ureachable orderly (port d')"
    using dexec_port [OF ex ok, of orderly] reach ureachable.ulater [OF reach live] by auto
  moreover have "dthread_ok resolves d' u \<and> (\<forall>k. dctx u = Some k \<longrightarrow> ctx_ok d' k)" if u: "u \<in># mset ts + M" for u
  proof (cases "u \<in> set ts")
    case True
    then show ?thesis
      using dexec_threads_ok [OF ex ok uinv True] dexec_ctx [OF ex True] ctx_ok_mono [OF ctx same(3,4) grow] by blast
  next
    case False
    with u have "u \<in># dthreads s" using t by simp
    with inv have "dthread_ok resolves (dstate s) u" "\<forall>k. dctx u = Some k \<longrightarrow> ctx_ok (dstate s) k"
      by (simp_all add: disc_inv_def)
    then show ?thesis using dthread_ok_mono [OF _ same(1) grow same(5)] ctx_ok_mono [OF _ same(3,4) grow] by blast
  qed
  moreover have "wg_agrees (disc_wg (disc d')) (size (filter_mset counted (mset ts + M)))
      (count (mset ts + M) DStopBlocked) (count (mset ts + M) DRelease)"
    using dexec_wg [OF ex disc_inv_wg [OF inv t]] by (simp add: filter_mset_mset add.commute)
  ultimately show ?thesis
    using inv same(1,2) dexec_queries_ok [OF ex ok ureachable_hist [OF reach]] dexec_account_ok [OF ex ok acc]
      dexec_subs_held [OF ex uinv held]
    by (simp add: disc_inv_def)
qed

text \<open>A change of the state that adds at most a first move of a query, or a caller of
  \<^verbatim>\<open>Stop\<close>.\<close>

lemma disc_inv_call:
  assumes inv: "disc_inv orderly resolves srvs dur s"
    and reach: "ureachable orderly (port d')" and grow: "grows (net (dstate s)) (net d')"
    and same: "servers (disc d') = servers (disc (dstate s))" "interval (disc d') = interval (disc (dstate s))"
      "queries d' = queries (dstate s)"
    and acc: "client_ok (account d')" "\<And>a. public_value (account d') = Some a \<Longrightarrow> public_value (account (dstate s)) = Some a"
    and subs: "\<And>sub. sub \<in> set (drop (length (subscribed (net (dstate s)))) (subscribed (net d'))) \<Longrightarrow>
        sub_ch sub \<notin> packetChan ` set (queries (dstate s))"
    and table: "\<And>k sub. sub_table (net d') k = Some sub \<Longrightarrow> sub_table (net (dstate s)) k = Some sub
        \<or> sub_ch sub \<notin> packetChan ` set (queries (dstate s))"
    and ctx: "\<And>k. ctx_ok (dstate s) k \<Longrightarrow> ctx_ok d' k"
    and new: "\<And>u. u \<in> set ts \<Longrightarrow> dthread_ok resolves d' u \<and> (\<forall>k. dctx u = Some k \<longrightarrow> ctx_ok d' k)
        \<and> u \<noteq> DStopBlocked \<and> u \<noteq> DRelease"
    and wg: "\<And>n b r. wg_agrees (disc_wg (disc (dstate s))) n b r \<Longrightarrow> wg_agrees (disc_wg (disc d')) (n + length (filter counted ts)) b r"
  shows "disc_inv orderly resolves srvs dur (s\<lparr>dstate := d', dthreads := mset ts + dthreads s\<rparr>)"
proof -
  let ?d = "dstate s"
  have "prefix (subscribed (net ?d)) (subscribed (net d'))" using grow by (simp add: grows_def)
  then have "set (subscribed (net d')) = set (subscribed (net ?d)) \<union> set (drop (length (subscribed (net ?d))) (subscribed (net d')))"
    by (auto simp: prefix_def)
  then have "queries_ok resolves d'"
    using inv subs grow by (intro queries_ok_same [OF _ same(3,1)]) (auto simp: disc_inv_def grows_def)
  moreover have "account_ok resolves d'"
    using inv acc genuine_mono [OF _ grow] unfolding disc_inv_def account_ok_def same(1) by blast
  moreover have "subs_held d' (mset ts + dthreads s)"
    using inv table unfolding disc_inv_def subs_held_def same(3) by fastforce
  moreover have "dthread_ok resolves d' u \<and> (\<forall>k. dctx u = Some k \<longrightarrow> ctx_ok d' k)" if "u \<in># mset ts + dthreads s" for u
  proof (cases "u \<in> set ts")
    case False
    with that inv have "dthread_ok resolves ?d u" "\<forall>k. dctx u = Some k \<longrightarrow> ctx_ok ?d k" by (simp_all add: disc_inv_def)
    then show ?thesis using dthread_ok_mono [OF _ same(1) grow] ctx by (simp add: same(3))
  qed (use new in blast)
  moreover have none: "count (mset ts) DStopBlocked = 0" "count (mset ts) DRelease = 0" using new by (auto simp: count_mset_0)
  have "wg_agrees (disc_wg (disc d')) (size (filter_mset counted (dthreads s)) + length (filter counted ts))
      (count (dthreads s) DStopBlocked) (count (dthreads s) DRelease)"
    using inv wg by (simp add: disc_inv_def)
  then have "wg_agrees (disc_wg (disc d')) (size (filter_mset counted (mset ts + dthreads s)))
      (count (mset ts + dthreads s) DStopBlocked) (count (mset ts + dthreads s) DRelease)"
    unfolding filter_union_mset size_union filter_mset_mset count_union none by (simp add: add.commute)
  ultimately show ?thesis using inv reach same(1,2) by (simp add: disc_inv_def)
qed

lemma new_context_reachable:
  assumes "ureachable orderly u" "ucrashed u = None"
  shows "ureachable orderly (u\<lparr>world := (world u)\<lparr>contexts := contexts (world u) @ [b]\<rparr>\<rparr>)"
proof -
  let ?u = "u\<lparr>world := (world u)\<lparr>contexts := contexts (world u) @ [False]\<rparr>\<rparr>"
  have new: "ureachable orderly ?u" by (rule ureachable.ulater [OF assms ustep.unew_context])
  moreover have "ureachable orderly (?u\<lparr>world := cancel_context (length (contexts (world u))) (world ?u)\<rparr>)"
    by (rule ureachable.ulater [OF new _ ustep.ucancel]) (simp add: assms(2))
  ultimately show ?thesis by (cases b) (simp_all add: cancel_context_def)
qed

lemma start_disc_inv:
  assumes inv: "disc_inv orderly resolves srvs dur s" and live: "ucrashed (port (dstate s)) = None"
    and st: "StartDiscoverer ctx (dstate s) = Ret (err, ts, d')"
  shows "disc_inv orderly resolves srvs dur (s\<lparr>dstate := d', dthreads := mset ts + dthreads s\<rparr>)"
proof (cases "err = None")
  case False
  with st have "ts = []" "d' = dstate s" by (auto simp: StartDiscoverer_def Let_def split: if_splits go.splits)
  with inv show ?thesis by (simp add: disc_inv_def)
next
  case True
  let ?d = "dstate s"
  let ?k = "length (contexts (net ?d))"
  from True st obtain g where g: "wg_Add 1 (disc_wg (disc ?d)) = Ret g" and idle: "\<not> isRunning (disc ?d)"
    and ts: "ts = [DServer \<lparr>qa_ctx = ?k, qa_first = True, qa_rest = servers (disc ?d)\<rparr>]"
    and d': "d' = upd_disc_wg g (upd_net ((net ?d)\<lparr>contexts := contexts (net ?d) @ [contexts (net ?d) ! ctx]\<rparr>)
                      (?d\<lparr>disc := (disc ?d)\<lparr>isRunning := True, disc_cancel := Some ?k\<rparr>\<rparr>))"
    by (auto simp: StartDiscoverer_def Let_def split: if_splits go.splits)
  have reach: "ureachable orderly (port ?d)" and acc: "client_ok (account ?d)" using inv by (simp_all add: disc_inv_def account_ok_def)
  from g have add: "wg_Add (Suc 0) (disc_wg (disc ?d)) = Ret g" by simp
  show ?thesis
  proof (rule disc_inv_call [OF inv])
    show "ureachable orderly (port d')" using new_context_reachable [OF reach live] by (simp add: d' upd_net_def upd_disc_wg_def)
    show "wg_agrees (disc_wg (disc ?d)) n b r \<Longrightarrow> wg_agrees (disc_wg (disc d')) (n + length (filter counted ts)) b r" for n b r
      using wg_agrees_Add1 [OF add] by (simp add: d' ts)
  qed (use acc idle in \<open>auto simp: d' ts ctx_ok_def grows_def nth_append sub_table_def upd_net_def upd_disc_wg_def\<close>)
qed

lemma stop_disc_inv:
  assumes inv: "disc_inv orderly resolves srvs dur s" and live: "ucrashed (port (dstate s)) = None"
    and st: "StopDiscoverer (dstate s) = (ts, d')"
  shows "disc_inv orderly resolves srvs dur (s\<lparr>dstate := d', dthreads := mset ts + dthreads s\<rparr>)"
proof (cases "isRunning (disc (dstate s))")
  case False
  with st inv show ?thesis by (simp add: StopDiscoverer_def disc_inv_def)
next
  case True
  let ?d = "dstate s"
  from st True have ts: "ts = [DStopWait]" by (auto simp: StopDiscoverer_def Let_def)
  have reach: "ureachable orderly (port ?d)" and acc: "client_ok (account ?d)" using inv by (simp_all add: disc_inv_def account_ok_def)
  show ?thesis
  proof (cases "disc_cancel (disc ?d)")
    case None
    with st True have d': "d' = ?d\<lparr>disc := (disc ?d)\<lparr>isRunning := False\<rparr>\<rparr>" by (auto simp: StopDiscoverer_def Let_def)
    show ?thesis
      by (rule disc_inv_call [OF inv]) (use reach acc None in \<open>auto simp: d' ts ctx_ok_def\<close>)
  next
    case (Some k)
    with st True have d': "d' = upd_net (cancel_context k (net ?d)) (?d\<lparr>disc := (disc ?d)\<lparr>isRunning := False\<rparr>\<rparr>)"
      by (auto simp: StopDiscoverer_def Let_def upd_net_def)
    show ?thesis
    proof (rule disc_inv_call [OF inv])
      show "ureachable orderly (port d')" using ureachable.ulater [OF reach live ustep.ucancel] by (simp add: d')
    qed (use acc Some in \<open>auto simp: d' ts ctx_ok_def grows_def cancel_context_def sub_table_def nth_update_if\<close>)
  qed
qed

lemma listener_disc_inv:
  assumes inv: "disc_inv orderly resolves srvs dur s" and live: "ucrashed (port (dstate s)) = None"
    and st: "ustep orderly (port (dstate s)) u" and priv: "keeps_private (queries (dstate s)) (net (dstate s)) (world u)"
  shows "disc_inv orderly resolves srvs dur (s\<lparr>dstate := (dstate s)\<lparr>port := u\<rparr>\<rparr>)"
proof -
  let ?d' = "(dstate s)\<lparr>port := u\<rparr>"
  have reach: "ureachable orderly (port (dstate s))" and acc: "client_ok (account (dstate s))"
    using inv by (simp_all add: disc_inv_def account_ok_def)
  have grow: "grows (net (dstate s)) (world u)" by (rule ustep_grows [OF st])
  have "disc_inv orderly resolves srvs dur (s\<lparr>dstate := ?d', dthreads := mset [] + dthreads s\<rparr>)"
  proof (rule disc_inv_call [OF inv])
    show "ureachable orderly (port ?d')" using ureachable.ulater [OF reach live st] by simp
    show "ctx_ok ?d' k" if "ctx_ok (dstate s) k" for k using ctx_ok_mono [OF that, of ?d'] grow by simp
    show "sub_table (net (dstate s)) k = Some sub \<or> sub_ch sub \<notin> packetChan ` set (queries (dstate s))"
      if "sub_table (net ?d') k = Some sub" for k sub
      using ustep_table [OF st] that priv by (auto simp: keeps_private_def)
  qed (use grow acc priv in \<open>auto simp: keeps_private_def\<close>)
  then show ?thesis by simp
qed

lemma client_disc_inv:
  assumes inv: "disc_inv orderly resolves srvs dur s" and act: "\<And>a. act \<noteq> SetAddr a"
  shows "disc_inv orderly resolves srvs dur (s\<lparr>dstate := (dstate s)\<lparr>account := client_step act (account (dstate s))\<rparr>\<rparr>)"
proof -
  let ?d' = "(dstate s)\<lparr>account := client_step act (account (dstate s))\<rparr>"
  have reach: "ureachable orderly (port (dstate s))" and acc: "client_ok (account (dstate s))"
    using inv by (simp_all add: disc_inv_def account_ok_def)
  have "public_value (account ?d') = public_value (account (dstate s))"
    using client_step_ok [OF acc, of act] act by (cases act) (auto split: if_splits)
  then have "disc_inv orderly resolves srvs dur (s\<lparr>dstate := ?d', dthreads := mset [] + dthreads s\<rparr>)"
    using reach client_step_ok [OF acc, of act] by (intro disc_inv_call [OF inv]) (auto simp: ctx_ok_def)
  then show ?thesis by simp
qed

lemma dstep_inv:
  assumes "dstep orderly resolves s s'" "disc_inv orderly resolves srvs dur s" "ucrashed (port (dstate s)) = None"
  shows "disc_inv orderly resolves srvs dur s'"
  using assms
proof (induction rule: dstep.induct)
  case (drun s t M c ts d')
  then show ?case using drun_inv by blast
next
  case (dcrash t s c x)
  then show ?case by (simp add: disc_inv_def)
next
  case (dcall_start s ctx err ts d')
  then show ?case using start_disc_inv by blast
next
  case (dstart_crash s ctx x)
  then show ?case by (simp add: disc_inv_def)
next
  case (dcall_stop s ts d')
  then show ?case using stop_disc_inv by blast
next
  case (dlistener s u)
  then show ?case using listener_disc_inv by blast
next
  case (dclient act s)
  then show ?case using client_disc_inv by blast
qed

lemma dreachable_inv: "dreachable orderly resolves srvs dur s \<Longrightarrow> disc_inv orderly resolves srvs dur s"
proof (induction rule: dreachable.induct)
  case (dstarts taken_ports iden)
  show ?case
    using ureachable.uinit client_run_ok [of "[]" iden]
    by (auto simp: dinit_def disc_inv_def NewDiscoverer_def queries_ok_def account_ok_def subs_held_def client_run_def
        public_value_def new_client_def)
next
  case (dlater s s')
  then show ?case using dstep_inv by blast
qed

end
