(* ===== verification/StunProps.thy ===== *)
theory StunProps
  imports StunSafety
begin

text \<open>
  The properties of the discoverer running with its listener and identity: its panics, the origin of
  the address it publishes, the subscriptions its queries leave behind, and the end of a stopped
  discoverer.
\<close>

section \<open>Panics\<close>

text \<open>With a ticker interval that is not positive the loop never gets past making the ticker.\<close>

fun before_ticker :: "dthread \<Rightarrow> bool" where
  "before_ticker (DServer qa) = qa_first qa"
| "before_ticker (DSubscribe qa q) = qa_first qa"
| "before_ticker (DSend qa q subID) = qa_first qa"
| "before_ticker (DWait qa q subID) = qa_first qa"
| "before_ticker (DUnsubscribe qa subID r) = qa_first qa"
| "before_ticker (DFound qa a) = qa_first qa"
| "before_ticker (DLoop c) = False"
| "before_ticker DDone = False"
| "before_ticker DRelease = False"
| "before_ticker _ = True"

definition drest :: "bool \<Rightarrow> ('x, 'y) disc_system \<Rightarrow> bool" where
  "drest orderly s \<longleftrightarrow>
     (let g = disc_wg (disc (dstate s)); dur = interval (disc (dstate s)); srvs = servers (disc (dstate s))
      in (orderly \<longrightarrow> wg_sema g \<noteq> 0 \<longrightarrow> wg_count g = 0 \<and> wg_waiters g = 0)
         \<and> (dur \<le> 0 \<longrightarrow> wg_sema g = 0 \<and> (\<forall>t \<in># dthreads s. before_ticker t))
         \<and> (srvs = [] \<longrightarrow> dthreads s = {#} \<and> \<not> isRunning (disc (dstate s)) \<and> g = new_wg)
         \<and> (dcrashed s = None \<or> srvs \<noteq> [] \<and> dcrashed s = Some (if dur \<le> 0 then NonPositiveTicker else WaitGroupMisuse)
              \<and> (orderly \<longrightarrow> dur \<le> 0)))"

lemma parse_returns: "length p \<le> 65535 \<Longrightarrow> parseSTUNResponse p tx \<noteq> Panic x"
  using parse_panics_iff by force

lemma query_packet_short:
  assumes "udp_inv (port d)" "hist_ok (net d)" "queries_ok resolves d" "q \<in> set (queries d)"
    "p \<in> set (chan_buf (channels (net d) ! packetChan q))"
  shows "length p \<le> 65535"
  using query_packet [OF assms(1,3-5)] assms(2) by (auto simp: hist_ok_def)

lemma wait_returns:
  assumes "udp_inv (port d)" "hist_ok (net d)" "queries_ok resolves d" "dthread_ok resolves d (DWait qa q subID)"
  shows "dexec resolves c (DWait qa q subID) d \<noteq> Some (Panic x)"
proof -
  have "parseSTUNResponse p (txID q) \<noteq> Panic y" if "chan_recv (channels (net d) ! packetChan q) = Some (Some p, ch)" for p ch y
  proof -
    have "p \<in> set (chan_buf (channels (net d) ! packetChan q))" using gochan.recv_some that by fastforce
    from query_packet_short [OF assms(1-3) _ this] assms(4) show ?thesis by (intro parse_returns) simp
  qed
  then show ?thesis by (auto split: dexec_splits)
qed

lemma dexec_panic:
  assumes inv: "disc_inv orderly resolves srvs dur s" and rest: "drest orderly s" and t: "dthreads s = add_mset t M"
    and ex: "dexec resolves c t (dstate s) = Some (Panic x)"
  shows "srvs \<noteq> [] \<and> x = (if dur \<le> 0 then NonPositiveTicker else WaitGroupMisuse) \<and> (orderly \<longrightarrow> dur \<le> 0)"
proof -
  have reach: "ureachable orderly (port (dstate s))" and ok: "queries_ok resolves (dstate s)" "dthread_ok resolves (dstate s) t"
    and srvs: "servers (disc (dstate s)) = srvs" "interval (disc (dstate s)) = dur"
    using inv t by (simp_all add: disc_inv_def)
  have ne: "srvs \<noteq> []" using rest t srvs by (auto simp: drest_def Let_def)
  note wg = disc_inv_wg [OF inv t]
  show ?thesis
  proof (cases t)
    case (DTicker k)
    with ex ne srvs show ?thesis by (auto split: if_splits)
  next
    case (DWait qa q subID)
    with ex wait_returns [OF ureachable_inv [OF reach] ureachable_hist [OF reach] ok(1)] ok(2) show ?thesis by metis
  next
    case DDone
    with ex wg show ?thesis by (auto dest: wg_Done_counted split: go.splits prod.splits)
  next
    case DRelease
    with ex wg show ?thesis by (auto dest: wg_release_due split: go.splits)
  next
    case DStopBlocked
    with ex rest srvs ne show ?thesis
      by (auto simp: wg_woken_def drest_def Let_def split: if_splits)
  qed (use ex in \<open>auto simp: Let_def split: dexec_splits\<close>)
qed

lemma dexec_before_ticker:
  assumes "dexec resolves c t d = Some (Ret (ts, d'))" "before_ticker t" "interval (disc d) \<le> 0" "u \<in> set ts"
  shows "before_ticker u"
  using assms by (cases t) (auto simp: Let_def query_all_returns_def split: dexec_splits)

lemma dexec_sema:
  assumes "dexec resolves c t d = Some (Ret (ts, d'))"
  shows "before_ticker t \<Longrightarrow> wg_sema (disc_wg (disc d)) = 0 \<Longrightarrow> wg_sema (disc_wg (disc d')) = 0"
    and "wg_sema (disc_wg (disc d')) \<noteq> 0 \<Longrightarrow>
      (wg_sema (disc_wg (disc d)) \<noteq> 0 \<Longrightarrow> wg_count (disc_wg (disc d)) = 0 \<and> wg_waiters (disc_wg (disc d)) = 0) \<Longrightarrow>
      wg_count (disc_wg (disc d')) = 0 \<and> wg_waiters (disc_wg (disc d')) = 0"
proof -
  have same: "disc_wg (disc d') = disc_wg (disc d)" if "dctx t \<noteq> None"
    using assms that by (cases t) (auto simp: Let_def split: dexec_splits)
  show "before_ticker t \<Longrightarrow> wg_sema (disc_wg (disc d)) = 0 \<Longrightarrow> wg_sema (disc_wg (disc d')) = 0"
    using same assms by (cases "dctx t = None"; cases t) (auto simp: wg_Wait_def wg_woken_def split: if_splits)
  show "wg_sema (disc_wg (disc d')) \<noteq> 0 \<Longrightarrow>
      (wg_sema (disc_wg (disc d)) \<noteq> 0 \<Longrightarrow> wg_count (disc_wg (disc d)) = 0 \<and> wg_waiters (disc_wg (disc d)) = 0) \<Longrightarrow>
      wg_count (disc_wg (disc d')) = 0 \<and> wg_waiters (disc_wg (disc d')) = 0"
    using same assms
    by (cases "dctx t = None"; cases t)
      (auto simp: wg_Done_def wg_release_def wg_Wait_def wg_woken_def split: if_splits)
qed

lemma drun_rest:
  assumes rest: "drest orderly s" and t: "dthreads s = add_mset t M"
    and ex: "dexec resolves c t (dstate s) = Some (Ret (ts, d'))"
  shows "drest orderly (s\<lparr>dstate := d', dthreads := mset ts + M\<rparr>)"
proof -
  note same = dexec_disc [OF ex] and sema = dexec_sema [OF ex]
  have "servers (disc (dstate s)) \<noteq> []" using rest t by (auto simp: drest_def Let_def)
  moreover have "\<forall>u \<in># mset ts + M. before_ticker u" "wg_sema (disc_wg (disc d')) = 0" if "interval (disc (dstate s)) \<le> 0"
  proof -
    have "before_ticker t" "\<forall>u \<in># M. before_ticker u" "wg_sema (disc_wg (disc (dstate s))) = 0"
      using rest t that by (simp_all add: drest_def Let_def)
    then show "\<forall>u \<in># mset ts + M. before_ticker u" "wg_sema (disc_wg (disc d')) = 0"
      using dexec_before_ticker [OF ex _ that] sema(1) by auto
  qed
  moreover have "wg_count (disc_wg (disc d')) = 0 \<and> wg_waiters (disc_wg (disc d')) = 0"
    if "orderly" "wg_sema (disc_wg (disc d')) \<noteq> 0"
    by (rule sema(2) [OF that(2)]) (use rest that(1) in \<open>simp add: drest_def Let_def\<close>)
  ultimately show ?thesis
    using rest unfolding drest_def Let_def by (simp add: same(1,2))
qed

lemma start_rest:
  assumes inv: "disc_inv orderly resolves srvs dur s" and rest: "drest orderly s"
    and quiet: "orderly \<Longrightarrow> \<not> (\<exists>t \<in># dthreads s. dstops t)" and st: "StartDiscoverer ctx (dstate s) = Ret (err, ts, d')"
  shows "drest orderly (s\<lparr>dstate := d', dthreads := mset ts + dthreads s\<rparr>)"
proof (cases "err = None")
  case False
  with st have "ts = []" "d' = dstate s" by (auto simp: StartDiscoverer_def Let_def split: if_splits go.splits)
  with rest show ?thesis by (simp add: drest_def)
next
  case True
  let ?d = "dstate s"
  from True st obtain g where g: "wg_Add 1 (disc_wg (disc ?d)) = Ret g" and srvs: "servers (disc ?d) \<noteq> []"
    and ts: "ts = [DServer \<lparr>qa_ctx = length (contexts (net ?d)), qa_first = True, qa_rest = servers (disc ?d)\<rparr>]"
    and d': "disc d' = (disc ?d)\<lparr>isRunning := True, disc_cancel := Some (length (contexts (net ?d))), disc_wg := g\<rparr>"
    by (auto simp: StartDiscoverer_def Let_def split: if_splits go.splits)
  have sema: "wg_sema g = wg_sema (disc_wg (disc ?d))" using g by (auto simp: wg_Add_def split: if_splits)
  have "wg_sema g = 0" if orderly
  proof -
    have "count (dthreads s) DStopBlocked = 0" using quiet [OF that] by (auto simp: count_eq_zero_iff)
    with inv show ?thesis unfolding sema by (simp add: disc_inv_def wg_agrees_def)
  qed
  then show ?thesis using rest srvs by (auto simp: drest_def Let_def d' ts sema)
qed

lemma start_panic:
  assumes inv: "disc_inv orderly resolves srvs dur s" and rest: "drest orderly s"
    and quiet: "orderly \<Longrightarrow> \<not> (\<exists>t \<in># dthreads s. dstops t)" and st: "StartDiscoverer ctx (dstate s) = Panic x"
  shows "srvs \<noteq> [] \<and> x = (if dur \<le> 0 then NonPositiveTicker else WaitGroupMisuse) \<and> (orderly \<longrightarrow> dur \<le> 0)"
proof -
  let ?d = "dstate s"
  have panic: "wg_waiters (disc_wg (disc ?d)) \<noteq> 0" "wg_count (disc_wg (disc ?d)) = 0" "x = WaitGroupMisuse" "servers (disc ?d) \<noteq> []"
    using st by (auto simp: StartDiscoverer_def Let_def wg_Add_def split: if_splits)
  have agrees: "wg_agrees (disc_wg (disc ?d)) (size (filter_mset counted (dthreads s)))
      (count (dthreads s) DStopBlocked) (count (dthreads s) DRelease)"
    and const: "servers (disc ?d) = srvs" "interval (disc ?d) = dur" using inv by (simp_all add: disc_inv_def)
  have "count (dthreads s) DRelease = 1" using agrees panic by (auto simp: wg_agrees_def)
  then have "DRelease \<in># dthreads s" by (simp flip: count_greater_zero_iff)
  then have "\<not> dur \<le> 0" using rest const by (auto simp: drest_def Let_def)
  moreover have "\<not> orderly"
  proof
    assume orderly
    then have "count (dthreads s) DStopBlocked = 0" using quiet by (auto simp: count_eq_zero_iff)
    with agrees panic(1) show False by (simp add: wg_agrees_def)
  qed
  ultimately show ?thesis using panic(3,4) const by simp
qed

lemma dstep_rest:
  assumes "dstep orderly resolves s s'" "disc_inv orderly resolves srvs dur s" "drest orderly s"
  shows "drest orderly s'"
  using assms
proof (induction rule: dstep.induct)
  case (drun s t M c ts d')
  then show ?case using drun_rest by blast
next
  case (dcrash t s c x)
  then obtain M where M: "dthreads s = add_mset t M" by (blast dest: multi_member_split)
  show ?case
    using dexec_panic [OF dcrash.prems M dcrash.hyps(2)] dcrash.prems by (auto simp: drest_def Let_def disc_inv_def)
next
  case (dcall_start s ctx err ts d')
  then show ?case using start_rest by blast
next
  case (dstart_crash s ctx x)
  then show ?case using start_panic [OF dstart_crash.prems dstart_crash.hyps(1,3)] by (auto simp: drest_def Let_def disc_inv_def)
next
  case (dcall_stop s ts d')
  then show ?case
    by (auto simp: drest_def Let_def StopDiscoverer_def cancel_context_def split: if_splits option.splits)
next
  case (dlistener s u)
  then show ?case by (simp add: drest_def)
next
  case (dclient act s)
  then show ?case by (simp add: drest_def)
qed

lemma dreachable_rest: "dreachable orderly resolves srvs dur s \<Longrightarrow> drest orderly s"
proof (induction rule: dreachable.induct)
  case (dstarts taken_ports iden)
  show ?case by (simp add: dinit_def drest_def Let_def NewDiscoverer_def new_wg_def)
next
  case (dlater s s')
  then show ?case using dstep_rest dreachable_inv by blast
qed

section \<open>The end of a stopped discoverer\<close>

text \<open>The moves a goroutine has left under a cancelled context, apart from those after another tick
  of the ticker.\<close>

fun dweight :: "dthread \<Rightarrow> nat" where
  "dweight (DServer qa) = 5"
| "dweight (DSubscribe qa q) = 9"
| "dweight (DSend qa q subID) = 8"
| "dweight (DWait qa q subID) = 7"
| "dweight (DUnsubscribe qa subID r) = 6"
| "dweight (DFound qa a) = 5"
| "dweight (DTicker k) = 4"
| "dweight (DLoop k) = 3"
| "dweight DDone = 2"
| "dweight DRelease = 1"
| "dweight DStopWait = 2"
| "dweight DStopBlocked = 1"

definition disc_bound :: "('x, 'y) disc_system \<Rightarrow> nat" where
  "disc_bound s = (\<Sum>t\<in>#dthreads s. dweight t)"

definition is_tick :: "choice \<Rightarrow> dthread \<Rightarrow> bool" where
  "is_tick c t \<longleftrightarrow> (\<exists>k. t = DLoop k) \<and> selects c = BTimer"

lemma dweight_returns: "dweight (query_all_returns qa) \<le> 4"
  by (simp add: query_all_returns_def)

lemma dexec_weight:
  assumes "dexec resolves c t d = Some (Ret (ts, d'))" "\<not> isRunning (disc d)" "\<And>k. dctx t = Some k \<Longrightarrow> ctx_ok d k"
  shows "Suc (sum_list (map dweight ts)) \<le> dweight t + (if is_tick c t then 3 else 0)"
proof (cases t)
  case (DServer qa)
  then have "contexts (net d) ! qa_ctx qa" using assms(2,3) by (auto simp: ctx_ok_def)
  with assms(1) DServer have "ts = [query_all_returns qa]" by (auto split: list.splits)
  with dweight_returns [of qa] DServer show ?thesis by simp
next
  case (DFound qa a)
  with assms(1) dweight_returns [of qa] show ?thesis by auto
qed (use assms(1) in \<open>auto simp: is_tick_def split: dexec_splits\<close>)

text \<open>\<open>dschedule resolves s n k s'\<close>: \<open>n\<close> moves of goroutines, \<open>k\<close> of them ticks, lead
  from \<open>s\<close> to \<open>s'\<close>.\<close>

inductive dschedule :: "(string \<Rightarrow> UDPAddr \<Rightarrow> bool) \<Rightarrow> ('x, 'y) disc_system \<Rightarrow> nat \<Rightarrow> nat \<Rightarrow> ('x, 'y) disc_system \<Rightarrow> bool"
  for resolves s where
  dschedule_0: "dschedule resolves s 0 0 s"
| dschedule_Suc: "dschedule resolves s n k s' \<Longrightarrow> dthreads s' = add_mset t M \<Longrightarrow>
     dexec resolves c t (dstate s') = Some (Ret (ts, d')) \<Longrightarrow>
     dschedule resolves s (Suc n) (if is_tick c t then Suc k else k) (s'\<lparr>dstate := d', dthreads := mset ts + M\<rparr>)"

lemma drun_bound:
  assumes inv: "disc_inv orderly resolves srvs dur s" and stopped: "\<not> isRunning (disc (dstate s))"
    and t: "dthreads s = add_mset t M" and ex: "dexec resolves c t (dstate s) = Some (Ret (ts, d'))"
  shows "Suc (disc_bound (s\<lparr>dstate := d', dthreads := mset ts + M\<rparr>)) \<le> disc_bound s + (if is_tick c t then 3 else 0)"
proof -
  have "ctx_ok (dstate s) k" if "dctx t = Some k" for k using inv t that by (simp add: disc_inv_def)
  from dexec_weight [OF ex stopped this] show ?thesis
    by (simp add: disc_bound_def t sum_mset_sum_list split: if_splits flip: mset_map)
qed

lemma dexec_ucrashed: "dexec resolves c t d = Some (Ret (ts, d')) \<Longrightarrow> ucrashed (port d') = ucrashed (port d)"
  by (cases t) (auto simp: Let_def split: dexec_splits)

lemma dschedule_keeps:
  assumes "dschedule resolves s n k s'" "dreachable orderly resolves srvs dur s" "dcrashed s = None"
    "ucrashed (port (dstate s)) = None" "\<not> isRunning (disc (dstate s))"
  shows "dreachable orderly resolves srvs dur s' \<and> dcrashed s' = None \<and> ucrashed (port (dstate s')) = None
    \<and> \<not> isRunning (disc (dstate s')) \<and> n + disc_bound s' \<le> disc_bound s + 3 * k"
  using assms
proof (induction rule: dschedule.induct)
  case (dschedule_Suc n k s' t M c ts d')
  then have IH: "dreachable orderly resolves srvs dur s'" "dcrashed s' = None" "ucrashed (port (dstate s')) = None"
    "\<not> isRunning (disc (dstate s'))" "n + disc_bound s' \<le> disc_bound s + 3 * k" by simp_all
  note next_reach = dreachable.dlater [OF IH(1-3) dstep.drun [OF dschedule_Suc.hyps(2,3)]]
  show ?case
    using IH next_reach drun_bound [OF dreachable_inv [OF IH(1)] IH(4) dschedule_Suc.hyps(2,3)]
      dexec_disc(3) [OF dschedule_Suc.hyps(3)] dexec_ucrashed [OF dschedule_Suc.hyps(3)] by (auto split: if_splits)
qed simp

text \<open>A choice under which every goroutine with a cancelled context can move, without a tick.\<close>

definition give_up :: choice where
  "give_up = \<lparr>resolved = None, random = None, selects = BDone, network = (\<lambda>_ _. False)\<rparr>"

lemma give_up_blocked:
  assumes "dexec resolves give_up t d = None" "\<not> isRunning (disc d)" "\<And>k. dctx t = Some k \<Longrightarrow> ctx_ok d k"
  shows "t = DStopBlocked \<and> wg_woken (disc_wg (disc d)) = None"
  using assms by (cases t) (auto simp: give_up_def ctx_ok_def split: dexec_splits)

lemma dprogress:
  assumes inv: "disc_inv orderly resolves srvs dur s" and stopped: "\<not> isRunning (disc (dstate s))"
    and left: "dthreads s \<noteq> {#}"
  shows "\<exists>t \<in># dthreads s. dexec resolves give_up t (dstate s) \<noteq> None"
proof (rule ccontr)
  assume stuck: "\<not> ?thesis"
  have all: "t = DStopBlocked" "wg_woken (disc_wg (disc (dstate s))) = None" if "t \<in># dthreads s" for t
    using give_up_blocked [OF _ stopped, of resolves t] stuck that inv by (auto simp: disc_inv_def)
  have "wg_agrees (disc_wg (disc (dstate s))) (size (filter_mset counted (dthreads s)))
      (count (dthreads s) DStopBlocked) (count (dthreads s) DRelease)" using inv by (simp add: disc_inv_def)
  from wg_no_deadlock [OF this left] all show False by auto
qed

end
