(* ===== verification/StunRuns.thy ===== *)
theory StunRuns
  imports StunProps
begin

text \<open>
  Concrete runs of the discoverer with its listener, by an executable driver whose states are
  reachable, and the properties of the discoverer that refer to them.
\<close>

section \<open>A driver\<close>

type_synonym ('x, 'y) dconfig = "('x, 'y) discovery \<times> uthread list \<times> dthread list"

datatype dmove =
    DGo nat choice
  | CallStartDisc nat
  | CallStopDisc
  | Listener umove

definition with_port :: "udp_world \<Rightarrow> uthread list \<Rightarrow> ('x, 'y) discovery \<Rightarrow> ('x, 'y) discovery" where
  "with_port w us d = d\<lparr>port := \<lparr>world = w, uthreads = mset us, ucrashed = None\<rparr>\<rparr>"

fun dmove1 :: "bool \<Rightarrow> (string \<Rightarrow> UDPAddr \<Rightarrow> bool) \<Rightarrow> dmove \<Rightarrow> ('x, 'y) dconfig \<Rightarrow> ('x, 'y) dconfig option" where
  "dmove1 orderly resolves (DGo i c) (d, us, ts) =
     (if i < length ts
      then case dexec resolves c (ts ! i) d of
             Some (Ret (ts', d')) \<Rightarrow> Some (d', us, take i ts @ ts' @ drop (Suc i) ts)
           | _ \<Rightarrow> None
      else None)"
| "dmove1 orderly resolves (CallStartDisc ctx) (d, us, ts) =
     (if orderly \<and> list_ex dstops ts \<or> \<not> ctx < length (contexts (net d)) then None
      else case StartDiscoverer ctx d of
             Panic x \<Rightarrow> None
           | Ret (err, ts', d') \<Rightarrow> Some (d', us, ts @ ts'))"
| "dmove1 orderly resolves CallStopDisc (d, us, ts) =
     (case StopDiscoverer d of (ts', d') \<Rightarrow> Some (d', us, ts @ ts'))"
| "dmove1 orderly resolves (Listener m) (d, us, ts) =
     (case umove1 orderly m (net d, us) of
        None \<Rightarrow> None
      | Some (w, us') \<Rightarrow> if keeps_private (queries d) (net d) w then Some (with_port w us' d, us', ts) else None)"

fun ddrive :: "bool \<Rightarrow> (string \<Rightarrow> UDPAddr \<Rightarrow> bool) \<Rightarrow> dmove list \<Rightarrow> ('x, 'y) dconfig \<Rightarrow> ('x, 'y) dconfig option" where
  "ddrive orderly resolves [] cfg = Some cfg"
| "ddrive orderly resolves (x # xs) cfg =
     (case dmove1 orderly resolves x cfg of None \<Rightarrow> None | Some cfg' \<Rightarrow> ddrive orderly resolves xs cfg')"

text \<open>The port of the state is that of the thread list.\<close>

definition port_agrees :: "('x, 'y) discovery \<Rightarrow> uthread list \<Rightarrow> bool" where
  "port_agrees d us \<longleftrightarrow> uthreads (port d) = mset us \<and> ucrashed (port d) = None"

fun dsystem_of :: "('x, 'y) dconfig \<Rightarrow> ('x, 'y) disc_system" where
  "dsystem_of (d, us, ts) = \<lparr>dstate = d, dthreads = mset ts, dcrashed = None\<rparr>"

lemma dexec_uthreads: "dexec resolves c t d = Some (Ret (ts, d')) \<Longrightarrow> uthreads (port d') = uthreads (port d)"
  by (cases t) (auto simp: Let_def split: dexec_splits)

lemma start_stop_port:
  "StartDiscoverer ctx d = Ret (err, ts, d') \<Longrightarrow> uthreads (port d') = uthreads (port d) \<and> ucrashed (port d') = ucrashed (port d)"
  "StopDiscoverer d = (ts, d') \<Longrightarrow> uthreads (port d') = uthreads (port d) \<and> ucrashed (port d') = ucrashed (port d)"
  by (auto simp: StartDiscoverer_def StopDiscoverer_def Let_def split: if_splits go.splits option.splits)

lemma dmove1_step:
  assumes mv: "dmove1 orderly resolves x (d, us, ts) = Some (d', us', ts')" and port: "port_agrees d us"
  shows "dstep orderly resolves (dsystem_of (d, us, ts)) (dsystem_of (d', us', ts')) \<and> port_agrees d' us'"
proof -
  let ?s = "dsystem_of (d, us, ts)"
  show ?thesis
  proof (cases x)
    case (DGo i c)
    with mv obtain new where i: "i < length ts" and ex: "dexec resolves c (ts ! i) d = Some (Ret (new, d'))"
      and cfg: "us' = us" "ts' = take i ts @ new @ drop (Suc i) ts"
      by (auto split: if_splits option.splits go.splits)
    have "mset ts = mset (take i ts @ ts ! i # drop (Suc i) ts)" using i by (simp add: id_take_nth_drop [symmetric])
    then have "dthreads ?s = add_mset (ts ! i) (mset (take i ts) + mset (drop (Suc i) ts))" by simp
    from dstep.drun [OF this, of resolves c new d'] ex show ?thesis
      using port dexec_uthreads [OF ex] dexec_ucrashed [OF ex] by (simp add: cfg ac_simps port_agrees_def)
  next
    case (CallStartDisc ctx)
    with mv obtain err new where st: "StartDiscoverer ctx d = Ret (err, new, d')" and cfg: "us' = us" "ts' = ts @ new"
      and ctx: "ctx < length (contexts (net (dstate ?s)))" and quiet: "orderly \<Longrightarrow> \<not> (\<exists>t \<in># dthreads ?s. dstops t)"
      by (auto simp: list_ex_iff split: if_splits go.splits)
    from st have "StartDiscoverer ctx (dstate ?s) = Ret (err, new, d')" by simp
    from dstep.dcall_start [OF quiet ctx this] show ?thesis
      using port start_stop_port(1) [OF st] by (simp add: cfg ac_simps port_agrees_def)
  next
    case CallStopDisc
    with mv obtain new where st: "StopDiscoverer d = (new, d')" and cfg: "us' = us" "ts' = ts @ new"
      by (auto split: prod.splits)
    from dstep.dcall_stop [of ?s new d' orderly resolves] st show ?thesis
      using port start_stop_port(2) [OF st] by (simp add: cfg ac_simps port_agrees_def)
  next
    case (Listener m)
    with mv obtain w where um: "umove1 orderly m (net d, us) = Some (w, us')" and priv: "keeps_private (queries d) (net d) w"
      and cfg: "d' = with_port w us' d" "ts' = ts"
      by (auto split: option.splits if_splits)
    have "usystem_of (net d, us) = port d" using port by (simp add: port_agrees_def)
    with umove1_step [OF um] have "ustep orderly (port (dstate ?s)) (usystem_of (w, us'))" by simp
    from dstep.dlistener [OF this] priv show ?thesis by (simp add: cfg with_port_def port_agrees_def)
  qed
qed

lemma ddrive_reachable:
  assumes "dreachable orderly resolves srvs dur (dsystem_of (d, us, ts))" "port_agrees d us"
    "ddrive orderly resolves xs (d, us, ts) = Some cfg'"
  shows "dreachable orderly resolves srvs dur (dsystem_of cfg') \<and> dcrashed (dsystem_of cfg') = None
    \<and> ucrashed (port (dstate (dsystem_of cfg'))) = None"
  using assms
proof (induction xs arbitrary: d us ts)
  case Nil
  then show ?case by (auto simp: port_agrees_def)
next
  case (Cons x xs)
  from Cons.prems(3) obtain d1 us1 ts1 where c1: "dmove1 orderly resolves x (d, us, ts) = Some (d1, us1, ts1)"
    "ddrive orderly resolves xs (d1, us1, ts1) = Some cfg'"
    by (auto split: option.splits)
  note st = dmove1_step [OF c1(1) Cons.prems(2)]
  have "dreachable orderly resolves srvs dur (dsystem_of (d1, us1, ts1))"
    by (rule dreachable.dlater [OF Cons.prems(1) _ _ st [THEN conjunct1]]) (use Cons.prems(2) in \<open>simp_all add: port_agrees_def\<close>)
  with Cons.IH st c1(2) show ?case by blast
qed

definition dfresh :: "string list \<Rightarrow> int \<Rightarrow> ('x, 'y) Identity \<Rightarrow> ('x, 'y) dconfig" where
  "dfresh srvs dur iden = (dstate (dinit (\<lambda>_. False) srvs dur iden), [], [])"

definition drun_of :: "bool \<Rightarrow> (string \<Rightarrow> UDPAddr \<Rightarrow> bool) \<Rightarrow> string list \<Rightarrow> int \<Rightarrow> ('x, 'y) Identity \<Rightarrow> dmove list \<Rightarrow> ('x, 'y) disc_system" where
  "drun_of orderly resolves srvs dur iden xs =
     (case ddrive orderly resolves xs (dfresh srvs dur iden) of
        None \<Rightarrow> dsystem_of (dfresh srvs dur iden)
      | Some cfg \<Rightarrow> dsystem_of cfg)"

lemma drun_of_reachable:
  "dreachable orderly resolves srvs dur (drun_of orderly resolves srvs dur iden xs)"
  "dcrashed (drun_of orderly resolves srvs dur iden xs) = None"
  "ucrashed (port (dstate (drun_of orderly resolves srvs dur iden xs))) = None"
proof -
  have start: "dreachable orderly resolves srvs dur (dsystem_of (dfresh srvs dur iden))"
    using dreachable.dstarts [of orderly resolves srvs dur "\<lambda>_. False" iden] by (simp add: dfresh_def dinit_def)
  have agrees: "port_agrees (dstate (dinit (\<lambda>_. False) srvs dur iden)) []"
    by (simp add: dinit_def port_agrees_def ustart_def)
  show "dreachable orderly resolves srvs dur (drun_of orderly resolves srvs dur iden xs)"
    "dcrashed (drun_of orderly resolves srvs dur iden xs) = None"
    "ucrashed (port (dstate (drun_of orderly resolves srvs dur iden xs))) = None"
    using start agrees ddrive_reachable [OF start [unfolded dfresh_def] agrees]
    by (auto simp: drun_of_def dfresh_def port_agrees_def split: option.splits)
qed

section \<open>Runs\<close>

text \<open>A server that answers, and its answer to a query.\<close>

definition stun_tx :: bytes where
  "stun_tx = replicate 12 7"

definition public_addr :: UDPAddr where
  "public_addr = udp_addr [192, 0, 2, 1] 5555"

definition answer :: bytes where
  "answer = encode_response stun_tx [(0x0020, encode_xor_address stun_tx [192, 0, 2, 1] 5555)]"

definition one_server :: "string \<Rightarrow> UDPAddr \<Rightarrow> bool" where
  "one_server server a \<longleftrightarrow> a = peer"

lemma answer_facts:
  "length answer = 32" "Uint32 (slice 4 8 answer) = magicCookie" "slice 8 20 answer = stun_tx"
  "parseSTUNResponse answer stun_tx = Ret (Inr public_addr)"
  "length stun_tx = 12"
  by code_simp+

lemma answer_accepted: "stun_callback peer stun_tx peer answer"
  by (simp add: stun_callback_def answer_facts)

lemma answer_fits: "take 65535 answer = answer"
  by (simp add: answer_facts)

definition choosing :: "branch \<Rightarrow> choice" where
  "choosing b = \<lparr>resolved = Some peer, random = Some stun_tx, selects = b, network = (\<lambda>_ _. True)\<rparr>"

text \<open>The listener runs, a query is made and answered, and the address is published.\<close>

definition asked_run :: "dmove list" where
  "asked_run = [Listener NewContext, Listener (CallStart 0 7), Listener (UGo 0), Listener (UGo 0), CallStartDisc 0,
     DGo 0 (choosing BDone), DGo 0 (choosing BDone), DGo 0 (choosing BDone)]"

definition answered_run :: "dmove list" where
  "answered_run = asked_run @ [Listener (Arrives 0 peer answer), Listener (UGo 0), Listener (UGo 0), Listener (UGo 0),
     DGo 0 (choosing BPacket), DGo 0 (choosing BDone), DGo 0 (choosing BDone)]"

text \<open>A query is under way when \<^verbatim>\<open>Stop\<close> is called.\<close>

definition stopping_query :: "dmove list" where
  "stopping_query = asked_run @ [CallStopDisc, DGo 1 (choosing BDone)]"

lemma new_client_ok: "client_ok (new_client iden)"
  using client_run_ok [of "[]" iden] by (simp add: client_run_def)

lemmas drun_simps = drun_of_def dfresh_def dinit_def ustart_def NewUDPListener_def NewDiscoverer_def StartListener_def
  ListenUDP_def upd_wg_def ReadFromUDP_def Let_def new_wg_def wg_Add_def wg_Wait_def wg_Done_def wg_release_def wg_woken_def
  StartDiscoverer_def StopDiscoverer_def cancel_context_def
  upd_net_def upd_disc_wg_def choosing_def one_server_def
  SubscribeToPacketReceived_def SendPacketTo_def UnsubscribeFromPacketReceived_def make_chan_def try_send_def chan_recv_def
  keeps_private_def with_port_def answer_accepted answer_fits answer_facts(4,5) query_all_returns_def give_up_def

lemma answered_run_end:
  "public_value (account (dstate (drun_of b one_server [''s''] 30 iden answered_run))) = Some public_addr"
  "dthreads (drun_of b one_server [''s''] 30 iden answered_run) = {#DTicker 2#}"
  by (simp_all add: answered_run_def asked_run_def drun_simps set_public_value new_client_ok)

lemma asked_run_end:
  "dthreads (drun_of b one_server [''s''] 30 iden asked_run) =
     {#DWait \<lparr>qa_ctx = 2, qa_first = True, qa_rest = []\<rparr> \<lparr>serverAddr = peer, txID = stun_tx, packetChan = 0\<rparr> 1#}"
  "sub_table (net (dstate (drun_of b one_server [''s''] 30 iden asked_run))) =
     [1 \<mapsto> \<lparr>sub_callback = stun_callback peer stun_tx, sub_ch = 0\<rparr>]"
  "queries (dstate (drun_of b one_server [''s''] 30 iden asked_run)) =
     [\<lparr>serverAddr = peer, txID = stun_tx, packetChan = 0\<rparr>]"
  by (simp_all add: asked_run_def drun_simps sub_table_def numeral_eq_Suc fun_eq_iff)

lemma stopping_query_end:
  "DStopBlocked \<in># dthreads (drun_of b one_server [''s''] 30 iden stopping_query)"
  "isRunning (disc (dstate (drun_of b one_server [''s''] 30 iden stopping_query))) = False"
  by (simp_all add: stopping_query_def asked_run_def drun_simps)

definition example_run :: "dmove list \<Rightarrow> (unit, unit) disc_system" where
  "example_run xs = drun_of True one_server [''s''] 30
     \<lparr>publicAddr = None, x25519Priv = (), x25519Pub = (), ed25519Priv = [], ed25519Pub = []\<rparr> xs"

text \<open>The two panics, for any list of servers: the context is cancelled at once, so that no query is
  made.\<close>

lemma ticker_crash:
  fixes iden :: "('x, 'y) Identity"
  assumes "srvs \<noteq> []" "dur \<le> 0"
  shows "\<exists>s :: ('x, 'y) disc_system. dreachable orderly resolves srvs dur s \<and> dcrashed s = Some NonPositiveTicker"
proof -
  let ?s = "drun_of orderly resolves srvs dur iden [Listener NewContext, CallStartDisc 0, CallStopDisc, DGo 0 give_up]"
  obtain server rest where "srvs = server # rest" using assms(1) by (cases srvs) auto
  then have "DTicker 1 \<in># dthreads ?s" "dexec resolves give_up (DTicker 1) (dstate ?s) = Some (Panic NonPositiveTicker)"
    using assms(2) by (simp_all add: drun_simps)
  from dreachable.dlater [OF drun_of_reachable dstep.dcrash [OF this]] show ?thesis by fastforce
qed

lemma restart_disc_crash:
  fixes iden :: "('x, 'y) Identity"
  assumes "srvs \<noteq> []" "0 < dur"
  shows "\<exists>s :: ('x, 'y) disc_system. dreachable False resolves srvs dur s \<and> dcrashed s = Some WaitGroupMisuse"
proof -
  let ?s = "drun_of False resolves srvs dur iden [Listener NewContext, CallStartDisc 0, CallStopDisc, DGo 0 give_up,
    DGo 0 give_up, DGo 1 give_up, DGo 0 give_up, DGo 0 give_up]"
  obtain server rest where "srvs = server # rest" using assms(1) by (cases srvs) auto
  then have "0 < length (contexts (net (dstate ?s)))" "StartDiscoverer 0 (dstate ?s) = Panic WaitGroupMisuse"
    using assms(2) by (simp_all add: drun_simps)
  from dreachable.dlater [OF drun_of_reachable dstep.dstart_crash [OF _ this]] show ?thesis by fastforce
qed

section \<open>Properties\<close>

text \<open>
  C7: the panics of the discoverer together with its listener, exactly. With a positive interval and
  callers that do not start it while a \<open>Stop\<close> is under way it never panics; in particular no
  packet from the network can make the response parser panic, because what the listener reads is too
  short for the 16-bit overflow in the parser. An interval that is not positive makes the ticker
  panic, and a start that overtakes a stop makes the wait group panic; without servers nothing runs.
\<close>

theorem discoverer_panics_iff:
  "(\<exists>s :: ('x, 'y) disc_system. dreachable orderly resolves srvs dur s \<and> dcrashed s = Some x) \<longleftrightarrow>
     srvs \<noteq> [] \<and> (if dur \<le> 0 then x = NonPositiveTicker else \<not> orderly \<and> x = WaitGroupMisuse)"
proof
  assume "\<exists>s :: ('x, 'y) disc_system. dreachable orderly resolves srvs dur s \<and> dcrashed s = Some x"
  then obtain s :: "('x, 'y) disc_system" where s: "dreachable orderly resolves srvs dur s" "dcrashed s = Some x" by blast
  then show "srvs \<noteq> [] \<and> (if dur \<le> 0 then x = NonPositiveTicker else \<not> orderly \<and> x = WaitGroupMisuse)"
    using dreachable_rest [OF s(1)] dreachable_inv [OF s(1)] by (auto simp: drest_def Let_def disc_inv_def split: if_splits)
next
  assume "srvs \<noteq> [] \<and> (if dur \<le> 0 then x = NonPositiveTicker else \<not> orderly \<and> x = WaitGroupMisuse)"
  then show "\<exists>s :: ('x, 'y) disc_system. dreachable orderly resolves srvs dur s \<and> dcrashed s = Some x"
    using ticker_crash [of srvs dur orderly resolves] restart_disc_crash [of srvs dur resolves] by (auto split: if_splits)
qed

text \<open>
  C5: the published address is genuine. Under every interleaving of the discoverer, the listener, its
  other subscribers and the other users of the identity, an address in the identity is what the
  parser makes of a packet that came from the address and port of a configured server, with the
  transaction id of a binding request that had been sent to that server.
\<close>

theorem public_addr_genuine:
  assumes "dreachable orderly resolves srvs dur s" "public_value (account (dstate s)) = Some a"
  shows "\<exists>server srv tx src p. server \<in> set srvs \<and> resolves server srv \<and> length tx = 12
    \<and> (srv, binding_request tx) \<in> set (outbox (net (dstate s))) \<and> (src, p) \<in> set (received (net (dstate s)))
    \<and> canon_ip (addr_IP src) = canon_ip (addr_IP srv) \<and> addr_Port src = addr_Port srv
    \<and> slice 8 20 p = tx \<and> parseSTUNResponse p tx = Ret (Inr a)"
proof -
  have "genuine resolves srvs (net (dstate s)) a"
    using dreachable_inv [OF assms(1)] assms(2) by (auto simp: disc_inv_def account_ok_def)
  then show ?thesis unfolding genuine_def stun_callback_iff by blast
qed

theorem public_addr_genuine_witness:
  "public_value (account (dstate (example_run answered_run))) = Some public_addr
   \<and> (\<exists>server srv tx src p. server \<in> set [''s''] \<and> one_server server srv \<and> length tx = 12
      \<and> (srv, binding_request tx) \<in> set (outbox (net (dstate (example_run answered_run))))
      \<and> (src, p) \<in> set (received (net (dstate (example_run answered_run))))
      \<and> canon_ip (addr_IP src) = canon_ip (addr_IP srv) \<and> addr_Port src = addr_Port srv
      \<and> slice 8 20 p = tx \<and> parseSTUNResponse p tx = Ret (Inr public_addr))"
  unfolding example_run_def
  by (rule conjI [OF answered_run_end(1) public_addr_genuine [OF drun_of_reachable(1) answered_run_end(1)]])

text \<open>
  C21: queries leave no subscription behind. A subscription in the listener's table with the channel
  of a query is held by a goroutine of that discoverer that is still going to remove it; so between
  queries, and after a stop, the table has none, whatever errors, timeouts and cancellations occurred.
\<close>

theorem query_subscription_held:
  assumes "dreachable orderly resolves srvs dur s" "sub_table (net (dstate s)) k = Some sub" "q \<in> set (queries (dstate s))"
    "sub_ch sub = packetChan q"
  shows "\<exists>t \<in># dthreads s. holds t = Some k"
  using dreachable_inv [OF assms(1)] assms(2-4) by (auto simp: disc_inv_def subs_held_def)

theorem query_subscription_held_witness:
  "sub_table (net (dstate (example_run asked_run))) 1 = Some \<lparr>sub_callback = stun_callback peer stun_tx, sub_ch = 0\<rparr>
   \<and> (\<exists>t \<in># dthreads (example_run asked_run). holds t = Some 1)"
proof -
  have sub: "sub_table (net (dstate (example_run asked_run))) 1 = Some \<lparr>sub_callback = stun_callback peer stun_tx, sub_ch = 0\<rparr>"
    by (simp add: example_run_def asked_run_end)
  from query_subscription_held [OF drun_of_reachable(1) this [unfolded example_run_def]]
  have "\<exists>t \<in># dthreads (example_run asked_run). holds t = Some 1" by (simp add: example_run_def asked_run_end)
  with sub show ?thesis ..
qed

text \<open>
  C13: a stopped discoverer comes to rest. Once it is not running, a schedule of its goroutines with
  \<open>k\<close> ticks of the ticker is at most \<open>disc_bound\<close> plus \<open>3 * k\<close> moves long, and as long as
  a goroutine is left one of them can move without another tick: queries under way are given up, the
  loop ends and \<open>Stop\<close> returns.
\<close>

theorem stop_discoverer_terminates:
  assumes "dreachable True resolves srvs dur s" "0 < dur" "\<not> isRunning (disc (dstate s))" "dschedule resolves s n k s'"
  shows "n \<le> disc_bound s + 3 * k \<and> (dthreads s' = {#} \<or> (\<exists>s''. dschedule resolves s (Suc n) k s''))"
proof -
  have "interval (disc (dstate s)) = dur" using dreachable_inv [OF assms(1)] by (simp add: disc_inv_def)
  then have up: "dcrashed s = None" using dreachable_rest [OF assms(1)] assms(2) by (auto simp: drest_def Let_def)
  have "ureachable True (port (dstate s))" using dreachable_inv [OF assms(1)] by (simp add: disc_inv_def)
  then have "ucrashed (port (dstate s)) = None" using ureachable_rest by (fastforce simp: urest_def)
  note keeps = dschedule_keeps [OF assms(4,1) up this assms(3)]
  then have s': "disc_inv True resolves srvs dur s'" "drest True s'" "\<not> isRunning (disc (dstate s'))"
    using dreachable_inv dreachable_rest by auto
  have "\<exists>s''. dschedule resolves s (Suc n) k s''" if "dthreads s' \<noteq> {#}"
  proof -
    have "\<exists>t \<in># dthreads s'. dexec resolves give_up t (dstate s') \<noteq> None" by (rule dprogress [OF s'(1,3) that])
    then obtain t r where t: "t \<in># dthreads s'" "dexec resolves give_up t (dstate s') = Some r" by blast
    then obtain M where M: "dthreads s' = add_mset t M" by (blast dest: multi_member_split)
    from dexec_panic [OF s'(1,2) M] t(2) assms(2) obtain ts d' where "dexec resolves give_up t (dstate s') = Some (Ret (ts, d'))"
      by (cases r) auto
    from dschedule.dschedule_Suc [OF assms(4) M this] show ?thesis by (auto simp: is_tick_def give_up_def)
  qed
  with keeps show ?thesis by auto
qed

theorem stop_discoverer_terminates_witness:
  "DStopBlocked \<in># dthreads (example_run stopping_query)
   \<and> (0 \<le> disc_bound (example_run stopping_query) + 3 * 0
      \<and> (dthreads (example_run stopping_query) = {#} \<or> (\<exists>s''. dschedule one_server (example_run stopping_query) (Suc 0) 0 s'')))"
  unfolding example_run_def
  by (rule conjI [OF stopping_query_end(1) stop_discoverer_terminates [OF drun_of_reachable(1) _ _
        dschedule.dschedule_0]]) (simp_all add: stopping_query_end)

end
