(* ===== verification/IpcListener.thy ===== *)
theory IpcListener
  imports Prelude "HOL-Library.Multiset"
begin

text \<open>
  The local listeners of \<^verbatim>\<open>src/ipc/listener_unix.go\<close> and
  \<^verbatim>\<open>src/ipc/listener_windows.go\<close>. The Unix listener works on a file system and the
  endpoints of all processes of the machine; the Windows listener works on the operations of the
  package \<^verbatim>\<open>go-winio\<close>, which are an argument. Both implement the interface of
  \<open>local_listener\<close>, what a caller of \<^verbatim>\<open>IIpcListener\<close> relies on. The Unix listener is then
  run with its goroutines: one watcher of the context per successful start, and the callers of
  \<^verbatim>\<open>Accept\<close>.
\<close>

section \<open>The machine\<close>

text \<open>What a path names: a regular file, a directory (empty or not), or the socket of an
  endpoint.\<close>

datatype node =
    RegularFile
  | Directory bool
  | SocketFile nat

record endpoint =
  ep_open :: bool
  ep_queue :: "nat list"

text \<open>\<open>fixed\<close> holds of a path whose directory does not exist or does not let the process
  change the entry; \<open>ctx_cancelled\<close> are the contexts, numbered.\<close>

record machine =
  files :: "string \<Rightarrow> node option"
  fixed :: "string \<Rightarrow> bool"
  endpoints :: "endpoint list"
  ctx_cancelled :: "bool list"

datatype remove_error = NotExist | Denied | NotEmpty

text \<open>\<^verbatim>\<open>os.Remove\<close>: files and empty directories.\<close>

definition os_Remove :: "string \<Rightarrow> machine \<Rightarrow> remove_error option \<times> machine" where
  "os_Remove path w =
     (case files w path of
        None \<Rightarrow> (Some NotExist, w)
      | Some n \<Rightarrow>
          if fixed w path then (Some Denied, w)
          else if n = Directory False then (Some NotEmpty, w)
          else (None, w\<lparr>files := (files w)(path := None)\<rparr>))"

text \<open>\<^verbatim>\<open>net.Listen("unix", path)\<close>: it makes the socket file, which must not exist.\<close>

definition net_Listen :: "string \<Rightarrow> machine \<Rightarrow> nat option \<times> machine" where
  "net_Listen path w =
     (if files w path \<noteq> None \<or> fixed w path then (None, w)
      else (Some (length (endpoints w)),
            w\<lparr>files := (files w)(path \<mapsto> SocketFile (length (endpoints w))),
              endpoints := endpoints w @ [\<lparr>ep_open = True, ep_queue = []\<rparr>]\<rparr>))"

text \<open>\<^verbatim>\<open>(*net.UnixListener).Close\<close>: the first close unlinks whatever file the path names (not a
  directory) and gives up the pending connections; a second one is an error.\<close>

definition unlink :: "string \<Rightarrow> machine \<Rightarrow> machine" where
  "unlink path w =
     (case files w path of
        None \<Rightarrow> w
      | Some (Directory _) \<Rightarrow> w
      | Some _ \<Rightarrow> if fixed w path then w else w\<lparr>files := (files w)(path := None)\<rparr>)"

definition ln_Close :: "string \<Rightarrow> nat \<Rightarrow> machine \<Rightarrow> bool \<times> machine" where
  "ln_Close path i w =
     (if \<not> ep_open (endpoints w ! i) then (True, w)
      else let w1 = unlink path w
           in (False, w1\<lparr>endpoints := (endpoints w1)[i := \<lparr>ep_open = False, ep_queue = []\<rparr>]\<rparr>))"

text \<open>\<^verbatim>\<open>ln.Accept()\<close>: \<open>None\<close> while it blocks, otherwise a connection or an error.\<close>

definition ln_Accept :: "nat \<Rightarrow> machine \<Rightarrow> (nat option \<times> machine) option" where
  "ln_Accept i w =
     (if \<not> ep_open (endpoints w ! i) then Some (None, w)
      else case ep_queue (endpoints w ! i) of
             [] \<Rightarrow> None
           | k # ks \<Rightarrow> Some (Some k, w\<lparr>endpoints := (endpoints w)[i := (endpoints w ! i)\<lparr>ep_queue := ks\<rparr>]\<rparr>))"

section \<open>The Unix listener\<close>

record UnixIpcListener =
  socketPath :: string
  ux_listener :: "nat option"
  ux_closed :: bool

datatype ipc_error =
    AlreadyStarted
  | CleanupFailed remove_error
  | EndpointFailed
  | CloseFailed
  | ListenerClosed

definition NewUnixIpcListener :: "string \<Rightarrow> UnixIpcListener" where
  "NewUnixIpcListener path = \<lparr>socketPath = path, ux_listener = None, ux_closed = False\<rparr>"

text \<open>\<^verbatim>\<open>Start\<close> without the watcher goroutine, which the system below adds on success.\<close>

definition UnixStart :: "UnixIpcListener \<Rightarrow> machine \<Rightarrow> ipc_error option \<times> UnixIpcListener \<times> machine" where
  "UnixStart l w =
     (case ux_listener l of
        Some _ \<Rightarrow> (Some AlreadyStarted, l, w)
      | None \<Rightarrow>
          (case os_Remove (socketPath l) w of
             (err, w1) \<Rightarrow>
               if err \<noteq> None \<and> err \<noteq> Some NotExist then (Some (CleanupFailed (the err)), l, w1)
               else case net_Listen (socketPath l) w1 of
                      (None, w2) \<Rightarrow> (Some EndpointFailed, l, w2)
                    | (Some ln, w2) \<Rightarrow> (None, l\<lparr>ux_listener := Some ln, ux_closed := False\<rparr>, w2)))"

definition UnixStop :: "UnixIpcListener \<Rightarrow> machine \<Rightarrow> ipc_error option \<times> UnixIpcListener \<times> machine" where
  "UnixStop l w =
     (case ux_listener l of
        None \<Rightarrow> (None, l, w)
      | Some ln \<Rightarrow>
          (case ln_Close (socketPath l) ln w of
             (err, w1) \<Rightarrow>
               (case os_Remove (socketPath l) w1 of
                  (_, w2) \<Rightarrow> (if err then Some CloseFailed else None, l\<lparr>ux_closed := True, ux_listener := None\<rparr>, w2))))"

text \<open>\<^verbatim>\<open>Accept\<close> up to the blocking call: the endpoint it goes on to wait for.\<close>

definition UnixAccept :: "UnixIpcListener \<Rightarrow> ipc_error + nat" where
  "UnixAccept l = (if ux_closed l then Inl ListenerClosed
     else case ux_listener l of None \<Rightarrow> Inl ListenerClosed | Some ln \<Rightarrow> Inr ln)"

section \<open>The Windows listener\<close>

text \<open>The operations of \<^verbatim>\<open>go-winio\<close> the code calls, on a world of its own.\<close>

record ('n, 'w) winio =
  ListenPipe :: "string \<Rightarrow> 'w \<Rightarrow> 'n option \<times> 'w"
  ClosePipe :: "'n \<Rightarrow> 'w \<Rightarrow> bool \<times> 'w"
  AcceptPipe :: "'n \<Rightarrow> 'w \<Rightarrow> (nat option \<times> 'w) option"

record 'n WindowsIpcListener =
  pipePath :: string
  win_listener :: "'n option"
  win_closed :: bool

definition NewWindowsIpcListener :: "string \<Rightarrow> 'n WindowsIpcListener" where
  "NewWindowsIpcListener path = \<lparr>pipePath = path, win_listener = None, win_closed = False\<rparr>"

definition WindowsStart ::
  "('n, 'w) winio \<Rightarrow> 'n WindowsIpcListener \<Rightarrow> 'w \<Rightarrow> ipc_error option \<times> 'n WindowsIpcListener \<times> 'w" where
  "WindowsStart winio l w =
     (case win_listener l of
        Some _ \<Rightarrow> (Some AlreadyStarted, l, w)
      | None \<Rightarrow>
          (case ListenPipe winio (pipePath l) w of
             (None, w1) \<Rightarrow> (Some EndpointFailed, l, w1)
           | (Some ln, w1) \<Rightarrow> (None, l\<lparr>win_listener := Some ln, win_closed := False\<rparr>, w1)))"

definition WindowsStop ::
  "('n, 'w) winio \<Rightarrow> 'n WindowsIpcListener \<Rightarrow> 'w \<Rightarrow> ipc_error option \<times> 'n WindowsIpcListener \<times> 'w" where
  "WindowsStop winio l w =
     (case win_listener l of
        None \<Rightarrow> (None, l, w)
      | Some ln \<Rightarrow>
          (case ClosePipe winio ln w of
             (err, w1) \<Rightarrow> (if err then Some CloseFailed else None, l\<lparr>win_closed := True, win_listener := None\<rparr>, w1)))"

definition WindowsAccept :: "'n WindowsIpcListener \<Rightarrow> ipc_error + 'n" where
  "WindowsAccept l = (if win_closed l then Inl ListenerClosed
     else case win_listener l of None \<Rightarrow> Inl ListenerClosed | Some ln \<Rightarrow> Inr ln)"

text \<open>\<^verbatim>\<open>NewIpcListener\<close> over the platform's own constructor.\<close>

definition newPlatformListener_unix :: "string \<Rightarrow> UnixIpcListener" where
  "newPlatformListener_unix address = NewUnixIpcListener address"

definition newPlatformListener_windows :: "string \<Rightarrow> 'n WindowsIpcListener" where
  "newPlatformListener_windows address = NewWindowsIpcListener address"

definition NewIpcListener :: "(string \<Rightarrow> 'l) \<Rightarrow> string \<Rightarrow> 'l" where
  "NewIpcListener newPlatformListener address = newPlatformListener address"

section \<open>The listener interface\<close>

text \<open>
  What a caller of \<^verbatim>\<open>IIpcListener\<close> relies on: a second start is refused and changes nothing, a
  failed start leaves the listener as it was, a stop ends it and a repeated stop does nothing, and
  connections are accepted exactly between a successful start and the next stop.
\<close>

locale local_listener =
  fixes start :: "'l \<Rightarrow> 'w \<Rightarrow> ipc_error option \<times> 'l \<times> 'w"
    and stop :: "'l \<Rightarrow> 'w \<Rightarrow> ipc_error option \<times> 'l \<times> 'w"
    and accept :: "'l \<Rightarrow> ipc_error + 'n"
    and listens :: "'l \<Rightarrow> bool"
    and wf :: "'l \<Rightarrow> bool"
  assumes start_wf: "wf l \<Longrightarrow> start l w = (e, l', w') \<Longrightarrow> wf l'"
    and stop_wf: "wf l \<Longrightarrow> stop l w = (e, l', w') \<Longrightarrow> wf l'"
    and start_twice: "listens l \<Longrightarrow> start l w = (Some AlreadyStarted, l, w)"
    and start_fresh: "\<not> listens l \<Longrightarrow> start l w \<noteq> (Some AlreadyStarted, l', w')"
    and start_ok: "start l w = (None, l', w') \<Longrightarrow> listens l'"
    and start_failed: "start l w = (Some x, l', w') \<Longrightarrow> l' = l"
    and stop_ends: "stop l w = (e, l', w') \<Longrightarrow> \<not> listens l'"
    and stop_idle: "\<not> listens l \<Longrightarrow> stop l w = (None, l, w)"
    and accept_open: "wf l \<Longrightarrow> (\<exists>n. accept l = Inr n) \<longleftrightarrow> listens l"

text \<open>A sequence of calls with their results, and what the results say.\<close>

datatype ipc_call = StartCall | StopCall

fun ipc_calls :: "('l \<Rightarrow> 'w \<Rightarrow> ipc_error option \<times> 'l \<times> 'w) \<Rightarrow> ('l \<Rightarrow> 'w \<Rightarrow> ipc_error option \<times> 'l \<times> 'w) \<Rightarrow>
    ipc_call list \<Rightarrow> 'l \<times> 'w \<Rightarrow> (ipc_call \<times> ipc_error option) list \<times> 'l \<times> 'w" where
  "ipc_calls start stop [] (l, w) = ([], l, w)"
| "ipc_calls start stop (c # cs) (l, w) =
     (case (case c of StartCall \<Rightarrow> start l w | StopCall \<Rightarrow> stop l w) of
        (e, l1, w1) \<Rightarrow> (case ipc_calls start stop cs (l1, w1) of (rs, l2, w2) \<Rightarrow> ((c, e) # rs, l2, w2)))"

fun listening_after :: "bool \<Rightarrow> (ipc_call \<times> ipc_error option) list \<Rightarrow> bool" where
  "listening_after b [] = b"
| "listening_after b ((StartCall, e) # rs) = listening_after (b \<or> e = None) rs"
| "listening_after b ((StopCall, e) # rs) = listening_after False rs"

fun results_ok :: "bool \<Rightarrow> (ipc_call \<times> ipc_error option) list \<Rightarrow> bool" where
  "results_ok b [] = True"
| "results_ok b ((StartCall, e) # rs) = ((b \<longleftrightarrow> e = Some AlreadyStarted) \<and> results_ok (b \<or> e = None) rs)"
| "results_ok b ((StopCall, e) # rs) = ((b \<or> e = None) \<and> results_ok False rs)"

context local_listener
begin

lemma start_after:
  assumes "start l w = (e, l', w')"
  shows "listens l' = (listens l \<or> e = None) \<and> (listens l \<longleftrightarrow> e = Some AlreadyStarted)"
proof (cases "listens l")
  case True
  with start_twice [OF this, of w] assms show ?thesis by simp
next
  case False
  then have "e \<noteq> Some AlreadyStarted" using start_fresh assms by blast
  moreover have "listens l' \<longleftrightarrow> e = None"
    using False start_ok start_failed assms by (cases e) blast+
  ultimately show ?thesis using False by simp
qed

lemma lifecycle:
  assumes "wf l" "ipc_calls start stop cs (l, w) = (rs, l', w')"
  shows "results_ok (listens l) rs \<and> ((\<exists>n. accept l' = Inr n) \<longleftrightarrow> listening_after (listens l) rs)"
  using assms
proof (induction cs arbitrary: l w rs)
  case Nil
  then show ?case using accept_open [of l] by simp
next
  case (Cons c cs)
  obtain e l1 w1 where c1: "(case c of StartCall \<Rightarrow> start l w | StopCall \<Rightarrow> stop l w) = (e, l1, w1)" by (metis prod_cases3)
  with Cons.prems(2) obtain rs' where rs: "ipc_calls start stop cs (l1, w1) = (rs', l', w')" "rs = (c, e) # rs'"
    by (auto split: prod.splits)
  have "wf l1" using c1 start_wf [OF Cons.prems(1)] stop_wf [OF Cons.prems(1)] by (cases c) simp_all
  note IH = Cons.IH [OF this rs(1)]
  show ?case
  proof (cases c)
    case StartCall
    with c1 have "start l w = (e, l1, w1)" by simp
    from start_after [OF this] IH show ?thesis by (simp add: rs(2) StartCall)
  next
    case StopCall
    with c1 have "stop l w = (e, l1, w1)" by simp
    then have "\<not> listens l1" and "listens l \<or> e = None"
      using stop_ends [of l w] stop_idle [of l w] by (blast, cases "listens l", simp_all)
    with IH show ?thesis by (simp add: rs(2) StopCall)
  qed
qed

end

definition unix_wf :: "UnixIpcListener \<Rightarrow> bool" where
  "unix_wf l \<longleftrightarrow> (ux_closed l \<longrightarrow> ux_listener l = None)"

definition windows_wf :: "'n WindowsIpcListener \<Rightarrow> bool" where
  "windows_wf l \<longleftrightarrow> (win_closed l \<longrightarrow> win_listener l = None)"

interpretation unix_listener: local_listener UnixStart UnixStop UnixAccept "\<lambda>l. ux_listener l \<noteq> None" unix_wf
  by unfold_locales
    (auto simp: UnixStart_def UnixStop_def UnixAccept_def unix_wf_def split: option.splits prod.splits if_splits)

interpretation windows_listener: local_listener "WindowsStart winio" "WindowsStop winio" WindowsAccept
    "\<lambda>l. win_listener l \<noteq> None" windows_wf for winio :: "('n, 'w) winio"
  by unfold_locales
    (auto simp: WindowsStart_def WindowsStop_def WindowsAccept_def windows_wf_def split: option.splits prod.splits if_splits)

section \<open>The running Unix listener\<close>

datatype ipc_thread =
    Watch nat
  | AcceptOn nat

text \<open>
  The listener with its goroutines. The last fields are histories: the endpoints it made, the context
  of the last start, and the results of the finished accepts.
\<close>

record ipc_system =
  ux :: UnixIpcListener
  os :: machine
  ipc_threads :: "ipc_thread multiset"
  own :: "nat list"
  start_ctx :: nat
  accepts :: "(nat \<times> nat option) list"

fun ipc_exec :: "ipc_thread \<Rightarrow> ipc_system \<Rightarrow> ipc_system option" where
  "ipc_exec (Watch c) s =
     (if ctx_cancelled (os s) ! c
      then case UnixStop (ux s) (os s) of (_, l, w) \<Rightarrow> Some (s\<lparr>ux := l, os := w\<rparr>)
      else None)"
| "ipc_exec (AcceptOn i) s =
     (case ln_Accept i (os s) of
        None \<Rightarrow> None
      | Some (r, w) \<Rightarrow> Some (s\<lparr>os := w, accepts := accepts s @ [(i, r)]\<rparr>))"

definition ipc_start :: "nat \<Rightarrow> ipc_system \<Rightarrow> ipc_system" where
  "ipc_start ctx s =
     (case UnixStart (ux s) (os s) of
        (Some e, l, w) \<Rightarrow> s\<lparr>ux := l, os := w\<rparr>
      | (None, l, w) \<Rightarrow> s\<lparr>ux := l, os := w, ipc_threads := add_mset (Watch ctx) (ipc_threads s),
                         own := own s @ [the (ux_listener l)], start_ctx := ctx\<rparr>)"

definition ipc_stop :: "ipc_system \<Rightarrow> ipc_system" where
  "ipc_stop s = (case UnixStop (ux s) (os s) of (_, l, w) \<Rightarrow> s\<lparr>ux := l, os := w\<rparr>)"

definition ipc_accept :: "ipc_system \<Rightarrow> ipc_system" where
  "ipc_accept s = (case UnixAccept (ux s) of Inl e \<Rightarrow> s | Inr ln \<Rightarrow> s\<lparr>ipc_threads := add_mset (AcceptOn ln) (ipc_threads s)\<rparr>)"

text \<open>One move: a goroutine, a call, or the rest of the machine, which may change any file, make
  and close endpoints of its own, and connect to any endpoint.\<close>

inductive ipc_step :: "ipc_system \<Rightarrow> ipc_system \<Rightarrow> bool" where
  ipc_run: "ipc_threads s = add_mset t M \<Longrightarrow> ipc_exec t s = Some s' \<Longrightarrow> ipc_step s (s'\<lparr>ipc_threads := M\<rparr>)"
| ipc_call_start: "ctx < length (ctx_cancelled (os s)) \<Longrightarrow> ipc_step s (ipc_start ctx s)"
| ipc_call_stop: "ipc_step s (ipc_stop s)"
| ipc_call_accept: "ipc_step s (ipc_accept s)"
| ipc_new_ctx: "ipc_step s (s\<lparr>os := (os s)\<lparr>ctx_cancelled := ctx_cancelled (os s) @ [False]\<rparr>\<rparr>)"
| ipc_cancel: "ipc_step s (s\<lparr>os := (os s)\<lparr>ctx_cancelled := (ctx_cancelled (os s))[c := True]\<rparr>\<rparr>)"
| ipc_foreign_files: "ipc_step s (s\<lparr>os := (os s)\<lparr>files := f, fixed := g\<rparr>\<rparr>)"
| ipc_foreign_new: "ipc_step s (s\<lparr>os := (os s)\<lparr>endpoints := endpoints (os s) @ [e]\<rparr>\<rparr>)"
| ipc_foreign_change: "i \<notin> set (own s) \<Longrightarrow> ipc_step s (s\<lparr>os := (os s)\<lparr>endpoints := (endpoints (os s))[i := e]\<rparr>\<rparr>)"
| ipc_connect: "i < length (endpoints (os s)) \<Longrightarrow> ep_open (endpoints (os s) ! i) \<Longrightarrow>
     ipc_step s (s\<lparr>os := (os s)\<lparr>endpoints := (endpoints (os s))[i :=
       (endpoints (os s) ! i)\<lparr>ep_queue := ep_queue (endpoints (os s) ! i) @ [k]\<rparr>]\<rparr>\<rparr>)"

definition ipc_init :: "string \<Rightarrow> machine \<Rightarrow> ipc_system" where
  "ipc_init path w = \<lparr>ux = NewUnixIpcListener path, os = w, ipc_threads = {#}, own = [], start_ctx = 0, accepts = []\<rparr>"

inductive ipc_reachable :: "string \<Rightarrow> ipc_system \<Rightarrow> bool" for path where
  ipc_begins: "ipc_reachable path (ipc_init path w)"
| ipc_later: "ipc_reachable path s \<Longrightarrow> ipc_step s s' \<Longrightarrow> ipc_reachable path s'"

section \<open>The running Windows listener\<close>

text \<open>The same goroutines over \<^verbatim>\<open>go-winio\<close>: watchers, and callers of \<^verbatim>\<open>Accept\<close> blocked on a
  pipe. The contexts are numbered as above.\<close>

datatype 'n win_thread =
    WinWatch nat
  | WinAcceptOn 'n

record ('n, 'w) win_system =
  win :: "'n WindowsIpcListener"
  pipes :: 'w
  win_cancelled :: "bool list"
  win_threads :: "'n win_thread multiset"
  win_start_ctx :: nat
  win_accepts :: "('n \<times> nat option) list"

fun win_exec :: "('n, 'w) winio \<Rightarrow> 'n win_thread \<Rightarrow> ('n, 'w) win_system \<Rightarrow> ('n, 'w) win_system option" where
  "win_exec winio (WinWatch c) s =
     (if win_cancelled s ! c
      then case WindowsStop winio (win s) (pipes s) of (_, l, w) \<Rightarrow> Some (s\<lparr>win := l, pipes := w\<rparr>)
      else None)"
| "win_exec winio (WinAcceptOn n) s =
     (case AcceptPipe winio n (pipes s) of
        None \<Rightarrow> None
      | Some (r, w) \<Rightarrow> Some (s\<lparr>pipes := w, win_accepts := win_accepts s @ [(n, r)]\<rparr>))"

definition win_start :: "('n, 'w) winio \<Rightarrow> nat \<Rightarrow> ('n, 'w) win_system \<Rightarrow> ('n, 'w) win_system" where
  "win_start winio ctx s =
     (case WindowsStart winio (win s) (pipes s) of
        (Some e, l, w) \<Rightarrow> s\<lparr>win := l, pipes := w\<rparr>
      | (None, l, w) \<Rightarrow> s\<lparr>win := l, pipes := w, win_threads := add_mset (WinWatch ctx) (win_threads s), win_start_ctx := ctx\<rparr>)"

definition win_stop :: "('n, 'w) winio \<Rightarrow> ('n, 'w) win_system \<Rightarrow> ('n, 'w) win_system" where
  "win_stop winio s = (case WindowsStop winio (win s) (pipes s) of (_, l, w) \<Rightarrow> s\<lparr>win := l, pipes := w\<rparr>)"

definition win_accept :: "('n, 'w) win_system \<Rightarrow> ('n, 'w) win_system" where
  "win_accept s = (case WindowsAccept (win s) of Inl e \<Rightarrow> s | Inr n \<Rightarrow> s\<lparr>win_threads := add_mset (WinAcceptOn n) (win_threads s)\<rparr>)"

inductive win_step :: "('n, 'w) winio \<Rightarrow> ('n, 'w) win_system \<Rightarrow> ('n, 'w) win_system \<Rightarrow> bool" for winio where
  win_run: "win_threads s = add_mset t M \<Longrightarrow> win_exec winio t s = Some s' \<Longrightarrow> win_step winio s (s'\<lparr>win_threads := M\<rparr>)"
| win_call_start: "ctx < length (win_cancelled s) \<Longrightarrow> win_step winio s (win_start winio ctx s)"
| win_call_stop: "win_step winio s (win_stop winio s)"
| win_call_accept: "win_step winio s (win_accept s)"
| win_new_ctx: "win_step winio s (s\<lparr>win_cancelled := win_cancelled s @ [False]\<rparr>)"
| win_cancel: "win_step winio s (s\<lparr>win_cancelled := (win_cancelled s)[c := True]\<rparr>)"
| win_foreign: "win_step winio s (s\<lparr>pipes := w\<rparr>)"

definition win_init :: "string \<Rightarrow> 'w \<Rightarrow> ('n, 'w) win_system" where
  "win_init path w = \<lparr>win = NewWindowsIpcListener path, pipes = w, win_cancelled = [], win_threads = {#},
     win_start_ctx = 0, win_accepts = []\<rparr>"

inductive win_reachable :: "('n, 'w) winio \<Rightarrow> string \<Rightarrow> ('n, 'w) win_system \<Rightarrow> bool" for winio path where
  win_begins: "win_reachable winio path (win_init path w)"
| win_later: "win_reachable winio path s \<Longrightarrow> win_step winio s s' \<Longrightarrow> win_reachable winio path s'"

end
