(* ===== verification/IpcListenerProps.thy ===== *)
theory IpcListenerProps
  imports IpcListener
begin

text \<open>
  The properties of the local listeners: their behaviour call by call, the lifecycle they share on
  both platforms, and the state of the Unix listener under every interleaving with its watchers, the
  callers of \<^verbatim>\<open>Accept\<close> and the rest of the machine.
\<close>

section \<open>Calls\<close>

lemma UnixStart_eq:
  "UnixStart l w =
     (let p = socketPath l; n = length (endpoints w)
      in if ux_listener l \<noteq> None then (Some AlreadyStarted, l, w)
         else if fixed w p then (Some (if files w p = None then EndpointFailed else CleanupFailed Denied), l, w)
         else if files w p = Some (Directory False) then (Some (CleanupFailed NotEmpty), l, w)
         else (None, l\<lparr>ux_listener := Some n, ux_closed := False\<rparr>,
               w\<lparr>files := (files w)(p \<mapsto> SocketFile n), endpoints := endpoints w @ [\<lparr>ep_open = True, ep_queue = []\<rparr>]\<rparr>))"
  by (auto simp: UnixStart_def os_Remove_def net_Listen_def Let_def split: option.splits)

lemma os_Remove_frame:
  "os_Remove p w = (e, w') \<Longrightarrow> endpoints w' = endpoints w \<and> ctx_cancelled w' = ctx_cancelled w"
  by (auto simp: os_Remove_def split: option.splits if_splits)

lemma unlink_frame [simp]: "endpoints (unlink p w) = endpoints w" "ctx_cancelled (unlink p w) = ctx_cancelled w"
  by (auto simp: unlink_def split: option.splits node.splits)

lemma UnixStop_frame:
  assumes "UnixStop l w = (e, l', w')"
  shows "socketPath l' = socketPath l \<and> ux_listener l' = None \<and> (unix_wf l \<longrightarrow> unix_wf l') \<and> ctx_cancelled w' = ctx_cancelled w
    \<and> length (endpoints w') = length (endpoints w)
    \<and> endpoints w' = (case ux_listener l of None \<Rightarrow> endpoints w
        | Some i \<Rightarrow> if ep_open (endpoints w ! i) then (endpoints w)[i := \<lparr>ep_open = False, ep_queue = []\<rparr>] else endpoints w)"
  using assms
  by (auto simp: UnixStop_def ln_Close_def Let_def unix_wf_def split: option.splits prod.splits if_splits dest!: os_Remove_frame)

lemma UnixStop_files:
  assumes "ux_listener l = Some i" "ep_open (endpoints w ! i)"
  shows "UnixStop l w =
     (None, l\<lparr>ux_closed := True, ux_listener := None\<rparr>,
      w\<lparr>files := (if fixed w (socketPath l) \<or> files w (socketPath l) = Some (Directory False) then files w
                  else (files w)(socketPath l := None)),
        endpoints := (endpoints w)[i := \<lparr>ep_open = False, ep_queue = []\<rparr>]\<rparr>)"
  using assms
  by (auto simp: UnixStop_def ln_Close_def unlink_def os_Remove_def Let_def fun_eq_iff split: option.splits node.splits)

section \<open>The invariant\<close>

definition ipc_inv :: "string \<Rightarrow> ipc_system \<Rightarrow> bool" where
  "ipc_inv path s \<longleftrightarrow> socketPath (ux s) = path \<and> unix_wf (ux s)
     \<and> (\<forall>i \<in> set (own s). i < length (endpoints (os s)) \<and> (ep_open (endpoints (os s) ! i) \<longleftrightarrow> ux_listener (ux s) = Some i))
     \<and> (\<forall>i. ux_listener (ux s) = Some i \<longrightarrow> i \<in> set (own s) \<and> Watch (start_ctx s) \<in># ipc_threads s)
     \<and> (\<forall>i. AcceptOn i \<in># ipc_threads s \<longrightarrow> i \<in> set (own s))"

lemma stop_ipc_inv:
  assumes "ipc_inv path s" "UnixStop (ux s) (os s) = (e, l, w)" "\<And>i. AcceptOn i \<in># M \<Longrightarrow> AcceptOn i \<in># ipc_threads s"
  shows "ipc_inv path (s\<lparr>ux := l, os := w, ipc_threads := M\<rparr>)"
  using assms(1,3) UnixStop_frame [OF assms(2)]
  by (auto simp: ipc_inv_def nth_update_if split: option.splits if_splits)

lemma accept_ipc_inv:
  assumes "ipc_inv path s" "ln_Accept i (os s) = Some (r, w)" "ipc_threads s = add_mset (AcceptOn i) M"
  shows "ipc_inv path (s\<lparr>os := w, accepts := xs, ipc_threads := M\<rparr>)"
proof -
  have "length (endpoints w) = length (endpoints (os s)) \<and> (\<forall>j. ep_open (endpoints w ! j) = ep_open (endpoints (os s) ! j))"
    using assms(2) by (auto simp: ln_Accept_def nth_update_if split: if_splits list.splits)
  then show ?thesis using assms(1,3) by (auto simp: ipc_inv_def)
qed

lemma start_ipc_inv:
  assumes "ipc_inv path s"
  shows "ipc_inv path (ipc_start ctx s)"
proof (cases "fst (UnixStart (ux s) (os s))")
  case None
  then have ok: "ux_listener (ux s) = None" "UnixStart (ux s) (os s) =
      (None, (ux s)\<lparr>ux_listener := Some (length (endpoints (os s))), ux_closed := False\<rparr>,
       (os s)\<lparr>files := (files (os s))(socketPath (ux s) \<mapsto> SocketFile (length (endpoints (os s)))),
              endpoints := endpoints (os s) @ [\<lparr>ep_open = True, ep_queue = []\<rparr>]\<rparr>)"
    by (auto simp: UnixStart_eq Let_def split: if_splits)
  then show ?thesis using assms by (auto simp: ipc_inv_def ipc_start_def unix_wf_def nth_append)
next
  case (Some e)
  then have "UnixStart (ux s) (os s) = (Some e, ux s, os s)" by (auto simp: UnixStart_eq Let_def split: if_splits)
  then show ?thesis using assms by (simp add: ipc_start_def)
qed

lemma ipc_step_inv: "ipc_step s s' \<Longrightarrow> ipc_inv path s \<Longrightarrow> ipc_inv path s'"
proof (induction rule: ipc_step.induct)
  case (ipc_run s t M s')
  show ?case
  proof (cases t)
    case (Watch c)
    with ipc_run.hyps(2) obtain e l w where st: "UnixStop (ux s) (os s) = (e, l, w)" "s' = s\<lparr>ux := l, os := w\<rparr>"
      by (auto split: if_splits prod.splits)
    show ?thesis using stop_ipc_inv [OF ipc_run.prems st(1), of M] ipc_run.hyps(1) by (simp add: st(2))
  next
    case (AcceptOn i)
    with ipc_run.hyps(2) obtain r w where "ln_Accept i (os s) = Some (r, w)" "s' = s\<lparr>os := w, accepts := accepts s @ [(i, r)]\<rparr>"
      by (auto split: option.splits)
    with accept_ipc_inv [OF ipc_run.prems] ipc_run.hyps(1) AcceptOn show ?thesis by simp
  qed
next
  case (ipc_call_start ctx s)
  then show ?case by (simp add: start_ipc_inv)
next
  case (ipc_call_stop s)
  obtain e l w where st: "UnixStop (ux s) (os s) = (e, l, w)" by (metis prod_cases3)
  from stop_ipc_inv [OF ipc_call_stop st, of "ipc_threads s"] show ?case by (simp add: ipc_stop_def st)
next
  case (ipc_call_accept s)
  then show ?case
    by (auto simp: ipc_accept_def UnixAccept_def ipc_inv_def split: option.splits sum.splits if_splits)
qed (auto simp: ipc_inv_def nth_append nth_update_if)

lemma ipc_reachable_inv: "ipc_reachable path s \<Longrightarrow> ipc_inv path s"
proof (induction rule: ipc_reachable.induct)
  case (ipc_begins w)
  show ?case by (simp add: ipc_init_def ipc_inv_def NewUnixIpcListener_def unix_wf_def)
next
  case (ipc_later s s')
  then show ?case by (blast intro: ipc_step_inv)
qed

section \<open>The Windows listener\<close>

definition win_inv :: "string \<Rightarrow> ('n, 'w) win_system \<Rightarrow> bool" where
  "win_inv path s \<longleftrightarrow> pipePath (win s) = path \<and> windows_wf (win s)
     \<and> (win_listener (win s) \<noteq> None \<longrightarrow> WinWatch (win_start_ctx s) \<in># win_threads s)"

lemma WindowsStop_frame:
  "WindowsStop winio l w = (e, l', w') \<Longrightarrow> pipePath l' = pipePath l \<and> win_listener l' = None \<and> (windows_wf l \<longrightarrow> windows_wf l')"
  by (auto simp: WindowsStop_def windows_wf_def split: option.splits prod.splits)

lemma WindowsStart_frame:
  "WindowsStart winio l w = (e, l', w') \<Longrightarrow> pipePath l' = pipePath l \<and> (e \<noteq> None \<longrightarrow> l' = l) \<and> (windows_wf l \<longrightarrow> windows_wf l')"
  by (auto simp: WindowsStart_def windows_wf_def split: option.splits prod.splits)

lemma win_step_inv: "win_step winio s s' \<Longrightarrow> win_inv path s \<Longrightarrow> win_inv path s'"
proof (induction rule: win_step.induct)
  case (win_run s t M s')
  then show ?case
    by (cases t) (auto simp: win_inv_def split: if_splits prod.splits option.splits dest!: WindowsStop_frame)
next
  case (win_call_start ctx s)
  then show ?case
    by (auto simp: win_inv_def win_start_def split: prod.splits option.splits dest!: WindowsStart_frame)
next
  case (win_call_stop s)
  then show ?case by (auto simp: win_inv_def win_stop_def split: prod.splits dest!: WindowsStop_frame)
next
  case (win_call_accept s)
  then show ?case by (auto simp: win_inv_def win_accept_def split: sum.splits)
qed (auto simp: win_inv_def)

lemma win_reachable_inv: "win_reachable winio path s \<Longrightarrow> win_inv path s"
proof (induction rule: win_reachable.induct)
  case (win_begins w)
  show ?case by (simp add: win_init_def win_inv_def NewWindowsIpcListener_def windows_wf_def)
next
  case (win_later s s')
  then show ?case by (blast intro: win_step_inv)
qed

section \<open>Runs\<close>

text \<open>An empty machine with two contexts; a start under the first, a stop, a start under the second;
  then the first context is cancelled.\<close>

definition bare_machine :: machine where
  "bare_machine = \<lparr>files = (\<lambda>_. None), fixed = (\<lambda>_. False), endpoints = [], ctx_cancelled = [False, False]\<rparr>"

definition restarted :: "string \<Rightarrow> ipc_system" where
  "restarted path = ipc_start 1 (ipc_stop (ipc_start 0 (ipc_init path bare_machine)))"

definition restarted_cancelled :: "string \<Rightarrow> ipc_system" where
  "restarted_cancelled path =
     (restarted path)\<lparr>os := (os (restarted path))\<lparr>ctx_cancelled := (ctx_cancelled (os (restarted path)))[0 := True]\<rparr>\<rparr>"

lemmas ipc_run_simps = restarted_def ipc_start_def ipc_stop_def ipc_init_def bare_machine_def NewUnixIpcListener_def
  UnixStart_eq UnixStop_files Let_def

lemma restarted_end:
  "ux (restarted path) = \<lparr>socketPath = path, ux_listener = Some 1, ux_closed = False\<rparr>"
  "ipc_threads (restarted path) = {#Watch 0, Watch 1#}" "start_ctx (restarted path) = 1" "own (restarted path) = [0, 1]"
  "ctx_cancelled (os (restarted path)) = [False, False]"
  "endpoints (os (restarted path)) = [\<lparr>ep_open = False, ep_queue = []\<rparr>, \<lparr>ep_open = True, ep_queue = []\<rparr>]"
  by (simp_all add: ipc_run_simps)

lemma restarted_reachable: "ipc_reachable path (restarted path)"
proof -
  let ?s0 = "ipc_init path bare_machine"
  have "ipc_reachable path (ipc_start 0 ?s0)"
    by (rule ipc_reachable.ipc_later [OF ipc_reachable.ipc_begins ipc_step.ipc_call_start]) (simp add: ipc_init_def bare_machine_def)
  then have "ipc_reachable path (ipc_stop (ipc_start 0 ?s0))" by (rule ipc_reachable.ipc_later [OF _ ipc_step.ipc_call_stop])
  then show ?thesis
    unfolding restarted_def by (rule ipc_reachable.ipc_later [OF _ ipc_step.ipc_call_start]) (simp add: ipc_run_simps)
qed

section \<open>Properties\<close>


text \<open>
  C23: both platforms implement the listener lifecycle. For any sequence of starts and stops on a new
  listener, a start reports \<open>AlreadyStarted\<close> exactly if the listener is listening according to
  the earlier results, a stop of a listener that is not listening succeeds and does nothing, and
  \<open>Accept\<close> goes on to wait for a connection exactly if the last call that mattered was a
  successful start. This holds whatever \<open>go-winio\<close> answers.
\<close>

theorem ipc_lifecycle:
  "(case ipc_calls UnixStart UnixStop cs (NewUnixIpcListener path, w) of
      (rs, l, w') \<Rightarrow> results_ok False rs \<and> ((\<exists>n. UnixAccept l = Inr n) \<longleftrightarrow> listening_after False rs))
   \<and> (case ipc_calls (WindowsStart winio) (WindowsStop winio) cs (NewWindowsIpcListener path, v) of
      (rs, l, v') \<Rightarrow> results_ok False rs \<and> ((\<exists>n. WindowsAccept l = Inr n) \<longleftrightarrow> listening_after False rs))"
proof (intro conjI)
  have "unix_wf (NewUnixIpcListener path)" by (simp add: unix_wf_def NewUnixIpcListener_def)
  from unix_listener.lifecycle [OF this] show "case ipc_calls UnixStart UnixStop cs (NewUnixIpcListener path, w) of
      (rs, l, w') \<Rightarrow> results_ok False rs \<and> ((\<exists>n. UnixAccept l = Inr n) \<longleftrightarrow> listening_after False rs)"
    by (simp add: NewUnixIpcListener_def split: prod.splits)
next
  obtain rs l v' where calls:
    "ipc_calls (WindowsStart winio) (WindowsStop winio) cs (NewWindowsIpcListener path, v) = (rs, l, v')"
    by (metis prod_cases3)
  from windows_listener.lifecycle [OF _ calls]
  show "case ipc_calls (WindowsStart winio) (WindowsStop winio) cs (NewWindowsIpcListener path, v) of
      (rs, l, v') \<Rightarrow> results_ok False rs \<and> ((\<exists>n. WindowsAccept l = Inr n) \<longleftrightarrow> listening_after False rs)"
    unfolding calls by (simp add: NewWindowsIpcListener_def windows_wf_def)
qed

text \<open>
  C22: the state of the Unix listener under every interleaving with its goroutines and the rest of the
  machine. Of all endpoints it ever made, exactly the current one is open, so that none leaks; a
  caller of \<open>Accept\<close> that waits on an endpoint that is not the current one gets an error at
  once; and while the listener listens, the watcher of the context it was started with is there and,
  once that context is cancelled, stops it.
\<close>

theorem unix_listener_invariant:
  assumes "ipc_reachable path s"
  shows "(\<forall>i \<in> set (own s). ep_open (endpoints (os s) ! i) \<longleftrightarrow> ux_listener (ux s) = Some i)
    \<and> (\<forall>i. AcceptOn i \<in># ipc_threads s \<longrightarrow> ux_listener (ux s) \<noteq> Some i \<longrightarrow>
          ipc_exec (AcceptOn i) s = Some (s\<lparr>accepts := accepts s @ [(i, None)]\<rparr>))
    \<and> (ux_listener (ux s) \<noteq> None \<longrightarrow> Watch (start_ctx s) \<in># ipc_threads s
          \<and> (ctx_cancelled (os s) ! start_ctx s \<longrightarrow>
               (\<exists>s'. ipc_exec (Watch (start_ctx s)) s = Some s' \<and> ux_listener (ux s') = None)))"
proof -
  note inv = ipc_reachable_inv [OF assms]
  have "ux_listener (fst (snd (UnixStop (ux s) (os s)))) = None"
    using UnixStop_frame [of "ux s" "os s"] by (metis prod.collapse)
  then have "\<exists>s'. ipc_exec (Watch c) s = Some s' \<and> ux_listener (ux s') = None" if "ctx_cancelled (os s) ! c" for c
    using that by (auto split: prod.splits)
  with inv show ?thesis by (auto simp: ipc_inv_def ln_Accept_def)
qed

theorem unix_listener_invariant_witness:
  "ux_listener (ux (restarted ''p'')) = Some 1
   \<and> ep_open (endpoints (os (restarted ''p'')) ! 1) \<and> \<not> ep_open (endpoints (os (restarted ''p'')) ! 0)
   \<and> Watch 1 \<in># ipc_threads (restarted ''p'')"
  using unix_listener_invariant [OF restarted_reachable [of "''p''"]] by (simp add: restarted_end)

text \<open>
  C25: a watcher outlives the start that made it. At every path there is a reachable state in which the
  listener listens under a context that is not cancelled, and in which the watcher of an earlier
  start, which was already stopped, sees its own context cancelled and stops the listener.
\<close>

theorem stale_watcher_stops_listener:
  "\<exists>s s' c M. ipc_reachable path s \<and> ux_listener (ux s) \<noteq> None \<and> \<not> ctx_cancelled (os s) ! start_ctx s
     \<and> ipc_threads s = add_mset (Watch c) M \<and> Watch (start_ctx s) \<in># M
     \<and> ipc_exec (Watch c) s = Some s' \<and> UnixAccept (ux s') = Inl ListenerClosed"
proof -
  let ?s = "restarted_cancelled path"
  have reach: "ipc_reachable path ?s"
    unfolding restarted_cancelled_def by (rule ipc_reachable.ipc_later [OF restarted_reachable ipc_step.ipc_cancel])
  obtain s' where "ipc_exec (Watch 0) ?s = Some s'" "UnixAccept (ux s') = Inl ListenerClosed"
    by (simp add: restarted_cancelled_def restarted_end UnixStop_files UnixAccept_def)
  moreover have "ux_listener (ux ?s) \<noteq> None" "\<not> ctx_cancelled (os ?s) ! start_ctx ?s"
    "ipc_threads ?s = add_mset (Watch 0) {#Watch 1#}" "Watch (start_ctx ?s) \<in># {#Watch 1#}"
    by (simp_all add: restarted_cancelled_def restarted_end)
  ultimately show ?thesis using reach by blast
qed

text \<open>
  C26: the Windows listener under every interleaving with its goroutines, whatever \<open>go-winio\<close>
  does: \<open>Accept\<close> goes on to wait exactly on the current pipe, and while the listener listens the
  watcher of the context it was started with is there and, once that context is cancelled, stops it.
\<close>

theorem windows_listener_invariant:
  assumes "win_reachable winio path s"
  shows "(\<forall>n. WindowsAccept (win s) = Inr n \<longleftrightarrow> win_listener (win s) = Some n) \<and> pipePath (win s) = path
    \<and> (win_listener (win s) \<noteq> None \<longrightarrow> WinWatch (win_start_ctx s) \<in># win_threads s
          \<and> (win_cancelled s ! win_start_ctx s \<longrightarrow>
               (\<exists>s'. win_exec winio (WinWatch (win_start_ctx s)) s = Some s' \<and> win_listener (win s') = None)))"
proof -
  have "win_listener (fst (snd (WindowsStop winio (win s) (pipes s)))) = None"
    using WindowsStop_frame [of winio "win s" "pipes s"] by (metis prod.collapse)
  then have "\<exists>s'. win_exec winio (WinWatch c) s = Some s' \<and> win_listener (win s') = None" if "win_cancelled s ! c" for c
    using that by (auto split: prod.splits)
  with win_reachable_inv [OF assms] show ?thesis
    by (auto simp: win_inv_def WindowsAccept_def windows_wf_def split: option.splits)
qed

text \<open>Pipes numbered in the order they are made, on which nobody connects.\<close>

definition counted_pipes :: "(nat, nat) winio" where
  "counted_pipes = \<lparr>ListenPipe = (\<lambda>path w. (Some w, Suc w)), ClosePipe = (\<lambda>n w. (False, w)), AcceptPipe = (\<lambda>n w. None)\<rparr>"

definition win_started :: "(nat, nat) win_system" where
  "win_started = win_start counted_pipes 0 ((win_init ''p'' 5)\<lparr>win_cancelled := [False]\<rparr>)"

lemma win_started_reachable: "win_reachable counted_pipes ''p'' win_started"
proof -
  let ?s = "(win_init ''p'' 5 :: (nat, nat) win_system)\<lparr>win_cancelled := [False]\<rparr>"
  have "?s = (win_init ''p'' 5)\<lparr>win_cancelled := win_cancelled (win_init ''p'' 5 :: (nat, nat) win_system) @ [False]\<rparr>"
    by (simp add: win_init_def)
  then have "win_reachable counted_pipes ''p'' ?s"
    using win_reachable.win_later [OF win_reachable.win_begins win_step.win_new_ctx] by metis
  from win_reachable.win_later [OF this win_step.win_call_start [of 0]] show ?thesis by (simp add: win_started_def)
qed

theorem windows_listener_invariant_witness:
  "WindowsAccept (win win_started) = Inr 5 \<and> win_listener (win win_started) = Some 5 \<and> WinWatch 0 \<in># win_threads win_started"
proof -
  have "win_listener (win win_started) = Some 5" "win_start_ctx win_started = 0"
    by (simp_all add: win_started_def win_start_def WindowsStart_def win_init_def NewWindowsIpcListener_def counted_pipes_def)
  with windows_listener_invariant [OF win_started_reachable] show ?thesis by simp
qed

end
