(* ===== verification/Spec2Isabelle.thy ===== *)
theory Spec2Isabelle
  imports DaemonProps StunRuns IpcListenerProps
begin

text \<open>
  Verification of the GOTA daemon process (\<^verbatim>\<open>src/\<close>, Go).

  \<^bold>\<open>The program.\<close> Local applications connect over a Unix socket or a Windows pipe
  (\<^verbatim>\<open>ipc/listener_*.go\<close>). The session manager (\<^verbatim>\<open>ipc/session_manager.go\<close>) gives each
  connection a dispatch id, reads request frames from it and writes response frames to it, with two
  goroutines per session. Requests are system calls: the dispatcher (\<^verbatim>\<open>controlcenter\<close>) looks
  the opcode up and runs its handler; the two handlers send data to the network engine and produce
  invite keys. Invite keys are generated and parsed in \<^verbatim>\<open>invitekey\<close>. The node's keys and public
  address are in \<^verbatim>\<open>identify\<close>; the STUN discoverer (\<^verbatim>\<open>stun\<close>) finds the address by asking
  servers through the UDP listener (\<^verbatim>\<open>network\<close>), which shares one port among subscribers.

  \<^bold>\<open>Conventions.\<close> A Go call that may panic has a result of type \<open>'a go\<close>; an
  \<^verbatim>\<open>error\<close> result is a sum or an option inside it. Fixed-width integers are words. Objects
  reached through pointers are numbered (sessions, sockets, channels, contexts, endpoints). A
  component with goroutines is a set of threads: \<open>exec\<close>, \<open>uexec\<close>, \<open>dexec\<close>,
  \<open>ipc_exec\<close> and \<open>win_exec\<close> make one atomic move of a thread (a critical section, a channel
  operation, a blocking call), with result \<open>None\<close> while the thread is blocked; the inductive
  relations \<open>step\<close>, \<open>ustep\<close>, \<open>dstep\<close>, \<open>ipc_step\<close> and \<open>win_step\<close> interleave them with calls
  from outside in every order, and the \<open>reachable\<close> predicates collect what can happen. The flag
  \<open>orderly\<close> restricts the callers to the contract of the standard library (no
  \<^verbatim>\<open>wg.Add\<close> racing with \<^verbatim>\<open>wg.Wait\<close>, no subscriber closing its channel). Some records have
  history fields (packets accepted, bytes sent, callbacks run, packets received); no operation reads
  them.

  \<^bold>\<open>Theories.\<close>
  \<^item> \<open>Prelude\<close>, \<open>GoBase64\<close>, \<open>GoChan\<close>, \<open>GoSync\<close>, \<open>GoNet\<close>: what the
    sources use of the language and its library: words and byte order, base64, buffered channels
    (locale \<open>bounded_fifo\<close>), \<^verbatim>\<open>sync.WaitGroup\<close> with its misuse panics, printing of
    IP addresses.
  \<^item> \<open>Interfaces\<close>: the types of \<^verbatim>\<open>src/interfaces\<close> and the locale \<open>packet_port\<close> for
    \<^verbatim>\<open>IUdpPortListener\<close>.
  \<^item> \<open>Dispatcher\<close>, \<open>Handlers\<close>: \<^verbatim>\<open>controlcenter\<close>; the table is an instance of
    the locale \<open>write_once_table\<close>. Results on every branch of dispatching and of the two
    handlers, parameter decoding, registration.
  \<^item> \<open>InviteKeyV1\<close>, \<open>KeyManager\<close>: \<^verbatim>\<open>invitekey\<close>; base64 fields are an instance of
    the locale \<open>field_codec\<close>. Round trips, the exact set of accepted keys, malleability, panics.
  \<^item> \<open>IpcFrame\<close>: \<^verbatim>\<open>readPacket\<close> and \<^verbatim>\<open>writePacket\<close>; both wire formats are instances of
    the locale \<open>frame_codec\<close>.
  \<^item> \<open>SessionManager\<close> and \<open>SessionSafety\<close>, \<open>SessionOnce\<close>, \<open>SessionOrder\<close>,
    \<open>SessionLive\<close>, \<open>SessionShutdown\<close>, \<open>SessionSpec\<close>, \<open>SessionRuns\<close>,
    \<open>SessionProps\<close>: the session manager. Panics, callbacks at most once, delivery in order,
    goroutines that serve every session, termination of \<^verbatim>\<open>Close\<close>, refinement of a table of
    bounded mailboxes, and agreement of the exported operations with their threads.
  \<^item> \<open>Daemon\<close>, \<open>DaemonSafety\<close>, \<open>DaemonProps\<close>: the session manager, the dispatcher and
    the handlers wired by the control callback of \<^verbatim>\<open>controlcenter/integration_test.go\<close>, which
    is the only place of the sources that wires them. Every move is made of moves of the session
    manager's own transition system, so its invariants carry over. A client's requests are answered in
    order, the system calls of all sessions act as if run one after the other, and the daemon panics
    only if a key generator does.
  \<^item> \<open>IpcListener\<close>, \<open>IpcListenerProps\<close>: both platform listeners, as instances of the locale
    \<open>local_listener\<close>, and as running systems with watchers and blocked accepts.
  \<^item> \<open>UdpListener\<close>, \<open>UdpSafety\<close>, \<open>UdpProps\<close>: the UDP listener, an instance of
    \<open>packet_port\<close>. Its panics exactly, the origin of delivered packets, termination of
    \<^verbatim>\<open>StopListener\<close>.
  \<^item> \<open>Identify\<close>: the identity over a store of address objects; isolation from its clients.
  \<^item> \<open>StunParse\<close>: the response parser and the filter of a query, with an encoder and a
    structural reference reading.
  \<^item> \<open>StunDiscoverer\<close>, \<open>StunSafety\<close>, \<open>StunProps\<close>, \<open>StunRuns\<close>: the discoverer composed
    with the UDP listener and the identity. Every move of the discoverer is a move of the listener's
    own transition system, so the listener's invariants carry over.
  \<^item> this theory: the path of a \<open>GetInviteKey\<close> request through all layers.

  \<^bold>\<open>Bounds.\<close> There is no fuel: loops are structural recursion, recursion with a measure, or
  steps of a relation. Termination of \<^verbatim>\<open>Close\<close>, \<^verbatim>\<open>StopListener\<close> and the discoverer's
  \<^verbatim>\<open>Stop\<close> is a bound on all schedules (\<open>shutdown_bound\<close>, \<open>stop_bound\<close>,
  \<open>disc_bound\<close> plus three moves per tick) together with progress. Results about dispatch ids and
  the wired daemon hold below \<open>2 ^ 32\<close> registrations; what happens at the wrap is proved separately.

  \<^bold>\<open>Parameters.\<close> Code outside the sources is an argument: the Ed25519 operations (with the
  documented correctness of signing as hypothesis), the X25519 key derivation, the egress engine, the
  operations of \<^verbatim>\<open>go-winio\<close>, the name resolver. Random bytes, timers, the choice among ready
  branches of a \<^verbatim>\<open>select\<close>, arriving packets and the actions of other processes are arbitrary.

  \<^bold>\<open>Not modelled.\<close> The packages \<^verbatim>\<open>handshake\<close> and \<^verbatim>\<open>natpunch\<close> contain a package comment
  only, and most interfaces of \<^verbatim>\<open>src/interfaces\<close> have no implementation in the sources. Logging
  and the texts of most errors are left out, as nothing depends on them. Time is not measured: the
  write deadline is a write that may fail at any point, a timeout may fire at any moment. Data races
  on memory are not modelled beyond the locks the code takes. Callbacks are taken to return, and a
  handler is one move on the state it works on. There is no main program in the sources. Unix
  abstract socket names and unbuffered subscriber channels are outside the model.
\<close>

section \<open>An invite key over the local interface\<close>

text \<open>The request as the daemon reads it, for any end-of-stream flag.\<close>

lemma readPacket_request:
  assumes "length (snd q) < 65536"
  shows "readPacket \<lparr>pending = request_frame q @ rest, eof = e\<rparr> = (Done q, \<lparr>pending = rest, eof = e\<rparr>)"
  using assms
  by (cases q) (simp add: readPacket_def ReadFull_def request_frame_def unat_len slice_def Let_def)

lemma default_dispatch:
  assumes "RegisterDefaultHandlers (Some NewDispatcher) (Some getKm) egress = (None, Some d)"
  shows "syscall_lookup d OpcodeGetInviteKey = Some (invite_descriptor (Some getKm))"
  using default_table [OF assms] by simp

lemma writePacket_all:
  assumes "length data < 65536"
  shows "writePacket op status data \<lparr>taken = [], room = None\<rparr> = (None, \<lparr>taken = response_frame (op, status, data), room = None\<rparr>)"
  using assms by (simp add: writePacket_def conn_Write_def response_frame_def maxPacketSize_def)

text \<open>
  C10: the invite key service from the bytes of the request to the identity in another node. The
  frame of a \<open>GetInviteKey\<close> request is read by the daemon's packet reader; the dispatcher with
  the default handlers answers it from the key manager; the written response frame is parsed by the
  client to the same opcode, status \<open>Success\<close> and the key; and any node whose key manager has the
  built-in parser reads from that key the address and the public key the generator was made with.
\<close>

theorem invite_key_over_ipc:
  assumes "ed25519_correct E" "ed_private E sk" "length x = 32" "addr \<noteq> []" "length addr \<le> 65354" "stock_v1 E km"
    and "generatorList (getKm w) v = Some (Some (GenerateKeyV1 E (NewKeyGeneratorV1 (Some x) addr sk)))"
    and "RegisterDefaultHandlers (Some NewDispatcher) (Some getKm) egress = (None, Some d)" "length extra < 65532"
  shows "\<exists>r out key.
      readPacket \<lparr>pending = request_frame (OpcodeGetInviteKey, PutUint32 v @ extra) @ rest, eof = e\<rparr>
        = (Done (OpcodeGetInviteKey, PutUint32 v @ extra), \<lparr>pending = rest, eof = e\<rparr>)
    \<and> DispatchSysCall d did OpcodeGetInviteKey (PutUint32 v @ extra) w = (Ret r, w) \<and> resp_DID r = did
    \<and> writePacket (resp_Opcode r) (StatusCode r) (Payload r) \<lparr>taken = [], room = None\<rparr>
        = (None, \<lparr>taken = out, room = None\<rparr>)
    \<and> parse_response out = Some ((OpcodeGetInviteKey, Success, str_bytes key), [])
    \<and> fst (ParseKey E km key) = Ret (Inr (x, addr))"
proof -
  obtain key where key: "GenerateKeyV1 E (NewKeyGeneratorV1 (Some x) addr sk) = Ret (Inr key)"
    "length key = length addr + 181" "fst (ParseKey E km key) = Ret (Inr (x, addr))"
    using generated_key [OF assms(1-4)] assms(6) by blast
  let ?r = "\<lparr>StatusCode = Success, resp_Opcode = OpcodeGetInviteKey, Payload = str_bytes key, resp_DID = did\<rparr>"
  have small: "length (str_bytes key) < 65536" using key(2) assms(5) by simp
  have "DispatchSysCall d did OpcodeGetInviteKey (PutUint32 v @ extra) w = (Ret ?r, w)"
    using key(1) assms(7)
    by (simp add: DispatchSysCall_def default_dispatch [OF assms(8)] invite_descriptor_def MakeGetInviteKeyHandler_def GenerateKey_def)
  moreover have "readPacket \<lparr>pending = request_frame (OpcodeGetInviteKey, PutUint32 v @ extra) @ rest, eof = e\<rparr>
      = (Done (OpcodeGetInviteKey, PutUint32 v @ extra), \<lparr>pending = rest, eof = e\<rparr>)"
    using assms(9) by (intro readPacket_request) simp
  moreover have "parse_response (response_frame (OpcodeGetInviteKey, Success, str_bytes key))
      = Some ((OpcodeGetInviteKey, Success, str_bytes key), [])"
    using response.parse_enc [of "(OpcodeGetInviteKey, Success, str_bytes key)" "[]"] small by simp
  ultimately show ?thesis
    using writePacket_all [OF small, of OpcodeGetInviteKey Success] key(3)
    by (intro exI [of _ ?r] exI [of _ "response_frame (OpcodeGetInviteKey, Success, str_bytes key)"] exI [of _ key]) simp
qed

theorem invite_key_over_ipc_witness:
  "\<exists>d r out key.
      RegisterDefaultHandlers (Some NewDispatcher) (Some (\<lambda>_ :: unit. RegisterGenerator 0 (Some (GenerateKeyV1 toy_ed25519
        (NewKeyGeneratorV1 (Some (replicate 32 9)) ''127.0.0.1:9000'' (replicate 64 7)))) NewKeyManager)) None = (None, Some d)
    \<and> DispatchSysCall d 1 OpcodeGetInviteKey (PutUint32 0 @ []) () = (Ret r, ())
    \<and> parse_response out = Some ((OpcodeGetInviteKey, Success, str_bytes key), [])
    \<and> fst (ParseKey toy_ed25519 NewKeyManager key) = Ret (Inr (replicate 32 9, ''127.0.0.1:9000''))"
proof -
  let ?km = "\<lambda>_ :: unit. RegisterGenerator 0 (Some (GenerateKeyV1 toy_ed25519
        (NewKeyGeneratorV1 (Some (replicate 32 9)) ''127.0.0.1:9000'' (replicate 64 7)))) NewKeyManager"
  obtain d where d: "RegisterDefaultHandlers (Some NewDispatcher) (Some ?km) None = (None, Some d)"
    using register_ok [of NewDispatcher OpcodeGetInviteKey "invite_descriptor (Some ?km)"]
    by (auto simp: RegisterDefaultHandlers_def)
  have gen: "generatorList (?km ()) 0 = Some (Some (GenerateKeyV1 toy_ed25519
        (NewKeyGeneratorV1 (Some (replicate 32 9)) ''127.0.0.1:9000'' (replicate 64 7))))"
    by (simp add: RegisterGenerator_def)
  from invite_key_over_ipc [OF toy_correct toy_private _ _ _ stock_v1_new gen d, of "[]" "[]" False 1] d show ?thesis by auto
qed

end
